(* ===== verification/Prelude.thy ===== *)
theory Prelude
  imports Main "HOL-Library.Word"
begin

text \<open>
  Prelude of the xv6 development: the C types of \<open>kernel/types.h\<close>, the result type of
  kernel functions (a value or a panic), the sequencing combinator, the byte-addressed
  physical memory with its little-endian 64-bit view, and the lemma collections that the
  component theories share.
\<close>

unbundle bit_operations_syntax

named_theorems mem_simps \<open>reading a memory after writing it\<close>
named_theorems res_simps \<open>results and their sequencing\<close>
named_theorems layout_defs \<open>the numeric constants of the memory layout\<close>


section \<open>Machine types\<close>

type_synonym uint = "32 word"
type_synonym ushort = "16 word"
type_synonym uchar = "8 word"
type_synonym uint8 = "8 word"
type_synonym uint16 = "16 word"
type_synonym uint32 = "32 word"
type_synonym uint64 = "64 word"


section \<open>Results\<close>

text \<open>
  A kernel function returns a value or stops. It stops by calling \<open>panic\<close> with a message,
  by dereferencing the null pointer (the kernel maps no page at address 0, so the access
  traps and \<open>kerneltrap\<close> panics), by an array access outside the array's bounds or by an overflow of
  a signed integer, both of which C leaves undefined. A loop bounded by fuel in the model that runs out of it is
  \<open>OutOfFuel\<close>. The theory \<open>Loops\<close> shows that this value is never returned by the loops of the virtual memory,
  the user copies, the pipes and the console; for the loops that work on disk blocks it is excluded where a lemma shows the
  result of the whole call. The file
  system is modelled as run by one process at a time: a call that would go to sleep there
  until another process acts returns \<open>Blocked\<close>.
\<close>

datatype err = Panic string | NullDeref | OutOfBounds | Overflow | OutOfFuel | Blocked

type_synonym 'a res = "err + 'a"

definition bind_res :: "'a res \<Rightarrow> ('a \<Rightarrow> 'b res) \<Rightarrow> 'b res" where
  "bind_res r f = (case r of Inl e \<Rightarrow> Inl e | Inr x \<Rightarrow> f x)"

lemma bind_res_simps [simp, res_simps]:
  "bind_res (Inl e) f = Inl e"
  "bind_res (Inr x) f = f x"
  by (simp_all add: bind_res_def)

lemma bind_res_Inr_iff:
  "bind_res r f = Inr y \<longleftrightarrow> (\<exists>x. r = Inr x \<and> f x = Inr y)"
  by (cases r) auto

lemma bind_res_Inl_iff:
  "bind_res r f = Inl e \<longleftrightarrow> r = Inl e \<or> (\<exists>x. r = Inr x \<and> f x = Inl e)"
  by (cases r) auto

lemma bind_res_InrE [elim]:
  assumes "bind_res r f = Inr y"
  obtains x where "r = Inr x" "f x = Inr y"
  using assms by (auto simp: bind_res_Inr_iff)

lemma bind_res_assoc: "bind_res (bind_res r f) g = bind_res r (\<lambda>x. bind_res (f x) g)"
  by (cases r) auto

text \<open>The value of an arithmetic expression of type \<open>int\<close>.\<close>

definition c_int :: "int \<Rightarrow> int res" where
  "c_int v = (if - (2 ^ 31) \<le> v \<and> v < 2 ^ 31 then Inr v else Inl Overflow)"

lemma c_int_Inr_iff: "c_int v = Inr w \<longleftrightarrow> w = v \<and> - (2 ^ 31) \<le> v \<and> v < 2 ^ 31"
  by (auto simp: c_int_def)

lemma c_int_in: "- (2 ^ 31) \<le> v \<Longrightarrow> v < 2 ^ 31 \<Longrightarrow> c_int v = Inr v"
  by (simp add: c_int_def)

text \<open>A counted loop whose body may stop.\<close>

fun fold_res :: "('a \<Rightarrow> 's \<Rightarrow> 's res) \<Rightarrow> 'a list \<Rightarrow> 's \<Rightarrow> 's res" where
  "fold_res f [] s = Inr s"
| "fold_res f (x # xs) s = bind_res (f x s) (fold_res f xs)"

lemma fold_res_append: "fold_res f (xs @ ys) s = bind_res (fold_res f xs s) (fold_res f ys)"
proof (induction xs arbitrary: s)
  case (Cons x xs)
  then show ?case by (cases "f x s") simp_all
qed simp

lemma fold_res_invariant:
  assumes "P s" and "\<And>x s. x \<in> set xs \<Longrightarrow> P s \<Longrightarrow> \<exists>s'. f x s = Inr s' \<and> P s'"
  shows "\<exists>s'. fold_res f xs s = Inr s' \<and> P s'"
  using assms
proof (induction xs arbitrary: s)
  case (Cons x xs)
  then obtain s1 where "f x s = Inr s1" "P s1" by (meson list.set_intros(1))
  with Cons show ?case by auto
qed simp

lemma bind_res_cong [fundef_cong]:
  assumes "r = r'" and "\<And>x. r' = Inr x \<Longrightarrow> f x = f' x"
  shows "bind_res r f = bind_res r' f'"
  using assms by (cases r') auto


section \<open>Words\<close>

lemma unat_diff_less_iff:
  fixes x a :: "'w::len word"
  assumes "a \<le> x"
  shows "unat (x - a) < n \<longleftrightarrow> unat x < unat a + n"
  using assms by (simp add: unat_sub word_le_nat_alt) linarith

lemma diff_of_nat_less:
  fixes x a :: "64 word"
  assumes "unat (x - a) < n"
  obtains i where "i < n" "x = a + of_nat i"
proof
  show "unat (x - a) < n" by fact
  show "x = a + of_nat (unat (x - a))" by simp
qed

lemma unat_of_nat64: "n < 2 ^ 64 \<Longrightarrow> unat (of_nat n :: 64 word) = n"
  by (simp add: unat_of_nat)

lemma add_of_nat_neq:
  fixes a :: "64 word"
  assumes "i < 2 ^ 64" "j < 2 ^ 64" "i \<noteq> j"
  shows "a + of_nat i \<noteq> a + of_nat j"
proof
  assume "a + of_nat i = a + of_nat j"
  then have "unat (of_nat i :: 64 word) = unat (of_nat j :: 64 word)" by simp
  with assms show False by (simp add: unat_of_nat64)
qed

lemma eq_add_of_nat_iff:
  fixes a x :: "64 word"
  assumes "n < 2 ^ 64"
  shows "x = a + of_nat n \<longleftrightarrow> unat (x - a) = n"
proof
  assume "unat (x - a) = n"
  then have "of_nat n = x - a" by auto
  then show "x = a + of_nat n" by simp
qed (use assms in \<open>simp add: unat_of_nat64\<close>)

lemma word64_no_wrap_add:
  fixes a b :: "64 word"
  assumes "unat a + unat b < 2 ^ 64"
  shows "unat (a + b) = unat a + unat b"
  using assms by (simp add: unat_plus_if')


text \<open>A C \<open>int\<close> is the signed reading of a 32-bit word.\<close>

lemma sint32_cases:
  fixes w :: "32 word"
  shows "sint w = (if uint w < 2 ^ 31 then uint w else uint w - 2 ^ 32)"
proof -
  have b: "- (2 ^ 31) \<le> sint w" "sint w < 2 ^ 31" using sint_ge [of w] sint_lt [of w] by simp_all
  have u: "uint w = sint w mod 2 ^ 32" by (simp add: uint_sint take_bit_eq_mod)
  show ?thesis
  proof (cases "0 \<le> sint w")
    case True
    with b u show ?thesis by simp
  next
    case False
    then have "(sint w + 2 ^ 32) mod 2 ^ 32 = sint w + 2 ^ 32" using b by (intro mod_pos_pos_trivial) auto
    then have "uint w = sint w + 2 ^ 32" using u by simp
    with b False show ?thesis by simp
  qed
qed


section \<open>Physical memory\<close>

text \<open>
  The kernel runs with a direct map, so a physical address is also the pointer the kernel
  uses. Memory is a total function from addresses to bytes. A range of \<open>n\<close> bytes at \<open>a\<close>
  is the set of \<open>x\<close> with \<open>unat (x - a) < n\<close>, which is right also where it wraps.
\<close>

type_synonym memory = "uint64 \<Rightarrow> uint8"

definition in_range :: "uint64 \<Rightarrow> nat \<Rightarrow> uint64 \<Rightarrow> bool" where
  "in_range a n x \<longleftrightarrow> unat (x - a) < n"

definition load_bytes :: "memory \<Rightarrow> uint64 \<Rightarrow> nat \<Rightarrow> uint8 list" where
  "load_bytes m a n = map (\<lambda>i. m (a + of_nat i)) [0..<n]"

definition store_bytes :: "memory \<Rightarrow> uint64 \<Rightarrow> uint8 list \<Rightarrow> memory" where
  "store_bytes m a bs =
     (\<lambda>x. if unat (x - a) < length bs then bs ! unat (x - a) else m x)"

definition fill_bytes :: "memory \<Rightarrow> uint64 \<Rightarrow> uint8 \<Rightarrow> nat \<Rightarrow> memory" where
  "fill_bytes m a c n = (\<lambda>x. if unat (x - a) < n then c else m x)"

definition copy_bytes :: "memory \<Rightarrow> uint64 \<Rightarrow> uint64 \<Rightarrow> nat \<Rightarrow> memory" where
  "copy_bytes m d s n = (\<lambda>x. if unat (x - d) < n then m (s + (x - d)) else m x)"

text \<open>A 64-bit load and store, little endian as on RISC-V.\<close>

definition byte_of :: "uint64 \<Rightarrow> nat \<Rightarrow> uint8" where
  "byte_of v i = ucast (drop_bit (8 * i) v)"

definition bytes64 :: "uint64 \<Rightarrow> uint8 list" where
  "bytes64 v = map (byte_of v) [0..<8]"

definition word64 :: "uint8 list \<Rightarrow> uint64" where
  "word64 bs = foldr (\<lambda>b w. ucast b OR push_bit 8 w) bs 0"

definition load64 :: "memory \<Rightarrow> uint64 \<Rightarrow> uint64" where
  "load64 m a = word64 (load_bytes m a 8)"

definition store64 :: "memory \<Rightarrow> uint64 \<Rightarrow> uint64 \<Rightarrow> memory" where
  "store64 m a v = store_bytes m a (bytes64 v)"

lemma length_bytes64 [simp]: "length (bytes64 v) = 8"
  by (simp add: bytes64_def)

lemma byte_split: "drop_bit (8 * i) v = ucast (byte_of v i) OR push_bit 8 (drop_bit (8 * Suc i) v)"
proof (rule bit_word_eqI)
  fix n assume "n < LENGTH(64)"
  moreover have "8 + 8 * i + (n - 8) = 8 * i + n" if "\<not> n < 8" using that by simp
  ultimately show "bit (drop_bit (8 * i) v) n =
      bit (ucast (byte_of v i) OR push_bit 8 (drop_bit (8 * Suc i) v)) n"
    by (cases "n < 8") (auto simp: byte_of_def bit_simps)
qed

lemma word64_bytes64 [simp]: "word64 (bytes64 v) = v"
proof -
  have "foldr (\<lambda>b w. ucast b OR push_bit 8 w) (map (byte_of v) [i..<8]) 0 = drop_bit (8 * i) v"
    if "i \<le> 8" for i
    using that
  proof (induction i rule: inc_induct)
    case base
    have "drop_bit 64 v = 0" by (rule bit_word_eqI) (simp add: bit_simps)
    then show ?case by simp
  next
    case (step i)
    then have "[i..<8] = i # [Suc i..<8]" by (simp add: upt_conv_Cons)
    then show ?case using step.IH byte_split [of i v] by simp
  qed
  from this [of 0] show ?thesis by (simp add: word64_def bytes64_def)
qed

lemma length_load_bytes [simp]: "length (load_bytes m a n) = n"
  by (simp add: load_bytes_def)

lemma nth_load_bytes [simp]: "i < n \<Longrightarrow> load_bytes m a n ! i = m (a + of_nat i)"
  by (simp add: load_bytes_def)

lemma load_bytes_cong:
  assumes "\<And>x. in_range a n x \<Longrightarrow> m x = m' x" "n \<le> 2 ^ 64"
  shows "load_bytes m a n = load_bytes m' a n"
proof -
  have "m (a + of_nat i) = m' (a + of_nat i)" if "i < n" for i
    using that assms by (auto simp: in_range_def unat_of_nat64)
  then show ?thesis by (simp add: load_bytes_def)
qed

lemma load_store_bytes [mem_simps]:
  assumes "length bs \<le> 2 ^ 64" "n = length bs"
  shows "load_bytes (store_bytes m a bs) a n = bs"
proof (rule nth_equalityI)
  fix i assume "i < length (load_bytes (store_bytes m a bs) a n)"
  then show "load_bytes (store_bytes m a bs) a n ! i = bs ! i"
    using assms by (simp add: store_bytes_def unat_of_nat64)
qed (simp add: assms)

lemma load64_cong:
  "(\<And>x. in_range a 8 x \<Longrightarrow> m x = m' x) \<Longrightarrow> load64 m a = load64 m' a"
  by (simp add: load64_def load_bytes_cong [of a 8 m m'])

lemma load64_store64 [simp, mem_simps]: "load64 (store64 m a v) a = v"
  by (simp add: load64_def store64_def load_store_bytes)

lemma store64_other: "\<not> in_range a 8 x \<Longrightarrow> store64 m a v x = m x"
  by (simp add: store64_def store_bytes_def in_range_def)

lemma load64_store64_other:
  assumes "\<And>x. in_range b 8 x \<Longrightarrow> \<not> in_range a 8 x"
  shows "load64 (store64 m a v) b = load64 m b"
  using assms by (intro load64_cong) (simp add: store64_other)

lemma load64_zero: "(\<And>x. in_range a 8 x \<Longrightarrow> m x = 0) \<Longrightarrow> load64 m a = 0"
proof -
  assume z: "\<And>x. in_range a 8 x \<Longrightarrow> m x = 0"
  have "load_bytes m a 8 = load_bytes (\<lambda>_. 0) a 8"
    by (rule load_bytes_cong) (simp_all add: z)
  also have "\<dots> = replicate 8 0" by (simp add: load_bytes_def map_replicate_const)
  finally show ?thesis by (simp add: load64_def word64_def numeral_eq_Suc)
qed

text \<open>Two aligned 64-bit cells are the same cell or do not overlap.\<close>

lemma range8_disjoint:
  fixes a b x :: uint64
  assumes "8 dvd unat a" "8 dvd unat b" "a \<noteq> b" "in_range b 8 x"
  shows "\<not> in_range a 8 x"
proof
  assume "in_range a 8 x"
  then obtain i where i: "i < 8" "x = a + of_nat i"
    by (auto simp: in_range_def elim: diff_of_nat_less)
  from assms(4) obtain j where j: "j < 8" "x = b + of_nat j"
    by (auto simp: in_range_def elim: diff_of_nat_less)
  have *: "unat (c + of_nat k) = unat c + k" if "8 dvd unat c" "k < 8" for c :: uint64 and k
  proof -
    have "unat c < 2 ^ 64" using unsigned_less [of c] by simp
    with that have "unat c + k < 2 ^ 64" by (auto elim!: dvdE)
    moreover have "unat (of_nat k :: uint64) = k" using that by (simp add: unat_of_nat64)
    ultimately show ?thesis by (simp add: word64_no_wrap_add)
  qed
  from i j have "unat (a + of_nat i) = unat (b + of_nat j)" by simp
  then have "unat a + i = unat b + j" using * [OF assms(1) i(1)] * [OF assms(2) j(1)] by simp
  moreover obtain p q where "unat a = 8 * p" "unat b = 8 * q" using assms(1,2) by (auto elim!: dvdE)
  ultimately have "unat a = unat b" using i(1) j(1) by presburger
  with assms(3) show False by (simp add: word_unat_eq_iff)
qed

lemma load64_store64_neq [mem_simps]:
  assumes "8 dvd unat a" "8 dvd unat b" "a \<noteq> b"
  shows "load64 (store64 m a v) b = load64 m b"
  by (rule load64_store64_other) (rule range8_disjoint [OF assms])

end
