(* ===== verification/Riscv.thy ===== *)
theory Riscv
  imports Prelude
begin

text \<open>
  The hardware constants and macros of \<open>kernel/riscv.h\<close>, \<open>kernel/memlayout.h\<close> and
  \<open>kernel/param.h\<close>: pages, Sv39 virtual addresses and page-table entries. The lemmas show
  that rounding gives page boundaries, that a page-table entry gives back the physical page
  and the flags it was made from, and that the three 9-bit indices of an address below
  \<open>MAXVA\<close> determine its page.
\<close>

section \<open>Definitions\<close>

definition NPROC :: nat where [layout_defs]: "NPROC = 64"
definition NCPU :: nat where [layout_defs]: "NCPU = 8"
definition NOFILE :: nat where [layout_defs]: "NOFILE = 16"
definition NFILE :: nat where [layout_defs]: "NFILE = 100"
definition NINODE :: nat where [layout_defs]: "NINODE = 50"
definition NDEV :: nat where [layout_defs]: "NDEV = 10"
definition ROOTDEV :: uint where [layout_defs]: "ROOTDEV = 1"
definition MAXARG :: nat where [layout_defs]: "MAXARG = 32"
definition MAXOPBLOCKS :: int where [layout_defs]: "MAXOPBLOCKS = 10"
definition LOGSIZE :: int where [layout_defs]: "LOGSIZE = 30"
definition NBUF :: nat where [layout_defs]: "NBUF = 30"
definition FSSIZE :: nat where [layout_defs]: "FSSIZE = 2000"
definition MAXPATH :: nat where [layout_defs]: "MAXPATH = 128"

definition PGSIZE :: uint64 where [layout_defs]: "PGSIZE = 4096"
definition PGSHIFT :: nat where [layout_defs]: "PGSHIFT = 12"
definition KERNBASE :: uint64 where [layout_defs]: "KERNBASE = 0x80000000"
definition PHYSTOP :: uint64 where [layout_defs]: "PHYSTOP = 0x88000000"
definition UART0 :: uint64 where [layout_defs]: "UART0 = 0x10000000"
definition VIRTIO0 :: uint64 where [layout_defs]: "VIRTIO0 = 0x10001000"
definition PLIC :: uint64 where [layout_defs]: "PLIC = 0x0c000000"
definition MAXVA :: uint64 where [layout_defs]: "MAXVA = 0x4000000000"
definition TRAMPOLINE :: uint64 where [layout_defs]: "TRAMPOLINE = 0x3ffffff000"
definition TRAPFRAME :: uint64 where [layout_defs]: "TRAPFRAME = 0x3fffffe000"

definition KSTACK :: "uint64 \<Rightarrow> uint64" where
  "KSTACK p = TRAMPOLINE - (p + 1) * 2 * PGSIZE"

definition PGROUNDUP :: "uint64 \<Rightarrow> uint64" where
  "PGROUNDUP sz = (sz + PGSIZE - 1) AND NOT (PGSIZE - 1)"

definition PGROUNDDOWN :: "uint64 \<Rightarrow> uint64" where
  "PGROUNDDOWN a = a AND NOT (PGSIZE - 1)"

definition PTE_V :: uint64 where [layout_defs]: "PTE_V = 1"
definition PTE_R :: uint64 where [layout_defs]: "PTE_R = 2"
definition PTE_W :: uint64 where [layout_defs]: "PTE_W = 4"
definition PTE_X :: uint64 where [layout_defs]: "PTE_X = 8"
definition PTE_U :: uint64 where [layout_defs]: "PTE_U = 16"
definition PTE_COW :: uint64 where [layout_defs]: "PTE_COW = 256"

definition PA2PTE :: "uint64 \<Rightarrow> uint64" where
  "PA2PTE pa = push_bit 10 (drop_bit 12 pa)"

definition PTE2PA :: "uint64 \<Rightarrow> uint64" where
  "PTE2PA pte = push_bit 12 (drop_bit 10 pte)"

definition PTE_FLAGS :: "uint64 \<Rightarrow> uint64" where
  "PTE_FLAGS pte = pte AND 0x3FF"

definition PX :: "nat \<Rightarrow> uint64 \<Rightarrow> uint64" where
  "PX level va = drop_bit (PGSHIFT + 9 * level) va AND 0x1FF"

definition MAKE_SATP :: "uint64 \<Rightarrow> uint64" where
  "MAKE_SATP pagetable = push_bit 60 8 OR drop_bit 12 pagetable"


section \<open>Pages\<close>

definition page_aligned :: "uint64 \<Rightarrow> bool" where
  "page_aligned a \<longleftrightarrow> a AND (PGSIZE - 1) = 0"

definition in_page :: "uint64 \<Rightarrow> uint64 \<Rightarrow> bool" where
  "in_page p x \<longleftrightarrow> PGROUNDDOWN x = p"

text \<open>The masks of the macros, bit by bit (\<open>bit_simps\<close> reads a word numeral at type \<open>int\<close>).\<close>

lemma bit_masks [simp]:
  "bit (4095 :: int) n \<longleftrightarrow> n < 12" "bit (1023 :: int) n \<longleftrightarrow> n < 10" "bit (511 :: int) n \<longleftrightarrow> n < 9"
proof -
  have "(4095 :: int) = mask 12" "(1023 :: int) = mask 10" "(511 :: int) = mask 9"
    by (simp_all add: mask_eq_exp_minus_1)
  then show "bit (4095 :: int) n \<longleftrightarrow> n < 12" "bit (1023 :: int) n \<longleftrightarrow> n < 10"
    "bit (511 :: int) n \<longleftrightarrow> n < 9"
    by (simp_all only: bit_mask_iff) auto
qed

lemma PGROUNDDOWN_alt: "PGROUNDDOWN a = push_bit 12 (drop_bit 12 a)"
  by (rule bit_word_eqI) (auto simp: PGROUNDDOWN_def PGSIZE_def bit_simps not_less)

lemma page_aligned_alt: "page_aligned a \<longleftrightarrow> PGROUNDDOWN a = a"
proof
  assume "page_aligned a"
  then have z: "\<not> bit (a AND 4095) n" for n by (simp add: page_aligned_def PGSIZE_def)
  have "bit a n \<Longrightarrow> \<not> n < 12" for n using z [of n] by (auto simp: bit_simps)
  then show "PGROUNDDOWN a = a"
    by (intro bit_word_eqI) (auto simp: PGROUNDDOWN_def PGSIZE_def bit_simps)
next
  assume "PGROUNDDOWN a = a"
  then have "page_aligned a \<longleftrightarrow> page_aligned (PGROUNDDOWN a)" by simp
  also have "page_aligned (PGROUNDDOWN a)"
    unfolding page_aligned_def PGROUNDDOWN_def PGSIZE_def
    by (rule bit_word_eqI) (auto simp: bit_simps)
  finally show "page_aligned a" .
qed

lemma PGROUNDDOWN_idem [simp]: "PGROUNDDOWN (PGROUNDDOWN a) = PGROUNDDOWN a"
  by (simp add: PGROUNDDOWN_def and.assoc)

lemma page_aligned_PGROUNDDOWN [simp]: "page_aligned (PGROUNDDOWN a)"
  by (simp add: page_aligned_alt)

lemma page_aligned_PGROUNDUP [simp]: "page_aligned (PGROUNDUP a)"
  using page_aligned_PGROUNDDOWN [of "a + PGSIZE - 1"]
  by (simp only: PGROUNDDOWN_def PGROUNDUP_def)

lemma unat_PGROUNDDOWN: "unat (PGROUNDDOWN a) = unat a div 4096 * 4096"
proof -
  have "PGROUNDDOWN a = a - take_bit 12 a"
    by (simp add: PGROUNDDOWN_alt minus_mod_eq_mult_div take_bit_eq_mod push_bit_eq_mult
        drop_bit_eq_div mult.commute)
  moreover have "take_bit 12 a \<le> a" by (simp add: word_le_nat_alt unsigned_take_bit_eq)
  moreover have "unat (take_bit 12 a) = unat a mod 4096"
    by (simp only: unsigned_take_bit_eq) (simp add: take_bit_eq_mod)
  ultimately show ?thesis by (simp add: unat_sub minus_mod_eq_div_mult)
qed

lemma page_aligned_unat: "page_aligned a \<longleftrightarrow> 4096 dvd unat a"
proof -
  have "page_aligned a \<longleftrightarrow> unat a div 4096 * 4096 = unat a"
    by (simp only: page_aligned_alt word_unat_eq_iff unat_PGROUNDDOWN)
  then show ?thesis by (metis dvd_div_mult_self dvd_triv_right)
qed

lemma PGROUNDDOWN_le: "PGROUNDDOWN a \<le> a"
  by (simp add: word_le_nat_alt unat_PGROUNDDOWN)

lemma unat_PGROUNDUP:
  assumes "unat a + 4095 < 2 ^ 64"
  shows "unat (PGROUNDUP a) = (unat a + 4095) div 4096 * 4096"
proof -
  have "PGROUNDUP a = PGROUNDDOWN (a + 4095)"
    by (simp add: PGROUNDUP_def PGROUNDDOWN_def PGSIZE_def add.commute)
  moreover have "unat (a + 4095) = unat a + 4095"
    using assms by (simp add: unat_plus_if')
  ultimately show ?thesis by (simp add: unat_PGROUNDDOWN)
qed

lemma page_offset: "unat (a - PGROUNDDOWN a) = unat a mod 4096"
  by (simp add: unat_sub PGROUNDDOWN_le unat_PGROUNDDOWN minus_div_mult_eq_mod)

lemma page_offset_less: "unat (a - PGROUNDDOWN a) < 4096"
  by (simp add: page_offset)

lemma in_page_range:
  assumes "page_aligned p"
  shows "in_page p x \<longleftrightarrow> in_range p 4096 x"
proof
  assume "in_page p x"
  then show "in_range p 4096 x"
    using page_offset_less [of x] by (simp add: in_page_def in_range_def)
next
  assume "in_range p 4096 x"
  then obtain i where i: "i < 4096" "x = p + of_nat i"
    by (auto simp: in_range_def elim: diff_of_nat_less)
  obtain k where k: "unat p = 4096 * k" using assms by (auto simp: page_aligned_unat)
  have "unat p < 2 ^ 64" using unsigned_less [of p] by simp
  with k i(1) have "unat x = 4096 * k + i"
    by (simp add: i(2) unat_of_nat64 word64_no_wrap_add)
  then have "unat (PGROUNDDOWN x) = unat p" using i(1) k by (simp add: unat_PGROUNDDOWN)
  then show "in_page p x" by (simp add: in_page_def word_unat_eq_iff)
qed

lemma in_page_self: "page_aligned p \<Longrightarrow> in_page p p"
  by (simp add: in_page_def page_aligned_alt)

lemma in_page_inj: "in_page p x \<Longrightarrow> in_page q x \<Longrightarrow> p = q"
  by (simp add: in_page_def)

text \<open>Consecutive pages stay aligned.\<close>

lemma page_aligned_add: "page_aligned a \<Longrightarrow> page_aligned b \<Longrightarrow> page_aligned (a + b)"
  by (auto simp: page_aligned_unat unat_plus_if' elim!: dvdE intro: dvd_diff_nat)

lemma page_aligned_4096 [simp]: "page_aligned 4096"
  by (simp add: page_aligned_def PGSIZE_def)

lemma page_aligned_consts [simp]:
  "page_aligned 0" "page_aligned PGSIZE" "page_aligned TRAMPOLINE" "page_aligned TRAPFRAME"
  "page_aligned PHYSTOP"
  by (simp_all add: page_aligned_def layout_defs)


section \<open>Page-table entries\<close>

lemma bit_PA2PTE: "bit (PA2PTE pa) n \<longleftrightarrow> 10 \<le> n \<and> n < 64 \<and> bit pa (n + 2)"
  by (cases "10 \<le> n") (auto simp: PA2PTE_def bit_simps)

lemma bit_PTE2PA: "bit (PTE2PA pte) n \<longleftrightarrow> 12 \<le> n \<and> n < 64 \<and> bit pte (n - 2)"
  by (cases "12 \<le> n") (auto simp: PTE2PA_def bit_simps)

definition flag_bits :: "uint64 \<Rightarrow> bool" where
  "flag_bits f \<longleftrightarrow> f AND 0x3FF = f"

lemma flag_bits_bit: "flag_bits f \<Longrightarrow> bit f n \<Longrightarrow> n < 10"
proof -
  assume "flag_bits f" "bit f n"
  then have "bit (f AND 0x3FF) n" by (simp add: flag_bits_def)
  then show "n < 10" by (simp add: bit_simps)
qed

lemma flag_bits_or [simp]: "flag_bits f \<Longrightarrow> flag_bits g \<Longrightarrow> flag_bits (f OR g)"
  by (simp add: flag_bits_def bit.conj_disj_distrib2)

lemma flag_bits_and [simp]: "flag_bits f \<Longrightarrow> flag_bits (f AND g)"
  by (metis (no_types, lifting) and.assoc and.commute flag_bits_def)

lemma flag_bits_consts [simp]:
  "flag_bits PTE_V" "flag_bits PTE_R" "flag_bits PTE_W" "flag_bits PTE_X" "flag_bits PTE_U"
  "flag_bits PTE_COW" "flag_bits 0" "flag_bits (PTE_FLAGS pte)"
  by (simp_all add: flag_bits_def layout_defs PTE_FLAGS_def and.assoc)

lemma PTE2PA_PA2PTE:
  assumes "flag_bits f"
  shows "PTE2PA (PA2PTE pa OR f) = PGROUNDDOWN pa"
proof (rule bit_word_eqI)
  fix n assume "n < LENGTH(64)"
  moreover have "\<not> bit f (n - 2) \<and> Suc (Suc (n - 2)) = n" if "12 \<le> n"
    using flag_bits_bit [OF assms, of "n - 2"] that by auto
  ultimately show "bit (PTE2PA (PA2PTE pa OR f)) n = bit (PGROUNDDOWN pa) n"
    by (auto simp: bit_PTE2PA bit_or_iff bit_PA2PTE PGROUNDDOWN_def PGSIZE_def bit_simps)
qed

lemma PTE_FLAGS_PA2PTE:
  assumes "flag_bits f"
  shows "PTE_FLAGS (PA2PTE pa OR f) = f"
proof (rule bit_word_eqI)
  fix n assume "n < LENGTH(64)"
  then show "bit (PTE_FLAGS (PA2PTE pa OR f)) n = bit f n"
    using flag_bits_bit [OF assms, of n]
    by (auto simp: PTE_FLAGS_def bit_and_iff bit_or_iff bit_PA2PTE)
qed

lemma page_aligned_PTE2PA [simp]: "page_aligned (PTE2PA pte)"
  unfolding page_aligned_def PGSIZE_def
  by (rule bit_word_eqI) (auto simp: bit_simps bit_PTE2PA)

lemma pte_rebuild: "PA2PTE (PTE2PA pte) OR PTE_FLAGS pte = pte AND (mask 62)"
proof (rule bit_word_eqI)
  fix n assume "n < LENGTH(64)"
  then show "bit (PA2PTE (PTE2PA pte) OR PTE_FLAGS pte) n = bit (pte AND mask 62) n"
    by (cases "n < 10") (auto simp: bit_or_iff bit_and_iff bit_PA2PTE bit_PTE2PA PTE_FLAGS_def
        bit_mask_iff)
qed

text \<open>Flag tests on an entry built by \<open>PA2PTE(pa) | flags\<close> only see the flags.\<close>

lemma PA2PTE_flag_test:
  assumes "flag_bits f" "flag_bits g"
  shows "(PA2PTE pa OR f) AND g = f AND g"
proof (rule bit_word_eqI)
  fix n assume "n < LENGTH(64)"
  then show "bit ((PA2PTE pa OR f) AND g) n = bit (f AND g) n"
    using flag_bits_bit [OF assms(2), of n]
    by (auto simp: bit_and_iff bit_or_iff bit_PA2PTE)
qed


section \<open>Virtual addresses\<close>

lemma PX_less: "unat (PX l va) < 512"
proof -
  have "PX l va \<le> 0x1FF" unfolding PX_def by (rule word_and_le1)
  then show ?thesis by (simp add: word_le_nat_alt)
qed

lemma bit_PX: "bit (PX l va) n \<longleftrightarrow> n < 9 \<and> bit va (12 + 9 * l + n)"
  by (auto simp: PX_def PGSHIFT_def bit_simps)

text \<open>
  Two addresses below \<open>MAXVA\<close> with the same three indices are on the same page: this is
  why one leaf entry serves one page.
\<close>

lemma PX_same_page:
  assumes "va < MAXVA" "vb < MAXVA" "PX 2 va = PX 2 vb" "PX 1 va = PX 1 vb" "PX 0 va = PX 0 vb"
  shows "PGROUNDDOWN va = PGROUNDDOWN vb"
proof (rule bit_word_eqI)
  have small: "\<not> bit v n" if "v < MAXVA" "39 \<le> n" for v :: uint64 and n
  proof -
    have "unat v < 2 ^ 39" using that(1) by (simp add: MAXVA_def word_less_nat_alt)
    then have "unat (take_bit 39 v) = unat v"
      by (simp only: unsigned_take_bit_eq) (simp add: take_bit_eq_mod)
    then have "v = take_bit 39 v" by (simp add: word_unat_eq_iff)
    then have "bit v n = bit (take_bit 39 v) n" by simp
    with that(2) show ?thesis by (simp add: bit_take_bit_iff)
  qed
  fix n assume "n < LENGTH(64)"
  have "bit va n = bit vb n" if "12 \<le> n"
  proof -
    consider "n < 21" | "21 \<le> n" "n < 30" | "30 \<le> n" "n < 39" | "39 \<le> n" by linarith
    then show ?thesis
    proof cases
      case 1
      then show ?thesis using bit_PX [of 0 va "n - 12"] bit_PX [of 0 vb "n - 12"] assms(5) that by auto
    next
      case 2
      then show ?thesis using bit_PX [of 1 va "n - 21"] bit_PX [of 1 vb "n - 21"] assms(4) by auto
    next
      case 3
      then show ?thesis using bit_PX [of 2 va "n - 30"] bit_PX [of 2 vb "n - 30"] assms(3) by auto
    next
      case 4
      with small assms(1,2) show ?thesis by blast
    qed
  qed
  then show "bit (PGROUNDDOWN va) n = bit (PGROUNDDOWN vb) n"
    by (auto simp: PGROUNDDOWN_def PGSIZE_def bit_simps)
qed

lemma PX_PGROUNDDOWN [simp]: "PX l (PGROUNDDOWN va) = PX l va"
  by (rule bit_word_eqI)
    (auto simp: bit_PX PGROUNDDOWN_def PGSIZE_def bit_simps dest: bit_imp_le_length)

end
