(* ===== verification/Cstring.thy ===== *)
theory Cstring
  imports Riscv
begin

text \<open>
  The functions of \<open>kernel/string.c\<close>. The block functions (\<open>memset\<close>, \<open>memmove\<close>,
  \<open>memcmp\<close>) work on physical memory, one byte per iteration as in the source; the lemmas
  show that the loops compute the closed forms \<open>fill_bytes\<close> and \<open>copy_bytes\<close> of the
  prelude, for \<open>memmove\<close> also where source and destination overlap. The string functions
  take the bytes that follow a pointer as a list; reading past the end of the list is
  \<open>OutOfBounds\<close>.
\<close>

section \<open>Definitions\<close>

primrec memset :: "memory \<Rightarrow> uint64 \<Rightarrow> uint8 \<Rightarrow> nat \<Rightarrow> memory" where
  "memset m dst c 0 = m"
| "memset m dst c (Suc n) = (memset m dst c n)(dst + of_nat n := c)"

primrec memcmp :: "memory \<Rightarrow> uint64 \<Rightarrow> uint64 \<Rightarrow> nat \<Rightarrow> int" where
  "memcmp m s1 s2 0 = 0"
| "memcmp m s1 s2 (Suc n) =
     (if m s1 \<noteq> m s2 then uint (m s1) - uint (m s2) else memcmp m (s1 + 1) (s2 + 1) n)"

fun memmove_up :: "memory \<Rightarrow> uint64 \<Rightarrow> uint64 \<Rightarrow> nat \<Rightarrow> memory" where
  "memmove_up m d s 0 = m"
| "memmove_up m d s (Suc n) = memmove_up (m(d := m s)) (d + 1) (s + 1) n"

fun memmove_down :: "memory \<Rightarrow> uint64 \<Rightarrow> uint64 \<Rightarrow> nat \<Rightarrow> memory" where
  "memmove_down m d s 0 = m"
| "memmove_down m d s (Suc n) = memmove_down (m(d - 1 := m (s - 1))) (d - 1) (s - 1) n"

definition memmove :: "memory \<Rightarrow> uint64 \<Rightarrow> uint64 \<Rightarrow> nat \<Rightarrow> memory" where
  "memmove m dst src n =
     (if n = 0 then m
      else if src < dst \<and> src + of_nat n > dst
      then memmove_down m (dst + of_nat n) (src + of_nat n) n
      else memmove_up m dst src n)"

fun strncmp :: "uint8 list \<Rightarrow> uint8 list \<Rightarrow> nat \<Rightarrow> int res" where
  "strncmp p q 0 = Inr 0"
| "strncmp (p # ps) (q # qs) (Suc n) =
     (if p \<noteq> 0 \<and> p = q then strncmp ps qs n else Inr (uint p - uint q))"
| "strncmp ps qs (Suc n) = Inl OutOfBounds"

text \<open>The bytes that \<open>strncpy(s, t, n)\<close> writes at \<open>s\<close>.\<close>

fun strncpy :: "uint8 list \<Rightarrow> nat \<Rightarrow> uint8 list res" where
  "strncpy t 0 = Inr []"
| "strncpy (c # t) (Suc n) =
     (if c = 0 then Inr (0 # replicate n 0)
      else bind_res (strncpy t n) (\<lambda>bs. Inr (c # bs)))"
| "strncpy [] (Suc n) = Inl OutOfBounds"

text \<open>
  The bytes that \<open>safestrcpy(s, t, n)\<close> writes at \<open>s\<close>: the loop runs while \<open>--n > 0\<close>
  and stops after a NUL, and \<open>*s = 0\<close> writes one more byte.
\<close>

fun safestrcpy_loop :: "uint8 list \<Rightarrow> nat \<Rightarrow> uint8 list res" where
  "safestrcpy_loop t 0 = Inr [0]"
| "safestrcpy_loop (c # t) (Suc n) =
     (if c = 0 then Inr [0, 0]
      else bind_res (safestrcpy_loop t n) (\<lambda>bs. Inr (c # bs)))"
| "safestrcpy_loop [] (Suc n) = Inl OutOfBounds"

definition safestrcpy :: "uint8 list \<Rightarrow> nat \<Rightarrow> uint8 list res" where
  "safestrcpy t n = (if n = 0 then Inr [] else safestrcpy_loop t (n - 1))"

fun strlen :: "uint8 list \<Rightarrow> nat res" where
  "strlen [] = Inl OutOfBounds"
| "strlen (c # s) = (if c = 0 then Inr 0 else bind_res (strlen s) (\<lambda>n. Inr (Suc n)))"


section \<open>The block functions\<close>

lemma memset_fill:
  assumes "n \<le> 2 ^ 64"
  shows "memset m dst c n = fill_bytes m dst c n"
  using assms
proof (induction n)
  case 0
  then show ?case by (simp add: fill_bytes_def)
next
  case (Suc n)
  then have "x = dst + of_nat n \<longleftrightarrow> unat (x - dst) = n" for x
    by (simp add: eq_add_of_nat_iff)
  with Suc show ?case by (auto simp: fill_bytes_def fun_upd_def less_Suc_eq)
qed

lemma memcmp_eq_0:
  "memcmp m s1 s2 n = 0 \<longleftrightarrow> load_bytes m s1 n = load_bytes m s2 n"
proof (induction n arbitrary: s1 s2)
  case 0
  then show ?case by (simp add: load_bytes_def)
next
  case (Suc n)
  have step: "load_bytes m a (Suc n) = m a # load_bytes m (a + 1) n" for a
    by (simp add: load_bytes_def map_upt_Suc ac_simps del: upt_Suc)
  have "m s1 \<noteq> m s2 \<Longrightarrow> uint (m s1) - uint (m s2) \<noteq> 0" by (simp add: word_uint_eq_iff)
  with Suc show ?case by (simp add: step)
qed

lemma memmove_up_copy:
  assumes "unat d + n < 2 ^ 64" "unat s + n < 2 ^ 64" "d \<le> s \<or> unat s + n \<le> unat d"
  shows "memmove_up m d s n = copy_bytes m d s n"
  using assms
proof (induction m d s n rule: memmove_up.induct)
  case (1 m d s)
  then show ?case by (simp add: copy_bytes_def)
next
  case (2 m d s n)
  let ?m = "m(d := m s)"
  have d1: "unat (d + 1) = unat d + 1" and s1: "unat (s + 1) = unat s + 1"
    using "2.prems"(1,2) by (simp_all add: unat_plus_if')
  have "memmove_up ?m (d + 1) (s + 1) n = copy_bytes ?m (d + 1) (s + 1) n"
    using "2.prems" by (intro "2.IH") (auto simp: d1 s1 word_le_nat_alt)
  moreover have "copy_bytes ?m (d + 1) (s + 1) n = copy_bytes m d s (Suc n)"
  proof
    fix x
    show "copy_bytes ?m (d + 1) (s + 1) n x = copy_bytes m d s (Suc n) x"
    proof (cases "unat (x - d) < Suc n")
      case False
      then have xd: "x \<noteq> d" by auto
      then have "x - d \<noteq> 0" by simp
      then have "unat (x - (d + 1)) = unat (x - d) - 1"
        by (metis add.commute diff_diff_eq2 diff_diff_add unat_minus_one)
      with False xd have "\<not> unat (x - (d + 1)) < n" by simp
      with False xd show ?thesis by (simp add: copy_bytes_def)
    next
      case True
      then obtain i where i: "i < Suc n" "x = d + of_nat i" by (auto elim: diff_of_nat_less)
      show ?thesis
      proof (cases i)
        case 0
        have "unat (d - (d + 1)) = 2 ^ 64 - 1" by (simp add: unsigned_minus_1_eq_mask mask_eq_exp_minus_1)
        with 0 i "2.prems"(1) show ?thesis by (simp add: copy_bytes_def)
      next
        case (Suc j)
        with i have "unat (x - (d + 1)) = j" "x - (d + 1) = of_nat j" "x - d = 1 + of_nat j"
          using "2.prems"(1) by (simp_all add: unat_of_nat64)
        moreover have "s + 1 + of_nat j \<noteq> d"
        proof
          assume "s + 1 + of_nat j = d"
          moreover have "unat (s + 1 + of_nat j) = unat s + 1 + j"
            using i Suc "2.prems"(2) by (simp add: s1 unat_of_nat64 word64_no_wrap_add)
          ultimately have "unat d = unat s + 1 + j" by simp
          with "2.prems"(3) i Suc show False by (auto simp: word_le_nat_alt)
        qed
        ultimately show ?thesis using i Suc True by (simp add: copy_bytes_def add.assoc)
      qed
    qed
  qed
  ultimately show ?case by simp
qed

lemma memmove_down_copy:
  assumes "unat d + n < 2 ^ 64" "unat s + n < 2 ^ 64" "s \<le> d"
  shows "memmove_down m (d + of_nat n) (s + of_nat n) n = copy_bytes m d s n"
  using assms(1,2)
proof (induction n arbitrary: m)
  case 0
  then show ?case by (simp add: copy_bytes_def)
next
  case (Suc n)
  let ?m = "m(d + of_nat n := m (s + of_nat n))"
  have "memmove_down ?m (d + of_nat n) (s + of_nat n) n = copy_bytes ?m d s n"
    using Suc by simp
  moreover have "copy_bytes ?m d s n = copy_bytes m d s (Suc n)"
  proof
    fix x
    have eq: "x = d + of_nat n \<longleftrightarrow> unat (x - d) = n"
      using Suc.prems by (simp add: eq_add_of_nat_iff)
    have ne: "s + of_nat i \<noteq> d + of_nat n" if "i < n" for i
    proof
      assume "s + of_nat i = d + of_nat n"
      moreover have "unat (s + of_nat i) = unat s + i" "unat (d + of_nat n) = unat d + n"
        using that Suc.prems by (simp_all add: unat_of_nat64 word64_no_wrap_add)
      ultimately have "unat s + i = unat d + n" by simp
      with that assms(3) show False by (simp add: word_le_nat_alt)
    qed
    have "s + (x - d) \<noteq> d + of_nat n" if "unat (x - d) < n"
      using ne [OF that] by simp
    with eq show "copy_bytes ?m d s n x = copy_bytes m d s (Suc n) x"
      by (auto simp: copy_bytes_def less_Suc_eq)
  qed
  ultimately show ?case by (simp add: diff_add_eq add.assoc [symmetric])
qed

lemma memmove_copy_bytes:
  assumes "unat dst + n < 2 ^ 64" "unat src + n < 2 ^ 64"
  shows "memmove m dst src n = copy_bytes m dst src n"
proof (cases "src < dst \<and> src + of_nat n > dst")
  case True
  then show ?thesis
    using assms by (auto simp: memmove_def memmove_down_copy copy_bytes_def)
next
  case False
  have "unat (src + of_nat n) = unat src + n"
    using assms(2) by (simp add: unat_of_nat64 word64_no_wrap_add)
  with False have "dst \<le> src \<or> unat src + n \<le> unat dst"
    by (auto simp: word_less_nat_alt word_le_nat_alt)
  with False assms show ?thesis
    by (auto simp: memmove_def memmove_up_copy copy_bytes_def)
qed


section \<open>The string functions\<close>

text \<open>The C string at a pointer: the bytes up to the NUL.\<close>

definition cstr :: "uint8 list \<Rightarrow> uint8 list" where
  "cstr s = takeWhile (\<lambda>c. c \<noteq> 0) s"

lemma cstr_simps [simp]: "cstr [] = []" "cstr (c # s) = (if c = 0 then [] else c # cstr s)"
  by (simp_all add: cstr_def)

lemma strlen_cstr: "0 \<in> set s \<Longrightarrow> strlen s = Inr (length (cstr s))"
  by (induction s) auto

lemma strlen_unterminated: "0 \<notin> set s \<Longrightarrow> strlen s = Inl OutOfBounds"
  by (induction s) auto

lemma strncmp_zero_iff:
  assumes "0 \<in> set p \<or> n \<le> length p" "0 \<in> set q \<or> n \<le> length q"
  shows "strncmp p q n = Inr 0 \<longleftrightarrow> take n (cstr p) = take n (cstr q)"
  using assms by (induction p q n rule: strncmp.induct) (auto simp: word_uint_eq_iff)

lemma strncpy_value:
  assumes "0 \<in> set t \<or> n \<le> length t"
  shows "strncpy t n = Inr (take n (cstr t) @ replicate (n - length (cstr t)) 0)"
  using assms by (induction t n rule: strncpy.induct) auto

lemma safestrcpy_value:
  assumes "0 \<in> set t" "0 < n"
  shows "\<exists>bs. safestrcpy t n = Inr bs \<and> length bs \<le> n \<and> 0 \<in> set bs \<and>
           cstr bs = take (n - 1) (cstr t)"
proof -
  have "\<exists>bs. safestrcpy_loop t k = Inr bs \<and> length bs \<le> Suc k \<and> 0 \<in> set bs \<and>
          cstr bs = take k (cstr t)" for k
    using assms(1)
  proof (induction t k rule: safestrcpy_loop.induct)
    case (2 c t k)
    show ?case
    proof (cases "c = 0")
      case True
      then show ?thesis by simp
    next
      case False
      with "2" obtain bs where "safestrcpy_loop t k = Inr bs" "length bs \<le> Suc k" "0 \<in> set bs"
        "cstr bs = take k (cstr t)" by auto
      with False show ?thesis by auto
    qed
  qed auto
  from this [of "n - 1"] assms(2) show ?thesis by (simp add: safestrcpy_def)
qed

end
