(* ===== verification/Kalloc.thy ===== *)
theory Kalloc
  imports Cstring Printf
begin

text \<open>
  The physical page allocator of \<open>kernel/kalloc.c\<close> with its copy-on-write reference counts.
  The state is the physical memory, \<open>kmem.freelist\<close>, the array \<open>nump_using\<close> and the
  characters printed on the console. The free list is threaded through the free pages
  themselves (\<open>struct run\<close>), so it lives in memory; \<open>free_list\<close> reads it as a list.
  The critical sections of the two spin locks are atomic here.

  The invariant \<open>kinv\<close> says that the list is a repetition-free chain of pages between
  \<open>end\<close> and \<open>PHYSTOP\<close>, and that a page is on it exactly when its count is 0. The
  interface \<open>page_alloc\<close> states what the allocator promises; it is interpreted on
  \<open>kalloc\<close> and \<open>kfree\<close>, and the virtual-memory theory rests on it.
\<close>

section \<open>Definitions\<close>

record kmem =
  mem :: memory
  freelist :: uint64
  nump_using :: "int \<Rightarrow> int"
  console :: "string"

definition NPAGES :: int where
  "NPAGES = uint (PGROUNDUP PHYSTOP div PGSIZE)"

text \<open>\<open>int idx = (uint64)pa/PGSIZE\<close>: the quotient converted to a 32-bit \<open>int\<close>.\<close>

definition page_idx :: "uint64 \<Rightarrow> int" where
  "page_idx pa = sint (ucast (pa div PGSIZE) :: 32 word)"

definition in_array :: "int \<Rightarrow> bool" where
  "in_array idx \<longleftrightarrow> 0 \<le> idx \<and> idx < NPAGES"

definition kprint :: "string \<Rightarrow> 'z kmem_scheme \<Rightarrow> 'z kmem_scheme" where
  "kprint msg s = s\<lparr>console := console s @ msg\<rparr>"

definition kfree :: "'z kmem_scheme \<Rightarrow> uint64 \<Rightarrow> 'z kmem_scheme res" where
  "kfree s pa =
     (let idx = page_idx pa in
      if \<not> in_array idx then Inl OutOfBounds
      else
        let n = nump_using s idx - 1;
            s = s\<lparr>nump_using := (nump_using s)(idx := n)\<rparr>;
            s = (if n < 0 then kprint ''kfree: nump_using < 0'' s else s)
        in if n \<ge> 1 then Inr s
           else
             let m = memset (mem s) pa 1 4096;
                 m = store64 m pa (freelist s)
             in Inr (s\<lparr>mem := m, freelist := pa\<rparr>))"

definition kalloc :: "'z kmem_scheme \<Rightarrow> (uint64 \<times> 'z kmem_scheme) res" where
  "kalloc s =
     (let r = freelist s in
      if r = 0 then Inr (0, s)
      else
        let s = s\<lparr>freelist := load64 (mem s) r\<rparr>;
            s = s\<lparr>mem := memset (mem s) r 5 4096\<rparr>;
            idx = page_idx r
        in if \<not> in_array idx then Inl OutOfBounds
           else
             let n = nump_using s idx + 1;
                 s = s\<lparr>nump_using := (nump_using s)(idx := n)\<rparr>;
                 s = (if n < 1 then kprint ''kalloc: nump_using < 1'' s else s)
             in Inr (r, s))"

text \<open>
  \<open>freerange\<close>: the loop stops when \<open>p + PGSIZE\<close> passes \<open>pa_end\<close>; a pointer that would
  wrap past the end of the address space is undefined in C.
\<close>

fun freerange_loop :: "nat \<Rightarrow> 'z kmem_scheme \<Rightarrow> uint64 \<Rightarrow> uint64 \<Rightarrow> 'z kmem_scheme res" where
  "freerange_loop fuel s p pa_end =
     (if p + PGSIZE \<le> pa_end then
        (case fuel of
           0 \<Rightarrow> Inl OutOfFuel
         | Suc fuel' \<Rightarrow> bind_res (kfree s p) (\<lambda>s. freerange_loop fuel' s (p + PGSIZE) pa_end))
      else Inr s)"

definition freerange :: "'z kmem_scheme \<Rightarrow> uint64 \<Rightarrow> uint64 \<Rightarrow> 'z kmem_scheme res" where
  "freerange s pa_start pa_end =
     (let p = PGROUNDUP pa_start
      in freerange_loop (unat ((pa_end - p) div PGSIZE)) s p pa_end)"

text \<open>\<open>kend\<close> is the linker symbol \<open>end\<close>, the first address after the kernel.\<close>

definition kinit :: "uint64 \<Rightarrow> 'z kmem_scheme \<Rightarrow> 'z kmem_scheme res" where
  "kinit kend s =
     (let s = s\<lparr>nump_using := (\<lambda>i. if in_array i then 1 else nump_using s i)\<rparr>
      in freerange s kend PHYSTOP)"

declare freerange_loop.simps [simp del]


section \<open>The free list and the invariant\<close>

primrec free_list :: "memory \<Rightarrow> uint64 \<Rightarrow> uint64 list \<Rightarrow> bool" where
  "free_list m r [] \<longleftrightarrow> r = 0"
| "free_list m r (p # ps) \<longleftrightarrow> r = p \<and> p \<noteq> 0 \<and> free_list m (load64 m p) ps"

definition page_ok :: "uint64 \<Rightarrow> uint64 \<Rightarrow> bool" where
  "page_ok kend p \<longleftrightarrow> page_aligned p \<and> KERNBASE \<le> kend \<and> kend \<le> p \<and> p < PHYSTOP"

definition refs :: "'z kmem_scheme \<Rightarrow> uint64 \<Rightarrow> int" where
  "refs s p = nump_using s (page_idx p)"

definition kinv :: "uint64 \<Rightarrow> uint64 list \<Rightarrow> 'z kmem_scheme \<Rightarrow> bool" where
  "kinv kend fl s \<longleftrightarrow>
     free_list (mem s) (freelist s) fl \<and> distinct fl \<and>
     (\<forall>p \<in> set fl. page_ok kend p \<and> refs s p = 0) \<and>
     (\<forall>p. page_ok kend p \<and> p \<notin> set fl \<longrightarrow> 1 \<le> refs s p)"

text \<open>Two memories that differ in one page only.\<close>

definition agree_off :: "uint64 \<Rightarrow> memory \<Rightarrow> memory \<Rightarrow> bool" where
  "agree_off p m m' \<longleftrightarrow> (\<forall>x. \<not> in_page p x \<longrightarrow> m' x = m x)"

lemma agree_off_refl [simp]: "agree_off p m m"
  by (simp add: agree_off_def)

lemma agree_off_trans: "agree_off p m m' \<Longrightarrow> agree_off p m' m'' \<Longrightarrow> agree_off p m m''"
  by (simp add: agree_off_def)

lemma agree_off_fill: "page_aligned p \<Longrightarrow> agree_off p m (fill_bytes m p c 4096)"
  by (simp add: agree_off_def in_page_range in_range_def fill_bytes_def)

lemma range8_page:
  assumes "8 dvd unat a" "in_range a 8 x"
  shows "PGROUNDDOWN x = PGROUNDDOWN a"
proof -
  obtain i where i: "i < 8" "x = a + of_nat i"
    using assms(2) by (auto simp: in_range_def elim: diff_of_nat_less)
  obtain k where k: "unat a = 8 * k" using assms(1) by auto
  have "unat a < 2 ^ 64" using unsigned_less [of a] by simp
  with k i(1) have x: "unat x = 8 * k + i"
    by (simp add: i(2) unat_of_nat64 word64_no_wrap_add)
  have "(8 * k + i) div (8 * 512) = 8 * k div (8 * 512)"
    using i(1) by (simp only: div_mult2_eq) simp
  then show ?thesis by (simp add: word_unat_eq_iff unat_PGROUNDDOWN x k)
qed

lemma agree_off_store64:
  assumes "8 dvd unat a" "PGROUNDDOWN a = p"
  shows "agree_off p m (store64 m a v)"
  unfolding agree_off_def
proof (intro allI impI)
  fix x assume "\<not> in_page p x"
  then have "\<not> in_range a 8 x" using range8_page [OF assms(1), of x] assms(2) by (auto simp: in_page_def)
  then show "store64 m a v x = m x" by (rule store64_other)
qed

lemma load64_agree_off:
  assumes "agree_off p m m'" "8 dvd unat a" "PGROUNDDOWN a \<noteq> p"
  shows "load64 m' a = load64 m a"
  using assms range8_page [OF assms(2)]
  by (intro load64_cong) (auto simp: agree_off_def in_page_def)

lemma page_aligned_dvd8: "page_aligned p \<Longrightarrow> 8 dvd unat p"
  by (auto simp: page_aligned_unat elim!: dvdE)

lemma page_ok_aligned [dest]: "page_ok kend p \<Longrightarrow> page_aligned p"
  by (simp add: page_ok_def)

lemma page_ok_nonzero: "page_ok kend p \<Longrightarrow> p \<noteq> 0"
  by (auto simp: page_ok_def layout_defs)

lemma free_list_frame:
  assumes "agree_off p m m'" "p \<notin> set ps" "\<forall>q \<in> set ps. page_aligned q"
  shows "free_list m' r ps = free_list m r ps"
  using assms(2,3)
proof (induction ps arbitrary: r)
  case (Cons q ps)
  then have "load64 m' q = load64 m q"
    by (intro load64_agree_off [OF assms(1)]) (auto simp: page_aligned_dvd8 page_aligned_alt)
  with Cons show ?case by auto
qed simp

lemma free_list_unique: "free_list m r ps \<Longrightarrow> free_list m r qs \<Longrightarrow> ps = qs"
proof (induction ps arbitrary: r qs)
  case (Cons p ps)
  then show ?case by (cases qs) auto
next
  case Nil
  then show ?case by (cases qs) auto
qed

text \<open>The index of a page below \<open>PHYSTOP\<close> is its page number: in the array and injective.\<close>

lemma page_idx_val:
  assumes "p < PHYSTOP"
  shows "page_idx p = int (unat p div 4096)" "in_array (page_idx p)"
proof -
  have p: "unat p < 0x88000000" using assms by (simp add: PHYSTOP_def word_less_nat_alt)
  let ?q = "p div PGSIZE"
  have q: "unat ?q = unat p div 4096" by (simp add: PGSIZE_def unat_div)
  then have "unat ?q < 2 ^ 31" using p by simp
  then have "int (unat ?q) < int (2 ^ 31)" by (simp only: of_nat_less_iff)
  then have "uint ?q < 2 ^ 31" by simp
  then have "uint (ucast ?q :: 32 word) = int (unat ?q)"
    by (simp add: unsigned_ucast_eq take_bit_eq_mod)
  then show idx: "page_idx p = int (unat p div 4096)"
    using \<open>unat ?q < 2 ^ 31\<close> q by (simp add: page_idx_def sint32_cases)
  show "in_array (page_idx p)"
    using p by (simp add: idx in_array_def NPAGES_def layout_defs PGROUNDUP_def)
qed

lemma page_idx_inj:
  assumes "page_ok kend p" "page_ok kend q" "page_idx p = page_idx q"
  shows "p = q"
proof -
  have "unat p div 4096 * 4096 = unat q div 4096 * 4096"
    using assms page_idx_val [of p] page_idx_val [of q] by (auto simp: page_ok_def)
  then show ?thesis
    using assms(1,2) by (auto simp: page_ok_def page_aligned_unat word_unat_eq_iff)
qed



section \<open>The operations\<close>

lemma kalloc_empty: "kinv kend [] s \<Longrightarrow> kalloc s = Inr (0, s)"
  by (simp add: kinv_def kalloc_def)

lemma kalloc_cons:
  assumes "kinv kend (p # fl) s"
  shows "\<exists>s'. kalloc s = Inr (p, s') \<and> kinv kend fl s' \<and> refs s' p = 1 \<and>
    (\<forall>q. page_ok kend q \<and> q \<noteq> p \<longrightarrow> refs s' q = refs s q) \<and>
    agree_off p (mem s) (mem s') \<and> (\<forall>x. in_page p x \<longrightarrow> mem s' x = 5) \<and>
    s' = s\<lparr>mem := mem s', freelist := freelist s', nump_using := nump_using s'\<rparr>"
proof -
  from assms have ok: "page_ok kend p" "freelist s = p" "p \<noteq> 0" "refs s p = 0" "p \<notin> set fl"
    and fl: "free_list (mem s) (load64 (mem s) p) fl" "distinct fl"
      "\<forall>q \<in> set fl. page_ok kend q \<and> refs s q = 0"
    by (auto simp: kinv_def)
  have idx: "in_array (page_idx p)" using ok(1) by (simp add: page_ok_def page_idx_val(2))
  have al: "page_aligned p" using ok(1) by auto
  define m where "m = fill_bytes (mem s) p 5 4096"
  define s' where "s' = s\<lparr>mem := m, freelist := load64 (mem s) p,
    nump_using := (nump_using s)(page_idx p := 1)\<rparr>"
  have run: "kalloc s = Inr (p, s')"
    using ok(2,3,4) idx by (simp add: kalloc_def Let_def memset_fill s'_def m_def refs_def)
  have ag: "agree_off p (mem s) m" using al by (simp add: m_def agree_off_fill)
  have other: "refs s' q = refs s q" if "page_ok kend q" "q \<noteq> p" for q
    using that page_idx_inj [OF that(1) ok(1)] by (auto simp: refs_def s'_def)
  have "free_list m (load64 (mem s) p) fl"
    using fl free_list_frame [OF ag ok(5)] by auto
  moreover have "1 \<le> refs s' q" if "page_ok kend q" "q \<notin> set fl" for q
    using that assms other [OF that(1)] by (cases "q = p") (auto simp: kinv_def s'_def refs_def)
  moreover have "refs s' q = 0" if "q \<in> set fl" for q
    using that fl(3) ok(5) other [of q] by auto
  ultimately have inv: "kinv kend fl s'"
    using fl(2,3) by (simp add: kinv_def) (simp add: s'_def)
  have "mem s' x = 5" if "in_page p x" for x
    using that al by (simp add: s'_def m_def fill_bytes_def in_page_range in_range_def)
  moreover have "refs s' p = 1" "agree_off p (mem s) (mem s')"
    "s' = s\<lparr>mem := mem s', freelist := freelist s', nump_using := nump_using s'\<rparr>"
    using ag by (simp_all add: s'_def refs_def)
  ultimately show ?thesis using run inv other by blast
qed

lemma kfree_shared:
  assumes "kinv kend fl s" "page_ok kend p" "2 \<le> refs s p"
  shows "\<exists>s'. kfree s p = Inr s' \<and> kinv kend fl s' \<and> refs s' p = refs s p - 1 \<and>
    (\<forall>q. page_ok kend q \<and> q \<noteq> p \<longrightarrow> refs s' q = refs s q) \<and> mem s' = mem s \<and>
    s' = s\<lparr>nump_using := nump_using s'\<rparr>"
proof -
  define s' where "s' = s\<lparr>nump_using := (nump_using s)(page_idx p := refs s p - 1)\<rparr>"
  have "in_array (page_idx p)" using assms(2) by (simp add: page_ok_def page_idx_val(2))
  then have run: "kfree s p = Inr s'"
    using assms(3) by (simp add: kfree_def Let_def s'_def refs_def)
  have other: "refs s' q = refs s q" if "page_ok kend q" "q \<noteq> p" for q
    using that page_idx_inj [OF that(1) assms(2)] by (auto simp: refs_def s'_def)
  have self: "refs s' p = refs s p - 1" by (simp add: refs_def s'_def)
  have fl: "p \<notin> set fl" "\<forall>q \<in> set fl. page_ok kend q \<and> refs s q = 0"
    "free_list (mem s) (freelist s) fl" "distinct fl"
    using assms by (auto simp: kinv_def)
  have "1 \<le> refs s' q" if "page_ok kend q" "q \<notin> set fl" for q
    using that assms other [OF that(1)] self by (cases "q = p") (auto simp: kinv_def)
  moreover have "refs s' q = 0" if "q \<in> set fl" for q
    using that fl(1,2) other [of q] by auto
  ultimately have "kinv kend fl s'"
    using fl by (simp add: kinv_def) (simp add: s'_def)
  with run other self show ?thesis by (auto simp: s'_def)
qed

lemma kfree_last:
  assumes "kinv kend fl s" "page_ok kend p" "refs s p = 1"
  shows "\<exists>s'. kfree s p = Inr s' \<and> kinv kend (p # fl) s' \<and> refs s' p = 0 \<and>
    (\<forall>q. page_ok kend q \<and> q \<noteq> p \<longrightarrow> refs s' q = refs s q) \<and>
    agree_off p (mem s) (mem s') \<and>
    s' = s\<lparr>mem := mem s', freelist := freelist s', nump_using := nump_using s'\<rparr>"
proof -
  have al: "page_aligned p" using assms(2) by auto
  define m where "m = store64 (fill_bytes (mem s) p 1 4096) p (freelist s)"
  define s' where
    "s' = s\<lparr>mem := m, freelist := p, nump_using := (nump_using s)(page_idx p := 0)\<rparr>"
  have "in_array (page_idx p)" using assms(2) by (simp add: page_ok_def page_idx_val(2))
  then have run: "kfree s p = Inr s'"
    using assms(3) by (simp add: kfree_def Let_def s'_def refs_def memset_fill m_def)
  have other: "refs s' q = refs s q" if "page_ok kend q" "q \<noteq> p" for q
    using that page_idx_inj [OF that(1) assms(2)] by (auto simp: refs_def s'_def)
  have self: "refs s' p = 0" by (simp add: refs_def s'_def)
  have fl: "p \<notin> set fl" "\<forall>q \<in> set fl. page_ok kend q \<and> refs s q = 0"
    "free_list (mem s) (freelist s) fl" "distinct fl"
    using assms by (auto simp: kinv_def)
  have ag: "agree_off p (mem s) m"
    unfolding m_def using al
    by (intro agree_off_trans [OF agree_off_fill agree_off_store64])
      (auto simp: page_aligned_dvd8 page_aligned_alt)
  have "free_list m (freelist s) fl" using fl free_list_frame [OF ag fl(1)] by auto
  moreover have "load64 m p = freelist s" by (simp add: m_def)
  moreover have "1 \<le> refs s' q" if "page_ok kend q" "q \<notin> set (p # fl)" for q
    using that assms other [OF that(1)] by (auto simp: kinv_def)
  moreover have "refs s' q = 0" if "q \<in> set (p # fl)" for q
    using that fl(2) other [of q] self by (cases "q = p") auto
  ultimately have "kinv kend (p # fl) s'"
    using fl assms(2) page_ok_nonzero [OF assms(2)] by (simp add: kinv_def) (simp add: s'_def)
  with run other self ag show ?thesis by (auto simp: s'_def)
qed


section \<open>The interface\<close>

text \<open>
  What a client of the page allocator relies on: \<open>inv fl s\<close> relates the state to the list
  of free pages, \<open>count\<close> gives the number of users of a page, \<open>ok\<close> is the set of pages it
  manages.
\<close>

locale page_alloc =
  fixes inv :: "uint64 list \<Rightarrow> 's \<Rightarrow> bool"
    and alloc :: "'s \<Rightarrow> (uint64 \<times> 's) res"
    and free :: "'s \<Rightarrow> uint64 \<Rightarrow> 's res"
    and count :: "'s \<Rightarrow> uint64 \<Rightarrow> int"
    and bytes :: "'s \<Rightarrow> memory"
    and ok :: "uint64 \<Rightarrow> bool"
  assumes inv_free: "inv fl s \<Longrightarrow> p \<in> set fl \<Longrightarrow> ok p \<and> count s p = 0"
    and inv_distinct: "inv fl s \<Longrightarrow> distinct fl"
    and inv_used: "inv fl s \<Longrightarrow> ok p \<Longrightarrow> p \<notin> set fl \<Longrightarrow> 1 \<le> count s p"
    and ok_page: "ok p \<Longrightarrow> page_aligned p \<and> p \<noteq> 0"
    and alloc_none: "inv [] s \<Longrightarrow> alloc s = Inr (0, s)"
    and alloc_some: "inv (p # fl) s \<Longrightarrow>
      \<exists>s'. alloc s = Inr (p, s') \<and> inv fl s' \<and> count s' p = 1 \<and>
        (\<forall>q. ok q \<and> q \<noteq> p \<longrightarrow> count s' q = count s q) \<and> agree_off p (bytes s) (bytes s')"
    and free_one: "inv fl s \<Longrightarrow> ok p \<Longrightarrow> count s p = 1 \<Longrightarrow>
      \<exists>s'. free s p = Inr s' \<and> inv (p # fl) s' \<and> count s' p = 0 \<and>
        (\<forall>q. ok q \<and> q \<noteq> p \<longrightarrow> count s' q = count s q) \<and> agree_off p (bytes s) (bytes s')"
    and free_many: "inv fl s \<Longrightarrow> ok p \<Longrightarrow> 2 \<le> count s p \<Longrightarrow>
      \<exists>s'. free s p = Inr s' \<and> inv fl s' \<and> count s' p = count s p - 1 \<and>
        (\<forall>q. ok q \<and> q \<noteq> p \<longrightarrow> count s' q = count s q) \<and> bytes s' = bytes s"
begin

lemma alloc_total:
  assumes "inv fl s"
  shows "\<exists>p s'. alloc s = Inr (p, s') \<and> (p = 0 \<longleftrightarrow> fl = [])"
proof (cases fl)
  case Nil
  with assms alloc_none [of s] show ?thesis by auto
next
  case (Cons p fl')
  with assms have "inv (p # fl') s" by simp
  then obtain s' where "alloc s = Inr (p, s')" using alloc_some by blast
  moreover have "p \<noteq> 0" using inv_free [OF assms] ok_page Cons by auto
  ultimately show ?thesis using Cons by auto
qed

lemma alloc_fresh:
  assumes "inv fl s" "alloc s = Inr (p, s')" "p \<noteq> 0"
  shows "ok p \<and> count s p = 0 \<and> count s' p = 1 \<and> (\<exists>fl'. fl = p # fl' \<and> inv fl' s') \<and>
    (\<forall>q. ok q \<and> q \<noteq> p \<longrightarrow> count s' q = count s q) \<and> agree_off p (bytes s) (bytes s')"
proof (cases fl)
  case Nil
  with assms alloc_none [of s] show ?thesis by auto
next
  case (Cons r fl')
  with assms(1) have "inv (r # fl') s" by simp
  from alloc_some [OF this] assms(2) have "r = p" by auto
  with alloc_some [of r fl' s] assms Cons inv_free [OF assms(1), of p] show ?thesis by auto
qed

lemma alloc_out_of_memory:
  assumes "inv fl s" "alloc s = Inr (0, s')"
  shows "fl = [] \<and> s' = s"
  using assms alloc_total [OF assms(1)] alloc_none [of s] by auto

lemma alloc_distinct:
  assumes "inv fl s" "alloc s = Inr (p, s')" "p \<noteq> 0" "alloc s' = Inr (q, s'')" "q \<noteq> 0"
  shows "p \<noteq> q"
proof -
  obtain fl' where fl': "fl = p # fl'" "inv fl' s'" using alloc_fresh [OF assms(1-3)] by auto
  obtain fl'' where "fl' = q # fl''" using alloc_fresh [OF fl'(2) assms(4,5)] by auto
  with fl' inv_distinct [OF assms(1)] show ?thesis by auto
qed

lemma free_used:
  assumes "inv fl s" "ok p" "p \<notin> set fl"
  shows "\<exists>s'. free s p = Inr s' \<and> inv (if count s p = 1 then p # fl else fl) s' \<and>
    count s' p = count s p - 1 \<and> (\<forall>q. ok q \<and> q \<noteq> p \<longrightarrow> count s' q = count s q) \<and>
    agree_off p (bytes s) (bytes s')"
proof (cases "count s p = 1")
  case True
  with free_one [OF assms(1,2)] show ?thesis by auto
next
  case False
  with inv_used [OF assms] have "2 \<le> count s p" by simp
  from free_many [OF assms(1,2) this] False show ?thesis by auto
qed

lemma alloc_free_inverse:
  assumes "inv fl s" "alloc s = Inr (p, s')" "p \<noteq> 0"
  shows "\<exists>s''. free s' p = Inr s'' \<and> inv fl s'' \<and> (\<forall>q. ok q \<longrightarrow> count s'' q = count s q)"
proof -
  from alloc_fresh [OF assms] obtain fl' where
    a: "ok p" "count s p = 0" "count s' p = 1" "fl = p # fl'" "inv fl' s'"
      "\<forall>q. ok q \<and> q \<noteq> p \<longrightarrow> count s' q = count s q" by auto
  from free_one [OF a(5,1,3)] a show ?thesis by metis
qed

end

interpretation ka: page_alloc "kinv kend" kalloc kfree refs mem "page_ok kend" for kend
proof (unfold_locales, goal_cases)
  case 5
  then show ?case by (rule kalloc_empty)
next
  case (6 p fl s)
  then show ?case using kalloc_cons [of kend p fl s] by blast
next
  case (7 fl s p)
  then show ?case using kfree_last [of kend fl s p] by blast
next
  case (8 fl s p)
  then show ?case using kfree_shared [of kend fl s p] by blast
qed (auto simp: kinv_def dest: page_ok_nonzero)


section \<open>Initialisation\<close>

lemma PHYSTOP_unat: "unat PHYSTOP = 0x88000000"
  by (simp add: PHYSTOP_def)

lemma freerange_loop_free:
  assumes "kinv kend fl s" "page_aligned p" "KERNBASE \<le> kend" "kend \<le> p" "p \<le> PHYSTOP"
    and "\<forall>q. page_ok kend q \<and> p \<le> q \<longrightarrow> refs s q = 1"
    and "(0x88000000 - unat p) div 4096 \<le> fuel"
  shows "\<exists>s' fl'. freerange_loop fuel s p PHYSTOP = Inr s' \<and> kinv kend fl' s' \<and>
    set fl' = set fl \<union> {q. page_ok kend q \<and> p \<le> q}"
  using assms
proof (induction fuel arbitrary: s p fl)
  case (0 s p fl)
  have p: "unat p \<le> 0x88000000" "4096 dvd unat p"
    using "0.prems"(2,5) by (simp_all add: PHYSTOP_unat word_le_nat_alt page_aligned_unat)
  then have "unat p = 0x88000000" using "0.prems"(7) by (auto elim!: dvdE)
  then have p: "p = PHYSTOP" by (simp add: word_unat_eq_iff PHYSTOP_unat)
  then have "{q. page_ok kend q \<and> p \<le> q} = {}" by (auto simp: page_ok_def)
  with "0.prems"(1) p show ?case by (auto simp: freerange_loop.simps layout_defs)
next
  case (Suc fuel s p fl)
  have p: "unat p \<le> 0x88000000" "4096 dvd unat p"
    using Suc.prems(2,5) by (simp_all add: PHYSTOP_unat word_le_nat_alt page_aligned_unat)
  show ?case
  proof (cases "p = PHYSTOP")
    case True
    then have "{q. page_ok kend q \<and> p \<le> q} = {}" by (auto simp: page_ok_def)
    with Suc.prems(1) True show ?thesis by (auto simp: freerange_loop.simps layout_defs)
  next
    case False
    then have "unat p < 0x88000000" using p(1) by (simp add: word_unat_eq_iff PHYSTOP_unat)
    with p(2) have lt: "unat p + 4096 \<le> 0x88000000" by (auto elim!: dvdE)
    then have p1: "unat (p + PGSIZE) = unat p + 4096"
      by (simp add: PGSIZE_def unat_plus_if')
    have ok: "page_ok kend p"
      using Suc.prems False by (auto simp: page_ok_def order_less_le)
    with Suc.prems(6) have "refs s p = 1" by auto
    from kfree_last [OF Suc.prems(1) ok this] obtain s1 where
      s1: "kfree s p = Inr s1" "kinv kend (p # fl) s1"
        "\<forall>q. page_ok kend q \<and> q \<noteq> p \<longrightarrow> refs s1 q = refs s q" by blast
    have below: "p \<le> q \<and> q \<noteq> p" if "p + PGSIZE \<le> q" for q
      using that p1 by (auto simp: word_le_nat_alt)
    have above: "p + PGSIZE \<le> q" if "page_ok kend q" "p \<le> q" "q \<noteq> p" for q
    proof -
      have "4096 dvd unat q" using that(1) by (auto simp: page_ok_def page_aligned_unat)
      moreover have "unat p < unat q" using that(2,3) by (simp add: word_le_nat_alt word_unat_eq_iff)
      ultimately have "unat p + 4096 \<le> unat q" using p(2) by (auto elim!: dvdE)
      then show ?thesis by (simp add: word_le_nat_alt p1)
    qed
    have "\<exists>s' fl'. freerange_loop fuel s1 (p + PGSIZE) PHYSTOP = Inr s' \<and> kinv kend fl' s' \<and>
      set fl' = set (p # fl) \<union> {q. page_ok kend q \<and> p + PGSIZE \<le> q}"
    proof (rule Suc.IH [OF s1(2)])
      show "page_aligned (p + PGSIZE)" using Suc.prems(2) by (simp add: page_aligned_add)
      show "kend \<le> p + PGSIZE" using Suc.prems(4) p1 by (simp add: word_le_nat_alt)
      show "p + PGSIZE \<le> PHYSTOP" using lt p1 by (simp add: word_le_nat_alt PHYSTOP_unat)
      show "\<forall>q. page_ok kend q \<and> p + PGSIZE \<le> q \<longrightarrow> refs s1 q = 1"
        using Suc.prems(6) s1(3) below by auto
      have "(0x88000000 - unat p) div 4096 = Suc ((0x88000000 - unat p - 4096) div 4096)"
        using lt by (simp add: le_div_geq)
      with Suc.prems(7) show "(0x88000000 - unat (p + PGSIZE)) div 4096 \<le> fuel"
        by (simp add: p1)
    qed (rule Suc.prems)
    moreover have "freerange_loop (Suc fuel) s p PHYSTOP = freerange_loop fuel s1 (p + PGSIZE) PHYSTOP"
      using lt p1 s1(1) by (simp add: freerange_loop.simps [of "Suc fuel"] word_le_nat_alt PHYSTOP_unat)
    moreover have "{q. page_ok kend q \<and> p \<le> q} = insert p {q. page_ok kend q \<and> p + PGSIZE \<le> q}"
      using ok above below by auto
    ultimately show ?thesis by auto
  qed
qed

lemma kinit_ok:
  assumes "KERNBASE \<le> kend" "kend \<le> PHYSTOP" "freelist s = 0"
  shows "\<exists>s' fl. kinit kend s = Inr s' \<and> kinv kend fl s' \<and> set fl = {p. page_ok kend p}"
proof -
  define s0 where "s0 = s\<lparr>nump_using := (\<lambda>i. if in_array i then 1 else nump_using s i)\<rparr>"
  have one: "refs s0 p = 1" if "page_ok kend p" for p
    using that by (simp add: refs_def s0_def page_ok_def page_idx_val(2))
  then have inv: "kinv kend [] s0" using assms(3) by (simp add: kinv_def) (simp add: s0_def)
  have k: "unat kend \<le> 0x88000000" using assms(2) by (simp add: word_le_nat_alt PHYSTOP_unat)
  let ?p = "PGROUNDUP kend"
  have p: "unat ?p = (unat kend + 4095) div 4096 * 4096" using k by (simp add: unat_PGROUNDUP)
  have "(unat kend + 4095) div 4096 \<le> (0x88000000 + 4095) div 4096"
    using k by (intro div_le_mono) simp
  then have hi: "unat ?p \<le> 0x88000000" using p by simp
  have lo: "unat kend \<le> unat ?p" using p by linarith
  have fuel: "unat ((PHYSTOP - ?p) div PGSIZE) = (0x88000000 - unat ?p) div 4096"
    using hi by (simp add: unat_div unat_sub word_le_nat_alt PHYSTOP_unat PGSIZE_def)
  have "\<exists>s' fl'. freerange_loop (unat ((PHYSTOP - ?p) div PGSIZE)) s0 ?p PHYSTOP = Inr s' \<and>
    kinv kend fl' s' \<and> set fl' = set [] \<union> {q. page_ok kend q \<and> ?p \<le> q}"
    using assms(1) hi lo one
    by (intro freerange_loop_free [OF inv]) (simp_all add: fuel word_le_nat_alt PHYSTOP_unat)
  moreover have "?p \<le> q" if "page_ok kend q" for q
  proof -
    have "4096 dvd unat q" "unat kend \<le> unat q"
      using that by (simp_all add: page_ok_def page_aligned_unat word_le_nat_alt)
    then have "unat ?p \<le> unat q" unfolding p by (auto elim!: dvdE)
    then show ?thesis by (simp add: word_le_nat_alt)
  qed
  then have "{q. page_ok kend q \<and> ?p \<le> q} = {q. page_ok kend q}" by auto
  ultimately show ?thesis by (simp add: kinit_def freerange_def Let_def flip: s0_def)
qed

text \<open>C19: \<open>kinit\<close> returns, and afterwards the free list holds every page between \<open>end\<close> and
  \<open>PHYSTOP\<close>, each once and with reference count 0.\<close>

theorem kinit_frees_all:
  assumes "KERNBASE \<le> kend" "kend \<le> PHYSTOP" "freelist s = 0"
  shows "\<exists>s' fl. kinit kend s = Inr s' \<and> kinv kend fl s' \<and> set fl = {p. page_ok kend p}"
  by (rule kinit_ok [OF assms])

theorem kinit_frees_all_witness:
  "\<exists>s' fl. kinit 0x87fff000 \<lparr>mem = \<lambda>_. 0, freelist = 0, nump_using = \<lambda>_. 0, console = []\<rparr> = Inr s' \<and>
     kinv 0x87fff000 fl s' \<and> set fl = {p. page_ok 0x87fff000 p}"
  by (rule kinit_frees_all) (simp_all add: layout_defs)

text \<open>A small machine state: one free page, at the top of memory, below it the kernel.\<close>

definition one_page :: kmem where
  "one_page = \<lparr>mem = \<lambda>_. 0, freelist = 0x87fff000, nump_using = (\<lambda>_. 1)(0x87fff := 0), console = []\<rparr>"

lemma page_ok_top: "page_ok 0x87fff000 p \<longleftrightarrow> p = 0x87fff000"
proof
  assume "page_ok 0x87fff000 p"
  then have "4096 dvd unat p" "0x87fff000 \<le> unat p" "unat p < 0x88000000"
    by (simp_all add: page_ok_def page_aligned_unat word_le_nat_alt word_less_nat_alt PHYSTOP_unat)
  then have "unat p = 0x87fff000" by (auto elim!: dvdE)
  then show "p = 0x87fff000" by (simp add: word_unat_eq_iff)
qed (simp add: page_ok_def page_aligned_def layout_defs)

lemma load64_zero_mem [simp]: "load64 (\<lambda>_. 0) a = 0"
  by (simp add: load64_zero)

lemma one_page_kinv: "kinv 0x87fff000 [0x87fff000] one_page"
  by (simp add: kinv_def page_ok_top) (simp add: one_page_def refs_def page_idx_def layout_defs)

text \<open>C20: a page that \<open>kalloc\<close> returns was free, is now counted once and is no longer on the
  free list; it is filled with the byte 5; no other byte of memory and no other count
  changes.\<close>

theorem kalloc_fresh_page:
  assumes "kinv kend fl s" "kalloc s = Inr (p, s')" "p \<noteq> 0"
  shows "page_ok kend p \<and> refs s p = 0 \<and> refs s' p = 1 \<and> (\<exists>fl'. fl = p # fl' \<and> kinv kend fl' s') \<and>
    (\<forall>q. page_ok kend q \<and> q \<noteq> p \<longrightarrow> refs s' q = refs s q) \<and>
    (\<forall>x. mem s' x = (if in_page p x then 5 else mem s x))"
proof -
  from ka.alloc_fresh [OF assms] obtain fl' where fl': "fl = p # fl'" by auto
  with assms(1) have "kinv kend (p # fl') s" by simp
  from kalloc_cons [OF this] assms(2) have "\<forall>x. in_page p x \<longrightarrow> mem s' x = 5" by auto
  with ka.alloc_fresh [OF assms] show ?thesis by (auto simp: agree_off_def)
qed

theorem kalloc_fresh_page_witness:
  "\<exists>s'. kalloc one_page = Inr (0x87fff000, s') \<and> refs s' 0x87fff000 = 1 \<and> mem s' 0x87fff123 = 5 \<and>
    mem s' 0x80000000 = 0"
proof -
  obtain p s' where r: "kalloc one_page = Inr (p, s')" "p \<noteq> 0"
    using ka.alloc_total [OF one_page_kinv] by auto
  note f = kalloc_fresh_page [OF one_page_kinv r]
  have "p = 0x87fff000" using f by (simp add: page_ok_top)
  with r f show ?thesis by (auto simp: in_page_def PGROUNDDOWN_def PGSIZE_def one_page_def)
qed

text \<open>C21: \<open>kfree\<close> of a page in use drops one reference and always returns. The page goes back
  on the free list exactly when that was the last reference; a page that is still shared
  keeps every byte, and no other page is touched.\<close>

theorem kfree_drops_reference:
  assumes "kinv kend fl s" "page_ok kend p" "p \<notin> set fl"
  shows "\<exists>s'. kfree s p = Inr s' \<and> refs s' p = refs s p - 1 \<and>
    (if refs s p = 1 then kinv kend (p # fl) s' else kinv kend fl s' \<and> mem s' = mem s) \<and>
    (\<forall>q. page_ok kend q \<and> q \<noteq> p \<longrightarrow> refs s' q = refs s q) \<and>
    (\<forall>x. \<not> in_page p x \<longrightarrow> mem s' x = mem s x)"
proof (cases "refs s p = 1")
  case True
  with ka.free_one [OF assms(1,2)] show ?thesis by (auto simp: agree_off_def)
next
  case False
  with ka.inv_used [OF assms] have "2 \<le> refs s p" by simp
  from kfree_shared [OF assms(1,2) this] False show ?thesis by auto
qed

definition shared_page :: kmem where
  "shared_page = \<lparr>mem = \<lambda>_. 7, freelist = 0, nump_using = \<lambda>_. 2, console = []\<rparr>"

theorem kfree_drops_reference_witness:
  "\<exists>s'. kfree shared_page 0x87fff000 = Inr s' \<and> refs s' 0x87fff000 = 1 \<and> mem s' 0x87fff000 = 7"
proof -
  have "kinv 0x87fff000 [] shared_page" by (simp add: kinv_def shared_page_def refs_def)
  from kfree_drops_reference [OF this, of "0x87fff000"] show ?thesis
    by (auto simp: page_ok_top shared_page_def refs_def)
qed

end
