(* ===== verification/Vm.thy ===== *)
theory Vm
  imports Kalloc
begin

text \<open>
  Virtual memory, \<open>kernel/vm.c\<close>: the three-level Sv39 page tables in physical memory, the
  user address spaces and the copy-on-write pages. Every function is given as in the
  source, panics included. Kernel-side buffers of the copy functions are byte lists: the
  source buffer of \<open>copyout\<close>, and the bytes written to the destination buffer by
  \<open>copyin\<close> and \<open>copyinstr\<close>.
\<close>

section \<open>Definitions\<close>

primrec walk_levels :: "nat \<Rightarrow> 'z kmem_scheme \<Rightarrow> uint64 \<Rightarrow> uint64 \<Rightarrow> bool \<Rightarrow> (uint64 \<times> 'z kmem_scheme) res" where
  "walk_levels 0 s pagetable va alloc = Inr (pagetable + 8 * PX 0 va, s)"
| "walk_levels (Suc l) s pagetable va alloc =
     (let pte = pagetable + 8 * PX (Suc l) va;
          e = load64 (mem s) pte
      in if e AND PTE_V \<noteq> 0 then walk_levels l s (PTE2PA e) va alloc
         else if \<not> alloc then Inr (0, s)
         else bind_res (kalloc s) (\<lambda>(pg, s).
           if pg = 0 then Inr (0, s)
           else
             let s = s\<lparr>mem := memset (mem s) pg 0 4096\<rparr>;
                 s = s\<lparr>mem := store64 (mem s) pte (PA2PTE pg OR PTE_V)\<rparr>
             in walk_levels l s pg va alloc))"

definition walk :: "'z kmem_scheme \<Rightarrow> uint64 \<Rightarrow> uint64 \<Rightarrow> bool \<Rightarrow> (uint64 \<times> 'z kmem_scheme) res" where
  "walk s pagetable va alloc =
     (if va \<ge> MAXVA then Inl (Panic ''walk'') else walk_levels 2 s pagetable va alloc)"

definition walkaddr :: "'z kmem_scheme \<Rightarrow> uint64 \<Rightarrow> uint64 \<Rightarrow> uint64 res" where
  "walkaddr s pagetable va =
     (if va \<ge> MAXVA then Inr 0
      else bind_res (walk s pagetable va False) (\<lambda>(pte, s).
        if pte = 0 then Inr 0
        else
          let e = load64 (mem s) pte
          in if e AND PTE_V = 0 then Inr 0
             else if e AND PTE_U = 0 then Inr 0
             else Inr (PTE2PA e)))"

primrec mappages_loop :: "nat \<Rightarrow> 'z kmem_scheme \<Rightarrow> uint64 \<Rightarrow> uint64 \<Rightarrow> uint64 \<Rightarrow> uint64 \<Rightarrow> uint64 \<Rightarrow>
    (int \<times> 'z kmem_scheme) res" where
  "mappages_loop 0 s pagetable a last_a pa perm = Inl OutOfFuel"
| "mappages_loop (Suc fuel) s pagetable a last_a pa perm =
     bind_res (walk s pagetable a True) (\<lambda>(pte, s).
       if pte = 0 then Inr (-1, s)
       else if load64 (mem s) pte AND PTE_V \<noteq> 0 then Inl (Panic ''mappages: remap'')
       else
         let s = s\<lparr>mem := store64 (mem s) pte (PA2PTE pa OR perm OR PTE_V)\<rparr>
         in if a = last_a then Inr (0, s)
            else mappages_loop fuel s pagetable (a + PGSIZE) last_a (pa + PGSIZE) perm)"

definition mappages :: "'z kmem_scheme \<Rightarrow> uint64 \<Rightarrow> uint64 \<Rightarrow> uint64 \<Rightarrow> uint64 \<Rightarrow> uint64 \<Rightarrow>
    (int \<times> 'z kmem_scheme) res" where
  "mappages s pagetable va size_b pa perm =
     (if size_b = 0 then Inl (Panic ''mappages: size'')
      else
        let a = PGROUNDDOWN va;
            last_a = PGROUNDDOWN (va + size_b - 1)
        in mappages_loop (Suc (unat ((last_a - a) div PGSIZE))) s pagetable a last_a pa perm)"

definition kvmmap :: "'z kmem_scheme \<Rightarrow> uint64 \<Rightarrow> uint64 \<Rightarrow> uint64 \<Rightarrow> uint64 \<Rightarrow> uint64 \<Rightarrow>
    'z kmem_scheme res" where
  "kvmmap s kpgtbl va pa sz perm =
     bind_res (mappages s kpgtbl va sz pa perm) (\<lambda>(r, s).
       if r \<noteq> 0 then Inl (Panic ''kvmmap'') else Inr s)"

primrec uvmunmap_loop :: "nat \<Rightarrow> 'z kmem_scheme \<Rightarrow> uint64 \<Rightarrow> uint64 \<Rightarrow> uint64 \<Rightarrow> bool \<Rightarrow>
    'z kmem_scheme res" where
  "uvmunmap_loop 0 s pagetable a bound do_free = Inl OutOfFuel"
| "uvmunmap_loop (Suc fuel) s pagetable a bound do_free =
     (if a < bound then
        bind_res (walk s pagetable a False) (\<lambda>(pte, s).
          if pte = 0 then Inl (Panic ''uvmunmap: walk'')
          else
            let e = load64 (mem s) pte
            in if e AND PTE_V = 0 then Inl (Panic ''uvmunmap: not mapped'')
               else if PTE_FLAGS e = PTE_V then Inl (Panic ''uvmunmap: not a leaf'')
               else bind_res (if do_free then kfree s (PTE2PA e) else Inr s) (\<lambda>s.
                 let s = s\<lparr>mem := store64 (mem s) pte 0\<rparr>
                 in uvmunmap_loop fuel s pagetable (a + PGSIZE) bound do_free))
      else Inr s)"

definition uvmunmap :: "'z kmem_scheme \<Rightarrow> uint64 \<Rightarrow> uint64 \<Rightarrow> uint64 \<Rightarrow> bool \<Rightarrow> 'z kmem_scheme res" where
  "uvmunmap s pagetable va npages do_free =
     (if va mod PGSIZE \<noteq> 0 then Inl (Panic ''uvmunmap: not aligned'')
      else uvmunmap_loop (Suc (unat npages)) s pagetable va (va + npages * PGSIZE) do_free)"

definition uvmcreate :: "'z kmem_scheme \<Rightarrow> (uint64 \<times> 'z kmem_scheme) res" where
  "uvmcreate s =
     bind_res (kalloc s) (\<lambda>(pagetable, s).
       if pagetable = 0 then Inr (0, s)
       else Inr (pagetable, s\<lparr>mem := memset (mem s) pagetable 0 4096\<rparr>))"

text \<open>\<open>uvmfirst\<close> does not check \<open>kalloc\<close>; the null page would be cleared.\<close>

definition uvmfirst :: "'z kmem_scheme \<Rightarrow> uint64 \<Rightarrow> uint8 list \<Rightarrow> 'z kmem_scheme res" where
  "uvmfirst s pagetable src =
     (if length src \<ge> 4096 then Inl (Panic ''uvmfirst: more than a page'')
      else bind_res (kalloc s) (\<lambda>(pg, s).
        if pg = 0 then Inl NullDeref
        else
          let s = s\<lparr>mem := memset (mem s) pg 0 4096\<rparr>
          in bind_res (mappages s pagetable 0 PGSIZE pg (PTE_W OR PTE_R OR PTE_X OR PTE_U)) (\<lambda>(r, s).
               Inr (s\<lparr>mem := store_bytes (mem s) pg src\<rparr>))))"

definition uvmdealloc :: "'z kmem_scheme \<Rightarrow> uint64 \<Rightarrow> uint64 \<Rightarrow> uint64 \<Rightarrow>
    (uint64 \<times> 'z kmem_scheme) res" where
  "uvmdealloc s pagetable oldsz newsz =
     (if newsz \<ge> oldsz then Inr (oldsz, s)
      else if PGROUNDUP newsz < PGROUNDUP oldsz then
        let npages = (PGROUNDUP oldsz - PGROUNDUP newsz) div PGSIZE
        in bind_res (uvmunmap s pagetable (PGROUNDUP newsz)
             (scast (ucast npages :: 32 word)) True) (\<lambda>s. Inr (newsz, s))
      else Inr (newsz, s))"

primrec uvmalloc_loop :: "nat \<Rightarrow> 'z kmem_scheme \<Rightarrow> uint64 \<Rightarrow> uint64 \<Rightarrow> uint64 \<Rightarrow> uint64 \<Rightarrow> uint64 \<Rightarrow>
    (uint64 \<times> 'z kmem_scheme) res" where
  "uvmalloc_loop 0 s pagetable a oldsz newsz xperm = Inl OutOfFuel"
| "uvmalloc_loop (Suc fuel) s pagetable a oldsz newsz xperm =
     (if a < newsz then
        bind_res (kalloc s) (\<lambda>(pg, s).
          if pg = 0 then
            bind_res (uvmdealloc s pagetable a oldsz) (\<lambda>(_, s). Inr (0, s))
          else
            let s = s\<lparr>mem := memset (mem s) pg 0 4096\<rparr>
            in bind_res (mappages s pagetable a PGSIZE pg (PTE_R OR PTE_U OR xperm)) (\<lambda>(r, s).
                 if r \<noteq> 0 then
                   bind_res (kfree s pg) (\<lambda>s.
                     bind_res (uvmdealloc s pagetable a oldsz) (\<lambda>(_, s). Inr (0, s)))
                 else uvmalloc_loop fuel s pagetable (a + PGSIZE) oldsz newsz xperm))
      else Inr (newsz, s))"

definition uvmalloc :: "'z kmem_scheme \<Rightarrow> uint64 \<Rightarrow> uint64 \<Rightarrow> uint64 \<Rightarrow> uint64 \<Rightarrow>
    (uint64 \<times> 'z kmem_scheme) res" where
  "uvmalloc s pagetable oldsz newsz xperm =
     (if newsz < oldsz then Inr (oldsz, s)
      else
        let oldsz = PGROUNDUP oldsz
        in uvmalloc_loop (unat (newsz div PGSIZE) + 2) s pagetable oldsz oldsz newsz xperm)"

text \<open>
  \<open>freewalk\<close> recurses into the entries that are valid and have no R, W or X; page tables
  have three levels, so recursion deeper than that is cut off.
\<close>

primrec freewalk_depth :: "nat \<Rightarrow> 'z kmem_scheme \<Rightarrow> uint64 \<Rightarrow> 'z kmem_scheme res" where
  "freewalk_depth 0 s pagetable = Inl OutOfFuel"
| "freewalk_depth (Suc d) s pagetable =
     bind_res
       (fold_res (\<lambda>i s.
          let pte = load64 (mem s) (pagetable + 8 * of_nat i)
          in if pte AND PTE_V \<noteq> 0 \<and> pte AND (PTE_R OR PTE_W OR PTE_X) = 0 then
               bind_res (freewalk_depth d s (PTE2PA pte)) (\<lambda>s.
                 Inr (s\<lparr>mem := store64 (mem s) (pagetable + 8 * of_nat i) 0\<rparr>))
             else if pte AND PTE_V \<noteq> 0 then Inl (Panic ''freewalk: leaf'')
             else Inr s) [0..<512] s)
       (\<lambda>s. kfree s pagetable)"

definition freewalk :: "'z kmem_scheme \<Rightarrow> uint64 \<Rightarrow> 'z kmem_scheme res" where
  "freewalk s pagetable = freewalk_depth 3 s pagetable"

definition uvmfree :: "'z kmem_scheme \<Rightarrow> uint64 \<Rightarrow> uint64 \<Rightarrow> 'z kmem_scheme res" where
  "uvmfree s pagetable sz =
     bind_res (if sz > 0 then uvmunmap s pagetable 0 (PGROUNDUP sz div PGSIZE) True else Inr s)
       (\<lambda>s. freewalk s pagetable)"

text \<open>One more user of the page at \<open>pa\<close>.\<close>

definition share_page :: "'z kmem_scheme \<Rightarrow> uint64 \<Rightarrow> 'z kmem_scheme res" where
  "share_page s pa =
     (let idx = page_idx pa in
      if \<not> in_array idx then Inl OutOfBounds
      else
        let n = nump_using s idx + 1;
            s = s\<lparr>nump_using := (nump_using s)(idx := n)\<rparr>
        in Inr (if n \<le> 1 then kprint ''uvmcopy: nump_using < 1'' s else s))"

primrec uvmcopy_loop :: "nat \<Rightarrow> 'z kmem_scheme \<Rightarrow> uint64 \<Rightarrow> uint64 \<Rightarrow> uint64 \<Rightarrow> uint64 \<Rightarrow>
    (int \<times> 'z kmem_scheme) res" where
  "uvmcopy_loop 0 s old new i sz = Inl OutOfFuel"
| "uvmcopy_loop (Suc fuel) s old new i sz =
     (if i < sz then
        bind_res (walk s old i False) (\<lambda>(pte, s).
          if pte = 0 then Inl (Panic ''uvmcopy: pte should exist'')
          else
            let e = load64 (mem s) pte
            in if e AND PTE_V = 0 then Inl (Panic ''uvmcopy: page not present'')
               else
                 let pa = PTE2PA e;
                     flags = PTE_FLAGS e;
                     cow = flags AND PTE_W \<noteq> 0;
                     flags = (if cow then (flags AND NOT PTE_W) OR PTE_COW else flags);
                     s = (if cow then s\<lparr>mem := store64 (mem s) pte (PA2PTE pa OR flags)\<rparr> else s)
                 in bind_res (mappages s new i PGSIZE pa flags) (\<lambda>(r, s).
                      if r \<noteq> 0 then
                        bind_res (uvmunmap s new 0 (i div PGSIZE) True) (\<lambda>s. Inr (-1, s))
                      else
                        bind_res (share_page s pa) (\<lambda>s.
                          uvmcopy_loop fuel s old new (i + PGSIZE) sz)))
      else Inr (0, s))"

definition uvmcopy :: "'z kmem_scheme \<Rightarrow> uint64 \<Rightarrow> uint64 \<Rightarrow> uint64 \<Rightarrow> (int \<times> 'z kmem_scheme) res" where
  "uvmcopy s old new sz = uvmcopy_loop (unat (sz div PGSIZE) + 2) s old new 0 sz"

definition removecopy :: "'z kmem_scheme \<Rightarrow> uint64 \<Rightarrow> uint64 \<Rightarrow> uint64 \<Rightarrow> (int \<times> 'z kmem_scheme) res" where
  "removecopy s pt va sz =
     (let va = PGROUNDDOWN va in
      if MAXVA \<le> va then Inr (1, kprint ''removecopy: va not available
'' s)
      else if sz \<noteq> 0 \<and> va > sz - PGSIZE \<and> va < sz then
        Inr (1, kprint ''removecopy: size not available
'' s)
      else bind_res (walk s pt va False) (\<lambda>(pte, s).
        if pte = 0 then Inl NullDeref
        else
          let e = load64 (mem s) pte
          in if e AND PTE_V = 0 \<or> e AND PTE_COW = 0 then
               Inr (1, kprint ''removecopy: page not writable or not COW'' s)
             else
               let flags = (PTE_FLAGS e AND NOT PTE_COW) OR PTE_W
               in bind_res (kalloc s) (\<lambda>(pg, s).
                    if pg = 0 then Inl (Panic ''removecopy: kalloc error'')
                    else
                      let pa = PTE2PA (load64 (mem s) pte);
                          s = s\<lparr>mem := memmove (mem s) pg pa 4096\<rparr>;
                          s = s\<lparr>mem := store64 (mem s) pte (PA2PTE pg OR flags)\<rparr>
                      in bind_res (kfree s pa) (\<lambda>s. Inr (0, s)))))"

definition uvmclear :: "'z kmem_scheme \<Rightarrow> uint64 \<Rightarrow> uint64 \<Rightarrow> 'z kmem_scheme res" where
  "uvmclear s pagetable va =
     bind_res (walk s pagetable va False) (\<lambda>(pte, s).
       if pte = 0 then Inl (Panic ''uvmclear'')
       else Inr (s\<lparr>mem := store64 (mem s) pte (load64 (mem s) pte AND NOT PTE_U)\<rparr>))"

primrec copyout_loop :: "nat \<Rightarrow> 'z kmem_scheme \<Rightarrow> uint64 \<Rightarrow> uint64 \<Rightarrow> uint8 list \<Rightarrow>
    (int \<times> 'z kmem_scheme) res" where
  "copyout_loop 0 s pagetable dstva src = Inl OutOfFuel"
| "copyout_loop (Suc fuel) s pagetable dstva src =
     (if src = [] then Inr (0, s)
      else
        let va0 = PGROUNDDOWN dstva
        in bind_res (walkaddr s pagetable va0) (\<lambda>pa0.
          if pa0 = 0 then Inr (-1, s)
          else bind_res (walk s pagetable va0 False) (\<lambda>(pte, s).
            if pte = 0 then Inl NullDeref
            else bind_res
              (if load64 (mem s) pte AND PTE_COW \<noteq> 0 then
                 bind_res (removecopy s pagetable va0 0) (\<lambda>(_, s).
                   bind_res (walkaddr s pagetable va0) (\<lambda>pa0. Inr (pa0, s)))
               else Inr (pa0, s))
              (\<lambda>(pa0, s).
                 let n = min (4096 - unat (dstva - va0)) (length src);
                     s = s\<lparr>mem := store_bytes (mem s) (pa0 + (dstva - va0)) (take n src)\<rparr>
                 in copyout_loop fuel s pagetable (va0 + PGSIZE) (drop n src)))))"

definition copyout :: "'z kmem_scheme \<Rightarrow> uint64 \<Rightarrow> uint64 \<Rightarrow> uint8 list \<Rightarrow> (int \<times> 'z kmem_scheme) res" where
  "copyout s pagetable dstva src = copyout_loop (Suc (length src)) s pagetable dstva src"

primrec copyin_loop :: "nat \<Rightarrow> 'z kmem_scheme \<Rightarrow> uint64 \<Rightarrow> uint64 \<Rightarrow> nat \<Rightarrow> (int \<times> uint8 list) res" where
  "copyin_loop 0 s pagetable srcva len = Inl OutOfFuel"
| "copyin_loop (Suc fuel) s pagetable srcva len =
     (if len = 0 then Inr (0, [])
      else
        let va0 = PGROUNDDOWN srcva
        in bind_res (walkaddr s pagetable va0) (\<lambda>pa0.
          if pa0 = 0 then Inr (-1, [])
          else
            let n = min (4096 - unat (srcva - va0)) len;
                bs = load_bytes (mem s) (pa0 + (srcva - va0)) n
            in bind_res (copyin_loop fuel s pagetable (va0 + PGSIZE) (len - n)) (\<lambda>(r, bs').
                 Inr (r, bs @ bs'))))"

definition copyin :: "'z kmem_scheme \<Rightarrow> uint64 \<Rightarrow> uint64 \<Rightarrow> nat \<Rightarrow> (int \<times> uint8 list) res" where
  "copyin s pagetable srcva len = copyin_loop (Suc len) s pagetable srcva len"

text \<open>The inner loop of \<open>copyinstr\<close> over the bytes of one page: it stops at a NUL.\<close>

fun copyinstr_page :: "uint8 list \<Rightarrow> bool \<times> uint8 list" where
  "copyinstr_page [] = (False, [])"
| "copyinstr_page (c # cs) =
     (if c = 0 then (True, [0]) else let (g, bs) = copyinstr_page cs in (g, c # bs))"

primrec copyinstr_loop :: "nat \<Rightarrow> 'z kmem_scheme \<Rightarrow> uint64 \<Rightarrow> uint64 \<Rightarrow> nat \<Rightarrow> (int \<times> uint8 list) res" where
  "copyinstr_loop 0 s pagetable srcva max_n = Inl OutOfFuel"
| "copyinstr_loop (Suc fuel) s pagetable srcva max_n =
     (if max_n = 0 then Inr (-1, [])
      else
        let va0 = PGROUNDDOWN srcva
        in bind_res (walkaddr s pagetable va0) (\<lambda>pa0.
          if pa0 = 0 then Inr (-1, [])
          else
            let n = min (4096 - unat (srcva - va0)) max_n;
                (got_null, bs) = copyinstr_page (load_bytes (mem s) (pa0 + (srcva - va0)) n)
            in if got_null then Inr (0, bs)
               else bind_res (copyinstr_loop fuel s pagetable (va0 + PGSIZE) (max_n - n)) (\<lambda>(r, bs').
                 Inr (r, bs @ bs'))))"

definition copyinstr :: "'z kmem_scheme \<Rightarrow> uint64 \<Rightarrow> uint64 \<Rightarrow> nat \<Rightarrow> (int \<times> uint8 list) res" where
  "copyinstr s pagetable srcva max_n = copyinstr_loop (Suc max_n) s pagetable srcva max_n"

end
