(* ===== verification/Pagetable.thy ===== *)
theory Pagetable
  imports Vm
begin

text \<open>
  Page tables as trees and as maps. \<open>tpages m l pt\<close> lists the table pages below the table
  \<open>pt\<close> of level \<open>l\<close>, \<open>ltab\<close> finds the last-level table of an address and \<open>ptval\<close> its
  entry (0 where there is none), so that a page table denotes a function from virtual
  pages to entries. \<open>pt_ok\<close> says that no table page occurs twice in the tree. The main
  lemmas: \<open>walk\<close> with \<open>alloc\<close> grows the tree by fresh zeroed pages and changes no entry;
  storing an entry at the address \<open>walk\<close> returns updates the map at one page only.
\<close>

section \<open>The tree\<close>

definition npte :: nat where
  "npte = 512"

definition ent :: "memory \<Rightarrow> uint64 \<Rightarrow> uint64 \<Rightarrow> uint64" where
  "ent m pt i = load64 m (pt + 8 * i)"

definition is_V :: "uint64 \<Rightarrow> bool" where
  "is_V e \<longleftrightarrow> e AND PTE_V \<noteq> 0"

primrec tpages :: "memory \<Rightarrow> nat \<Rightarrow> uint64 \<Rightarrow> uint64 list" where
  "tpages m 0 pt = [pt]"
| "tpages m (Suc l) pt = pt # concat (map (\<lambda>i.
     if is_V (ent m pt (of_nat i)) then tpages m l (PTE2PA (ent m pt (of_nat i))) else []) [0..<npte])"

primrec upper :: "memory \<Rightarrow> nat \<Rightarrow> uint64 \<Rightarrow> uint64 set" where
  "upper m 0 pt = {}"
| "upper m (Suc l) pt = insert pt (\<Union>i < npte.
     if is_V (ent m pt (of_nat i)) then upper m l (PTE2PA (ent m pt (of_nat i))) else {})"

primrec ltab :: "memory \<Rightarrow> nat \<Rightarrow> uint64 \<Rightarrow> uint64 \<Rightarrow> uint64 option" where
  "ltab m 0 pt va = Some pt"
| "ltab m (Suc l) pt va =
     (if is_V (ent m pt (PX (Suc l) va)) then ltab m l (PTE2PA (ent m pt (PX (Suc l) va))) va
      else None)"

definition ptval :: "memory \<Rightarrow> nat \<Rightarrow> uint64 \<Rightarrow> uint64 \<Rightarrow> uint64" where
  "ptval m l pt va = (case ltab m l pt va of None \<Rightarrow> 0 | Some t \<Rightarrow> ent m t (PX 0 va))"

definition pt_ok :: "memory \<Rightarrow> nat \<Rightarrow> uint64 \<Rightarrow> bool" where
  "pt_ok m l pt \<longleftrightarrow>
     distinct (tpages m l pt) \<and> (\<forall>q \<in> set (tpages m l pt). page_aligned q \<and> q \<noteq> 0)"

abbreviation children :: "memory \<Rightarrow> nat \<Rightarrow> uint64 \<Rightarrow> nat \<Rightarrow> uint64 list" where
  "children m l pt i \<equiv>
     (if is_V (ent m pt (of_nat i)) then tpages m l (PTE2PA (ent m pt (of_nat i))) else [])"

lemma ltab_PGROUNDDOWN [simp]: "ltab m l pt (PGROUNDDOWN va) = ltab m l pt va"
  by (induction l arbitrary: pt) simp_all

lemma ptval_PGROUNDDOWN [simp]: "ptval m l pt (PGROUNDDOWN va) = ptval m l pt va"
  by (simp add: ptval_def split: option.split)

lemma distinct_concat_upt:
  "distinct (concat (map f [0..<n])) \<longleftrightarrow>
     (\<forall>i < n. distinct (f i)) \<and> (\<forall>i < n. \<forall>j < n. i \<noteq> j \<longrightarrow> set (f i) \<inter> set (f j) = {})"
proof (induction n)
  case (Suc n)
  have "distinct (concat (map f [0..<Suc n])) \<longleftrightarrow>
      distinct (concat (map f [0..<n])) \<and> distinct (f n) \<and> (\<forall>i < n. set (f i) \<inter> set (f n) = {})"
    by (fastforce simp: atLeast0LessThan)
  then show ?case unfolding Suc.IH All_less_Suc by (simp add: Int_commute) blast
qed simp

lemma set_tpages_Suc: "set (tpages m (Suc l) pt) = insert pt (\<Union>i < npte. set (children m l pt i))"
  by (auto simp: atLeast0LessThan)

lemma tpages_root [simp]: "pt \<in> set (tpages m l pt)"
  by (cases l) simp_all

lemma PX_of_nat: "PX l va = of_nat (unat (PX l va))" "unat (PX l va) < npte"
  by (simp_all add: PX_less npte_def)

lemma pt_ok_Suc:
  "pt_ok m (Suc l) pt \<longleftrightarrow>
     page_aligned pt \<and> pt \<noteq> 0 \<and>
     (\<forall>i < npte. is_V (ent m pt (of_nat i)) \<longrightarrow>
        pt_ok m l (PTE2PA (ent m pt (of_nat i))) \<and> pt \<notin> set (tpages m l (PTE2PA (ent m pt (of_nat i))))) \<and>
     (\<forall>i < npte. \<forall>j < npte. i \<noteq> j \<longrightarrow> set (children m l pt i) \<inter> set (children m l pt j) = {})"
  unfolding pt_ok_def tpages.simps distinct.simps distinct_concat_upt
  by (auto simp: atLeast0LessThan)

lemma pt_ok_child:
  "pt_ok m (Suc l) pt \<Longrightarrow> i < npte \<Longrightarrow> is_V (ent m pt (of_nat i)) \<Longrightarrow> pt_ok m l (PTE2PA (ent m pt (of_nat i)))"
  unfolding pt_ok_Suc by blast

lemma pt_ok_children:
  assumes "pt_ok m (Suc l) pt" "i < npte" "x \<in> set (children m l pt i)"
  shows "x \<noteq> pt" "j < npte \<Longrightarrow> x \<in> set (children m l pt j) \<Longrightarrow> i = j"
proof -
  show "x \<noteq> pt" using assms unfolding pt_ok_Suc by (metis empty_iff list.set(1))
  show "j < npte \<Longrightarrow> x \<in> set (children m l pt j) \<Longrightarrow> i = j"
    using assms unfolding pt_ok_Suc by blast
qed

lemma pt_ok_0: "pt_ok m 0 pt \<longleftrightarrow> page_aligned pt \<and> pt \<noteq> 0"
  by (auto simp: pt_ok_def)

lemma pt_ok_aligned: "pt_ok m l pt \<Longrightarrow> q \<in> set (tpages m l pt) \<Longrightarrow> page_aligned q \<and> q \<noteq> 0"
  by (auto simp: pt_ok_def)

lemma pt_ok_root: "pt_ok m l pt \<Longrightarrow> page_aligned pt \<and> pt \<noteq> 0"
  using pt_ok_aligned tpages_root by blast

lemma upper_subset: "upper m l pt \<subseteq> set (tpages m l pt)"
proof (induction l arbitrary: pt)
  case (Suc l)
  then show ?case by (force simp: atLeast0LessThan split: if_splits)
qed simp

lemma ltab_tpages: "ltab m l pt va = Some t \<Longrightarrow> t \<in> set (tpages m l pt)"
proof (induction l arbitrary: pt)
  case (Suc l)
  then have v: "is_V (ent m pt (PX (Suc l) va))"
    and t: "t \<in> set (tpages m l (PTE2PA (ent m pt (PX (Suc l) va))))"
    by (auto split: if_splits)
  let ?i = "unat (PX (Suc l) va)"
  have "t \<in> set (children m l pt ?i)" using v t by simp
  moreover have "?i < npte" by (simp add: npte_def PX_less)
  ultimately show ?case unfolding set_tpages_Suc by blast
qed simp


section \<open>Entries and pages\<close>

text \<open>An entry of a table lies in the table's page and is aligned.\<close>

lemma entry_unat:
  assumes "page_aligned pt" "unat i < 512"
  shows "unat (pt + 8 * i) = unat pt + 8 * unat i"
proof -
  obtain k where k: "unat pt = 4096 * k" using assms(1) by (auto simp: page_aligned_unat)
  have "unat pt < 2 ^ 64" using unsigned_less [of pt] by simp
  with k assms(2) have "unat pt + 8 * unat i < 2 ^ 64" by simp
  moreover have "unat (8 * i) = 8 * unat i"
    using assms(2) by (simp add: unat_mult_lem [THEN iffD1])
  ultimately show ?thesis by (simp add: word64_no_wrap_add)
qed

lemma entry_page:
  assumes "page_aligned pt" "unat i < 512"
  shows "PGROUNDDOWN (pt + 8 * i) = pt" "8 dvd unat (pt + 8 * i)" "pt \<noteq> 0 \<Longrightarrow> pt + 8 * i \<noteq> 0"
proof -
  obtain k where k: "unat pt = 4096 * k" using assms(1) by (auto simp: page_aligned_unat)
  note u = entry_unat [OF assms]
  have "(4096 * k + 8 * unat i) div 4096 = k" using assms(2) by simp
  then show "PGROUNDDOWN (pt + 8 * i) = pt"
    by (simp add: word_unat_eq_iff unat_PGROUNDDOWN u k)
  show "8 dvd unat (pt + 8 * i)" by (simp add: u k)
  show "pt + 8 * i \<noteq> 0" if "pt \<noteq> 0"
  proof
    assume "pt + 8 * i = 0"
    then have "unat pt = 0" using u by simp
    with that show False by (simp add: word_unat_eq_iff)
  qed
qed

lemma entry_inj:
  assumes "page_aligned p" "page_aligned q" "unat i < 512" "unat j < 512" "p + 8 * i = q + 8 * j"
  shows "p = q \<and> i = j"
proof -
  have "p = q" using entry_page(1) assms by metis
  moreover have "unat p + 8 * unat i = unat q + 8 * unat j"
    using entry_unat assms by metis
  ultimately show ?thesis by (simp add: word_unat_eq_iff)
qed

definition same_page :: "uint64 \<Rightarrow> memory \<Rightarrow> memory \<Rightarrow> bool" where
  "same_page q m m' \<longleftrightarrow> (\<forall>x. in_page q x \<longrightarrow> m' x = m x)"

lemma agree_off_same: "agree_off p m m' \<Longrightarrow> q \<noteq> p \<Longrightarrow> same_page q m m'"
  by (auto simp: agree_off_def same_page_def in_page_def)

lemma ent_same:
  assumes "same_page pt m m'" "page_aligned pt" "unat i < 512"
  shows "ent m' pt i = ent m pt i"
  unfolding ent_def
proof (rule load64_cong)
  fix x assume "in_range (pt + 8 * i) 8 x"
  then have "in_page pt x"
    using range8_page [OF entry_page(2) [OF assms(2,3)]] entry_page(1) [OF assms(2,3)]
    by (simp add: in_page_def)
  with assms(1) show "m' x = m x" by (simp add: same_page_def)
qed

lemma unat_of_nat512: "i < npte \<Longrightarrow> unat (of_nat i :: uint64) < 512"
  by (simp add: npte_def unat_of_nat64)

lemmas ent_same_nat = ent_same [OF _ _ unat_of_nat512]
lemmas ent_same_PX = ent_same [OF _ _ PX_less]

lemma tree_cong:
  assumes "\<forall>q \<in> upper m l pt. same_page q m m'" "page_aligned pt"
  shows "tpages m' l pt = tpages m l pt" "ltab m' l pt va = ltab m l pt va" "upper m' l pt = upper m l pt"
proof -
  have "tpages m' l pt = tpages m l pt \<and> ltab m' l pt va = ltab m l pt va \<and> upper m' l pt = upper m l pt"
    using assms
  proof (induction l arbitrary: pt)
    case (Suc l)
    have pt: "same_page pt m m'" using Suc.prems(1) by simp
    have e: "ent m' pt (of_nat i) = ent m pt (of_nat i)" if "i < npte" for i
      using ent_same_nat [OF pt Suc.prems(2) that] .
    have ih: "tpages m' l q = tpages m l q \<and> ltab m' l q va = ltab m l q va \<and> upper m' l q = upper m l q"
      if "i < npte" "is_V (ent m pt (of_nat i))" "q = PTE2PA (ent m pt (of_nat i))" for i q
      using that Suc.prems(1) by (intro Suc.IH) (auto split: if_splits)
    have "children m' l pt i = children m l pt i" if "i < npte" for i
      using e [OF that] ih [OF that] by simp
    then have "map (children m' l pt) [0..<npte] = map (children m l pt) [0..<npte]" by simp
    then have "tpages m' (Suc l) pt = tpages m (Suc l) pt"
      by (simp only: tpages.simps)
    moreover have "ltab m' (Suc l) pt va = ltab m (Suc l) pt va"
      using ent_same_PX [OF pt Suc.prems(2)] ih [OF PX_of_nat(2)] by simp
    moreover have "upper m' (Suc l) pt = upper m (Suc l) pt"
      using e ih by auto
    ultimately show ?case by blast
  qed simp
  then show "tpages m' l pt = tpages m l pt" "ltab m' l pt va = ltab m l pt va"
    "upper m' l pt = upper m l pt" by auto
qed

lemma walk_noalloc:
  "walk_levels l s pt va False =
     Inr (case ltab (mem s) l pt va of None \<Rightarrow> 0 | Some t \<Rightarrow> t + 8 * PX 0 va, s)"
  by (induction l arbitrary: pt) (simp_all add: Let_def is_V_def ent_def)

lemma ltab_child:
  assumes "ltab m (Suc l) pt va = Some t"
  shows "t \<in> set (children m l pt (unat (PX (Suc l) va)))"
  using assms ltab_tpages by (force split: if_splits)

lemma ltab_not_upper:
  assumes "pt_ok m l pt" "ltab m l pt va = Some t"
  shows "t \<notin> upper m l pt"
  using assms
proof (induction l arbitrary: pt)
  case (Suc l)
  let ?i = "unat (PX (Suc l) va)"
  let ?c = "\<lambda>j. PTE2PA (ent m pt (of_nat j))"
  note ok = Suc.prems(1)
  have i: "?i < npte" by (rule PX_of_nat)
  have v: "is_V (ent m pt (of_nat ?i))" and lt: "ltab m l (?c ?i) va = Some t"
    using Suc.prems(2) by (auto split: if_splits)
  have t: "t \<in> set (children m l pt ?i)" using Suc.prems(2) by (rule ltab_child)
  have "t \<noteq> pt" using pt_ok_children(1) [OF ok i t] .
  moreover have "t \<notin> upper m l (?c j)" if j: "j < npte" "is_V (ent m pt (of_nat j))" for j
  proof (cases "j = ?i")
    case True
    with Suc.IH [OF pt_ok_child [OF ok i v] lt] show ?thesis by simp
  next
    case False
    then have "t \<notin> set (children m l pt j)" using pt_ok_children(2) [OF ok i t j(1)] by blast
    with j upper_subset [of m l "?c j"] show ?thesis by auto
  qed
  ultimately show ?case by (auto split: if_splits)
qed simp

lemma ltab_inj:
  assumes "pt_ok m l pt" "ltab m l pt va = Some t" "ltab m l pt vb = Some t" "0 < k" "k \<le> l"
  shows "PX k va = PX k vb"
  using assms
proof (induction l arbitrary: pt)
  case (Suc l)
  let ?i = "unat (PX (Suc l) va)" and ?j = "unat (PX (Suc l) vb)"
  note ok = Suc.prems(1)
  have ij: "?i < npte" "?j < npte" by (rule PX_of_nat)+
  have "t \<in> set (children m l pt ?i)" "t \<in> set (children m l pt ?j)"
    using Suc.prems(2,3) ltab_child by blast+
  then have "?i = ?j" using pt_ok_children(2) [OF ok] ij by blast
  then have eq: "PX (Suc l) va = PX (Suc l) vb" by (simp add: word_unat_eq_iff)
  show ?case
  proof (cases "k = Suc l")
    case True with eq show ?thesis by simp
  next
    case False
    have "is_V (ent m pt (of_nat ?i))" using Suc.prems(2) by (simp split: if_splits)
    then have "pt_ok m l (PTE2PA (ent m pt (PX (Suc l) va)))" using pt_ok_child [OF ok ij(1)] by simp
    then show ?thesis using Suc.IH Suc.prems(2-5) eq False by (simp split: if_splits)
  qed
qed simp

lemma PX_all_same_page:
  assumes "va < MAXVA" "vb < MAXVA" "\<And>k. k \<le> 2 \<Longrightarrow> PX k va = PX k vb"
  shows "PGROUNDDOWN va = PGROUNDDOWN vb"
  by (rule PX_same_page) (rule assms; simp)+


section \<open>Storing an entry\<close>

lemma store_leaf_tree:
  fixes v :: uint64
  assumes ok: "pt_ok m l pt" and lt: "ltab m l pt va = Some t" and i: "unat i < 512"
    and m'_def: "m' = store64 m (t + 8 * i) v"
  shows "agree_off t m m'" "tpages m' l pt = tpages m l pt" "ltab m' l pt vb = ltab m l pt vb"
    "upper m' l pt = upper m l pt" "pt_ok m' l pt"
proof -
  have t: "page_aligned t" using ok lt ltab_tpages pt_ok_aligned by blast
  show ag: "agree_off t m m'"
    unfolding m'_def by (rule agree_off_store64) (use entry_page [OF t i] in \<open>simp_all add: in_page_def\<close>)
  have "\<forall>q \<in> upper m l pt. same_page q m m'"
    using ltab_not_upper [OF ok lt] agree_off_same [OF ag] by metis
  note c = tree_cong [OF this]
  have pt: "page_aligned pt" using ok pt_ok_root by blast
  show "tpages m' l pt = tpages m l pt" "ltab m' l pt vb = ltab m l pt vb" "upper m' l pt = upper m l pt"
    using c [OF pt] by blast+
  then show "pt_ok m' l pt" using ok by (simp add: pt_ok_def)
qed

text \<open>The map after a store: the stored entry on the page of \<open>va\<close>, the old ones elsewhere.\<close>

lemma ptval_store_leaf:
  assumes ok: "pt_ok m 2 pt" and lt: "ltab m 2 pt va = Some t" and va: "va < MAXVA" "vb < MAXVA"
  shows "ptval (store64 m (t + 8 * PX 0 va) v) 2 pt vb =
    (if PGROUNDDOWN vb = PGROUNDDOWN va then v else ptval m 2 pt vb)"
proof -
  let ?m = "store64 m (t + 8 * PX 0 va) v"
  note tree = store_leaf_tree [OF ok lt PX_less [of 0 va] refl, of v]
  have t: "page_aligned t" using ok lt ltab_tpages pt_ok_aligned by blast
  show ?thesis
  proof (cases "PGROUNDDOWN vb = PGROUNDDOWN va")
    case True
    then have "PX k vb = PX k va" for k by (metis PX_PGROUNDDOWN)
    then have "ltab m l pt' vb = ltab m l pt' va" for l pt' by (induction l arbitrary: pt') simp_all
    with True lt \<open>\<And>k. PX k vb = PX k va\<close> show ?thesis by (simp add: ptval_def tree ent_def)
  next
    case False
    show ?thesis
    proof (cases "ltab m 2 pt vb")
      case (Some t')
      have t': "page_aligned t'" using ok Some ltab_tpages pt_ok_aligned by blast
      have "t' + 8 * PX 0 vb \<noteq> t + 8 * PX 0 va"
      proof
        assume "t' + 8 * PX 0 vb = t + 8 * PX 0 va"
        then have e: "t' = t" "PX 0 vb = PX 0 va"
          using entry_inj [OF t' t PX_less PX_less] by blast+
        have "PX k vb = PX k va" if "k \<le> 2" for k
          using that e ltab_inj [OF ok Some, of va k] lt by (cases "k = 0") auto
        with False PX_all_same_page va show False by blast
      qed
      then have "ent ?m t' (PX 0 vb) = ent m t' (PX 0 vb)"
        unfolding ent_def using entry_page(2) [OF t PX_less] entry_page(2) [OF t' PX_less]
        by (intro load64_store64_neq) auto
      with Some False show ?thesis by (simp add: ptval_def tree)
    qed (use False in \<open>simp add: ptval_def tree\<close>)
  qed
qed

section \<open>Growing the tree\<close>

text \<open>
  \<open>grows kend l pt used s s'\<close>: the step from \<open>s\<close> to \<open>s'\<close> added the pages \<open>used\<close> to the tree
  of \<open>pt\<close>, kept every entry of the map, wrote no page outside the tree, and changed the
  reference counts of the new pages only.
\<close>

definition grows :: "uint64 \<Rightarrow> nat \<Rightarrow> uint64 \<Rightarrow> uint64 list \<Rightarrow> 'z kmem_scheme \<Rightarrow> 'z kmem_scheme \<Rightarrow> bool" where
  "grows kend l pt used s s' \<longleftrightarrow>
     pt_ok (mem s') l pt \<and>
     set (tpages (mem s') l pt) = set (tpages (mem s) l pt) \<union> set used \<and>
     (\<forall>q. q \<notin> set (tpages (mem s) l pt) \<union> set used \<longrightarrow> same_page q (mem s) (mem s')) \<and>
     (\<forall>va. ptval (mem s') l pt va = ptval (mem s) l pt va) \<and>
     (\<forall>q. page_ok kend q \<and> q \<notin> set used \<longrightarrow> refs s' q = refs s q) \<and>
     (\<forall>q \<in> set used. refs s' q = 1) \<and>
     s' = s\<lparr>mem := mem s', freelist := freelist s', nump_using := nump_using s'\<rparr>"

lemma grows_refl: "pt_ok (mem s) l pt \<Longrightarrow> grows kend l pt [] s s"
  by (simp add: grows_def same_page_def)

lemma same_page_trans: "same_page q m m' \<Longrightarrow> same_page q m' m'' \<Longrightarrow> same_page q m m''"
  by (simp add: same_page_def)

lemma kmem_frame_trans:
  "s1 = s\<lparr>mem := a, freelist := b, nump_using := c\<rparr> \<Longrightarrow>
   s2 = s1\<lparr>mem := a', freelist := b', nump_using := c'\<rparr> \<Longrightarrow>
   s2 = s\<lparr>mem := a', freelist := b', nump_using := c'\<rparr>"
  by simp

lemma grows_trans:
  assumes "grows kend l pt u1 s s1" "grows kend l pt u2 s1 s2" "set u1 \<inter> set u2 = {}"
    "\<forall>q \<in> set u1. page_ok kend q"
  shows "grows kend l pt (u1 @ u2) s s2"
proof -
  have f: "s2 = s\<lparr>mem := mem s2, freelist := freelist s2, nump_using := nump_using s2\<rparr>"
    using assms(1,2) unfolding grows_def by (blast intro: kmem_frame_trans)
  have r: "\<forall>q \<in> set (u1 @ u2). refs s2 q = 1"
  proof
    fix q assume "q \<in> set (u1 @ u2)"
    moreover have "refs s2 q = refs s1 q" if "q \<in> set u1"
      using that assms(2-4) unfolding grows_def by blast
    ultimately show "refs s2 q = 1" using assms(1,2) unfolding grows_def by auto
  qed
  show ?thesis
    using assms(1,2) f r unfolding grows_def
    by (auto intro: same_page_trans)
qed

lemma zero_table:
  assumes "\<And>x. in_page p x \<Longrightarrow> m x = 0" "page_aligned p"
  shows "tpages m l p = [p]" "ptval m l p va = 0" "upper m l p \<subseteq> {p}" "ltab m (Suc l) p va = None"
proof -
  have e: "ent m p i = 0" if "unat i < 512" for i
    unfolding ent_def
    using that range8_page [OF entry_page(2) [OF assms(2) that]] entry_page(1) [OF assms(2) that] assms(1)
    by (intro load64_zero) (simp add: in_page_def)
  then have n: "\<not> is_V (ent m p (of_nat i))" if "i < npte" for i
    using that by (simp add: unat_of_nat512 is_V_def)
  have px: "ent m p (PX k va) = 0" for k by (simp add: e PX_less)
  show "tpages m l p = [p]" by (cases l) (simp_all add: n)
  show "ptval m l p va = 0" by (cases l) (simp_all add: ptval_def px is_V_def)
  show "ltab m (Suc l) p va = None" by (simp add: px is_V_def)
  show "upper m l p \<subseteq> {p}" by (cases l) (auto simp: n)
qed

lemma ptval_Suc:
  "ptval m (Suc l) pt va =
     (if is_V (ent m pt (PX (Suc l) va)) then ptval m l (PTE2PA (ent m pt (PX (Suc l) va))) va else 0)"
  by (simp add: ptval_def)

lemma subtree_cong:
  assumes "pt_ok m l pt" "\<forall>q \<in> set (tpages m l pt). same_page q m m'"
  shows "tpages m' l pt = tpages m l pt" "ptval m' l pt va = ptval m l pt va" "pt_ok m' l pt"
    "ltab m' l pt va = ltab m l pt va"
proof -
  have "\<forall>q \<in> upper m l pt. same_page q m m'" using assms(2) upper_subset by blast
  note c = tree_cong [OF this conjunct1 [OF pt_ok_root [OF assms(1)]]]
  show t: "tpages m' l pt = tpages m l pt" by (rule c)
  show "ltab m' l pt va = ltab m l pt va" by (rule c)
  show "ptval m' l pt va = ptval m l pt va"
  proof (cases "ltab m l pt va")
    case (Some t)
    then have "t \<in> set (tpages m l pt)" by (rule ltab_tpages)
    then have "ent m' t (PX 0 va) = ent m t (PX 0 va)"
      using assms pt_ok_aligned by (intro ent_same_PX) blast+
    with Some show ?thesis by (simp add: ptval_def c)
  qed (simp add: ptval_def c)
  show "pt_ok m' l pt" using t assms(1) by (simp add: pt_ok_def)
qed

text \<open>Replacing the subtree at index \<open>i\<close>.\<close>

lemma pt_ok_replace:
  assumes ok: "pt_ok m (Suc l) pt" and i: "i < npte"
    and ch: "\<And>j. j < npte \<Longrightarrow> j \<noteq> i \<Longrightarrow> ent m' pt (of_nat j) = ent m pt (of_nat j) \<and>
        (is_V (ent m pt (of_nat j)) \<longrightarrow>
          tpages m' l (PTE2PA (ent m pt (of_nat j))) = tpages m l (PTE2PA (ent m pt (of_nat j))))"
    and v: "is_V (ent m' pt (of_nat i))" and c: "pt_ok m' l (PTE2PA (ent m' pt (of_nat i)))"
    and sub: "set (tpages m' l (PTE2PA (ent m' pt (of_nat i)))) = set (children m l pt i) \<union> U"
    and U: "U \<inter> set (tpages m (Suc l) pt) = {}"
  shows "pt_ok m' (Suc l) pt" "set (tpages m' (Suc l) pt) = set (tpages m (Suc l) pt) \<union> U"
proof -
  have new: "set (children m' l pt j) = (if j = i then set (children m l pt i) \<union> U else set (children m l pt j))"
    if "j < npte" for j
    using ch [OF that] v sub by auto
  show set: "set (tpages m' (Suc l) pt) = set (tpages m (Suc l) pt) \<union> U"
    unfolding set_tpages_Suc using new i by (auto simp: split: if_split_asm)
  have root: "pt \<notin> U" using U by auto
  have chU: "set (children m l pt j) \<inter> U = {}" if "j < npte" for j
    using U that unfolding set_tpages_Suc by blast
  have "pt_ok m' l (PTE2PA (ent m' pt (of_nat j))) \<and> pt \<notin> set (tpages m' l (PTE2PA (ent m' pt (of_nat j))))"
    if j: "j < npte" "is_V (ent m' pt (of_nat j))" for j
  proof (cases "j = i")
    case True
    have "pt \<notin> set (children m l pt i)" using pt_ok_children(1) [OF ok i] by blast
    with True c sub root show ?thesis by simp
  next
    case False
    have "pt_ok m l (PTE2PA (ent m pt (of_nat j)))" "pt \<notin> set (children m l pt j)"
      using pt_ok_child [OF ok j(1)] pt_ok_children(1) [OF ok j(1)] ch [OF j(1) False] j(2) by auto
    with ch [OF j(1) False] j(2) show ?thesis by (auto simp: pt_ok_def)
  qed
  moreover have "set (children m' l pt a) \<inter> set (children m' l pt b) = {}"
    if ab: "a < npte" "b < npte" "a \<noteq> b" for a b
  proof -
    have "set (children m l pt a) \<inter> set (children m l pt b) = {}"
      using pt_ok_children(2) [OF ok] ab by blast
    then show ?thesis unfolding new [OF ab(1)] new [OF ab(2)] using chU ab by auto
  qed
  ultimately show "pt_ok m' (Suc l) pt"
    using pt_ok_root [OF ok] unfolding pt_ok_Suc by blast
qed

lemma grows_lift:
  assumes ok: "pt_ok (mem s) (Suc l) pt" and i: "i < npte" and v: "is_V (ent (mem s) pt (of_nat i))"
    and g: "grows kend l (PTE2PA (ent (mem s) pt (of_nat i))) used s s'"
    and U: "set used \<inter> set (tpages (mem s) (Suc l) pt) = {}"
  shows "grows kend (Suc l) pt used s s'"
proof -
  let ?m = "mem s" and ?m' = "mem s'"
  let ?c = "PTE2PA (ent ?m pt (of_nat i))"
  have keep: "same_page q ?m ?m'" if "q \<notin> set (children ?m l pt i)" "q \<notin> set used" for q
    using g v that unfolding grows_def by auto
  have pt: "page_aligned pt" using ok pt_ok_root by blast
  have "pt \<notin> set (children ?m l pt i)" using pt_ok_children(1) [OF ok i] by blast
  moreover have "pt \<notin> set used" using U by auto
  ultimately have e: "ent ?m' pt (of_nat j) = ent ?m pt (of_nat j)" if "j < npte" for j
    using keep pt that by (intro ent_same_nat) blast+
  have sib: "\<forall>q \<in> set (tpages ?m l (PTE2PA (ent ?m pt (of_nat j)))). same_page q ?m ?m'"
    if j: "j < npte" "j \<noteq> i" "is_V (ent ?m pt (of_nat j))" for j
  proof
    fix q assume "q \<in> set (tpages ?m l (PTE2PA (ent ?m pt (of_nat j))))"
    then have q: "q \<in> set (children ?m l pt j)" using j(3) by simp
    have "q \<notin> set (children ?m l pt i)" using pt_ok_children(2) [OF ok j(1) q i] j(2) by blast
    moreover have "q \<notin> set used" using U q j(1) unfolding set_tpages_Suc by blast
    ultimately show "same_page q ?m ?m'" by (rule keep)
  qed
  note sibling = subtree_cong [OF pt_ok_child [OF ok] sib]
  have rep: "pt_ok ?m' (Suc l) pt" "set (tpages ?m' (Suc l) pt) = set (tpages ?m (Suc l) pt) \<union> set used"
    using pt_ok_replace [OF ok i, of ?m' "set used"] e i v g U sibling(1)
    unfolding grows_def by auto
  have val: "ptval ?m' (Suc l) pt va = ptval ?m (Suc l) pt va" for va
  proof -
    let ?k = "unat (PX (Suc l) va)"
    have k: "?k < npte" by (rule PX_of_nat)
    show ?thesis
    proof (cases "?k = i")
      case True
      then show ?thesis using g e [OF k] by (auto simp: ptval_Suc grows_def)
    next
      case False
      then show ?thesis using sibling(2) [OF k _ k False] e [OF k] by (auto simp: ptval_Suc)
    qed
  qed
  have out: "same_page q ?m ?m'" if "q \<notin> set (tpages ?m (Suc l) pt) \<union> set used" for q
    using that i keep unfolding set_tpages_Suc by blast
  show ?thesis using g rep val out unfolding grows_def by blast
qed

lemma new_child:
  assumes ok: "pt_ok m (Suc l) pt" and i: "i < npte" and n: "\<not> is_V (ent m pt (of_nat i))"
    and p: "page_aligned p" "p \<noteq> 0" "p \<notin> set (tpages m (Suc l) pt)"
    and zero: "\<And>x. in_page p x \<Longrightarrow> m' x = 0"
    and keep: "\<And>q. q \<noteq> p \<Longrightarrow> q \<noteq> pt \<Longrightarrow> same_page q m m'"
    and e: "\<And>j. j < npte \<Longrightarrow> j \<noteq> i \<Longrightarrow> ent m' pt (of_nat j) = ent m pt (of_nat j)"
    and ei: "is_V (ent m' pt (of_nat i))" "PTE2PA (ent m' pt (of_nat i)) = p"
  shows "pt_ok m' (Suc l) pt" "set (tpages m' (Suc l) pt) = insert p (set (tpages m (Suc l) pt))"
    "ptval m' (Suc l) pt va = ptval m (Suc l) pt va"
proof -
  note z = zero_table [where p = p and m = m' and l = l, OF zero p(1)]
  have sib: "\<forall>q \<in> set (tpages m l (PTE2PA (ent m pt (of_nat j)))). same_page q m m'"
    if j: "j < npte" "is_V (ent m pt (of_nat j))" for j
  proof
    fix q assume "q \<in> set (tpages m l (PTE2PA (ent m pt (of_nat j))))"
    then have q: "q \<in> set (children m l pt j)" using j by simp
    then have "q \<in> set (tpages m (Suc l) pt)" using j(1) unfolding set_tpages_Suc by blast
    with p(3) have "q \<noteq> p" by blast
    with pt_ok_children(1) [OF ok j(1) q] keep show "same_page q m m'" by blast
  qed
  note sibling = subtree_cong [OF pt_ok_child [OF ok] sib]
  have c: "pt_ok m' l (PTE2PA (ent m' pt (of_nat i)))" using z(1) p by (simp add: ei(2) pt_ok_def)
  have sub: "set (tpages m' l (PTE2PA (ent m' pt (of_nat i)))) = set (children m l pt i) \<union> {p}"
    using n z(1) ei(2) by simp
  have u: "{p} \<inter> set (tpages m (Suc l) pt) = {}" using p(3) by blast
  note r = pt_ok_replace [OF ok i conjI [OF e] ei(1) c sub u]
  show "pt_ok m' (Suc l) pt" by (rule r) (use sibling(1) in auto)
  have "set (tpages m' (Suc l) pt) = set (tpages m (Suc l) pt) \<union> {p}"
    by (rule r) (use sibling(1) in auto)
  then show "set (tpages m' (Suc l) pt) = insert p (set (tpages m (Suc l) pt))" by blast
  let ?k = "unat (PX (Suc l) va)"
  have k: "?k < npte" by (rule PX_of_nat)
  show "ptval m' (Suc l) pt va = ptval m (Suc l) pt va"
  proof (cases "?k = i")
    case True
    then show ?thesis using n ei z(2) by (auto simp: ptval_Suc)
  next
    case False
    then show ?thesis using sibling(2) [OF k _ k] e [OF k False] by (auto simp: ptval_Suc)
  qed
qed

lemma free_list_same:
  assumes "\<forall>q \<in> set ps. same_page q m m'" "\<forall>q \<in> set ps. page_aligned q"
  shows "free_list m' r ps = free_list m r ps"
  using assms
proof (induction ps arbitrary: r)
  case (Cons q ps)
  then have "ent m' q 0 = ent m q 0" by (intro ent_same) auto
  with Cons show ?case by (auto simp: ent_def)
qed simp

lemma kinv_mem:
  assumes "kinv kend fl s" "\<forall>q \<in> set fl. same_page q (mem s) m'"
  shows "kinv kend fl (s\<lparr>mem := m'\<rparr>)"
  using assms free_list_same [of fl "mem s" m'] by (auto simp: kinv_def refs_def)

section \<open>The walk with allocation\<close>

lemma fill_page: "page_aligned p \<Longrightarrow> in_page p x \<Longrightarrow> fill_bytes m p c 4096 x = c"
  by (simp add: in_page_range fill_bytes_def in_range_def)

lemma memset_page: "memset m p c 4096 = fill_bytes m p c 4096"
  by (simp add: memset_fill)

lemma is_V_PTE: "flag_bits f \<Longrightarrow> is_V (PA2PTE p OR f) \<longleftrightarrow> f AND PTE_V \<noteq> 0"
  by (simp add: is_V_def PA2PTE_flag_test)

lemma table_entry [simp]:
  "is_V (PA2PTE p OR PTE_V)" "page_aligned p \<Longrightarrow> PTE2PA (PA2PTE p OR PTE_V) = p"
  by (simp_all add: is_V_PTE PTE2PA_PA2PTE page_aligned_alt) (simp add: layout_defs)

lemma alloc_table:
  assumes k: "kinv kend (p # fl) s" and ok: "pt_ok (mem s) (Suc l) pt"
    and d: "set (p # fl) \<inter> set (tpages (mem s) (Suc l) pt) = {}"
    and n: "\<not> is_V (ent (mem s) pt (PX (Suc l) va))"
  shows "\<exists>s1. kalloc s = Inr (p, s1) \<and>
    (let s2 = s1\<lparr>mem := store64 (memset (mem s1) p 0 4096) (pt + 8 * PX (Suc l) va) (PA2PTE p OR PTE_V)\<rparr>
     in kinv kend fl s2 \<and> grows kend (Suc l) pt [p] s s2 \<and>
        ent (mem s2) pt (PX (Suc l) va) = PA2PTE p OR PTE_V)"
proof -
  obtain s1 where s1: "kalloc s = Inr (p, s1)" "kinv kend fl s1" "refs s1 p = 1"
    "\<forall>q. page_ok kend q \<and> q \<noteq> p \<longrightarrow> refs s1 q = refs s q" "agree_off p (mem s) (mem s1)"
    "s1 = s\<lparr>mem := mem s1, freelist := freelist s1, nump_using := nump_using s1\<rparr>"
    using kalloc_cons [OF k] by blast
  have p: "page_aligned p" "p \<noteq> 0" "p \<notin> set (tpages (mem s) (Suc l) pt)" "p \<notin> set fl" "pt \<notin> set fl" "p \<noteq> pt"
    using k d page_ok_nonzero by (auto simp: kinv_def)
  have pt: "page_aligned pt" using ok pt_ok_root by blast
  define i where "i = unat (PX (Suc l) va)"
  have i: "i < npte" "PX (Suc l) va = of_nat i" by (auto simp: i_def PX_of_nat(2))
  define m1 where "m1 = fill_bytes (mem s1) p 0 4096"
  define m2 where "m2 = store64 m1 (pt + 8 * of_nat i) (PA2PTE p OR PTE_V)"
  have a1: "agree_off p (mem s) m1"
    unfolding m1_def using s1(5) agree_off_fill [OF p(1)] by (rule agree_off_trans)
  have a2: "agree_off pt m1 m2"
    unfolding m2_def by (rule agree_off_store64) (simp_all add: entry_page [OF pt unat_of_nat512 [OF i(1)]])
  have keep: "same_page q (mem s) m2" if "q \<noteq> p" "q \<noteq> pt" for q
    using agree_off_same [OF a1 that(1)] agree_off_same [OF a2 that(2)] by (rule same_page_trans)
  have zero: "m2 x = 0" if "in_page p x" for x
    using agree_off_same [OF a2 p(6)] that fill_page [OF p(1) that] by (simp add: same_page_def m1_def)
  have e: "ent m2 pt (of_nat j) = ent (mem s) pt (of_nat j)" if j: "j < npte" "j \<noteq> i" for j
  proof -
    have "(of_nat j :: uint64) \<noteq> of_nat i"
      using j i(1) unat_of_nat64 [of i] unat_of_nat64 [of j] by (auto simp: npte_def)
    then have "ent m2 pt (of_nat j) = ent m1 pt (of_nat j)"
      unfolding ent_def m2_def
      using entry_inj [OF pt pt unat_of_nat512 [OF j(1)] unat_of_nat512 [OF i(1)]]
        entry_page(2) [OF pt unat_of_nat512 [OF j(1)]] entry_page(2) [OF pt unat_of_nat512 [OF i(1)]]
      by (intro load64_store64_neq) auto
    also have "\<dots> = ent (mem s) pt (of_nat j)"
      using agree_off_same [OF a1] p(6) pt j(1) by (intro ent_same_nat) auto
    finally show ?thesis .
  qed
  have ei: "ent m2 pt (of_nat i) = PA2PTE p OR PTE_V" by (simp add: ent_def m2_def)
  let ?s2 = "s1\<lparr>mem := m2\<rparr>"
  have nc: "pt_ok m2 (Suc l) pt" "set (tpages m2 (Suc l) pt) = insert p (set (tpages (mem s) (Suc l) pt))"
    "ptval m2 (Suc l) pt vb = ptval (mem s) (Suc l) pt vb" for vb
    using new_child [OF ok i(1) _ p(1-3) zero keep e] n i(2) ei p(1) by simp_all
  have out: "same_page q (mem s) m2" if "q \<notin> set (tpages (mem s) (Suc l) pt) \<union> set [p]" for q
    using keep that by auto
  have r: "refs ?s2 = refs s1" by (simp add: refs_def fun_eq_iff)
  have fr: "?s2 = s\<lparr>mem := m2, freelist := freelist ?s2, nump_using := nump_using ?s2\<rparr>"
    by (subst s1(6)) simp
  have "grows kend (Suc l) pt [p] s ?s2"
    using nc out s1(3,4) fr unfolding grows_def r by simp
  moreover have "kinv kend fl ?s2"
  proof (rule kinv_mem [OF s1(2)], intro ballI)
    fix q assume "q \<in> set fl"
    then have "q \<noteq> p" "q \<noteq> pt" using p by auto
    then show "same_page q (mem s1) m2"
      unfolding m1_def m2_def
      using agree_off_same [OF agree_off_fill [OF p(1)]] agree_off_same [OF a2] same_page_trans
      by (metis m1_def m2_def)
  qed
  ultimately show ?thesis using s1(1) ei by (auto simp: memset_page m2_def m1_def i(2))
qed

text \<open>
  \<open>walk\<close> with \<open>alloc\<close> never fails, takes its pages off the front of the free list, keeps
  the map, and returns the entry's address unless the free list ran out.
\<close>

lemma walk_levels_alloc:
  fixes s :: "'z kmem_scheme"
  assumes "kinv kend fl s" "pt_ok (mem s) l pt" "set fl \<inter> set (tpages (mem s) l pt) = {}"
  shows "\<exists>a s' used fl'. walk_levels l s pt va True = Inr (a, s') \<and> fl = used @ fl' \<and>
    kinv kend fl' s' \<and> grows kend l pt used s s' \<and> length used \<le> l \<and>
    (if a = 0 then fl' = [] \<and> length used < l else \<exists>t. ltab (mem s') l pt va = Some t \<and> a = t + 8 * PX 0 va)"
  using assms
proof (induction l arbitrary: s fl pt)
  case 0
  have "page_aligned pt" "pt \<noteq> 0" using 0(2) by (auto simp: pt_ok_0)
  then have "pt + 8 * PX 0 va \<noteq> 0" using entry_page(3) PX_less by blast
  then show ?case using 0 grows_refl [OF 0(2)] by fastforce
next
  case (Suc l)
  have step: "\<exists>a s' used fl'. walk_levels (Suc l) s pt va True = Inr (a, s') \<and> fl = used @ fl' \<and>
      kinv kend fl' s' \<and> grows kend (Suc l) pt used s s' \<and> length used \<le> l \<and>
      (if a = 0 then fl' = [] \<and> length used < l else \<exists>t. ltab (mem s') (Suc l) pt va = Some t \<and> a = t + 8 * PX 0 va)"
    if k: "kinv kend fl s" and ok: "pt_ok (mem s) (Suc l) pt"
      and d: "set fl \<inter> set (tpages (mem s) (Suc l) pt) = {}"
      and v: "is_V (ent (mem s) pt (PX (Suc l) va))" for s :: "'z kmem_scheme" and fl
  proof -
    let ?e = "ent (mem s) pt (PX (Suc l) va)"
    have v': "is_V (ent (mem s) pt (of_nat (unat (PX (Suc l) va))))" using v by simp
    have "set (children (mem s) l pt (unat (PX (Suc l) va))) \<subseteq> set (tpages (mem s) (Suc l) pt)"
      unfolding set_tpages_Suc using PX_of_nat(2) by blast
    then have "set fl \<inter> set (tpages (mem s) l (PTE2PA ?e)) = {}" using d v by auto
    moreover have "pt_ok (mem s) l (PTE2PA ?e)" using pt_ok_child [OF ok PX_of_nat(2) v'] by simp
    ultimately obtain a s' used fl' where r: "walk_levels l s (PTE2PA ?e) va True = Inr (a, s')"
      "fl = used @ fl'" "kinv kend fl' s'" "grows kend l (PTE2PA ?e) used s s'"
      "length used \<le> l" "if a = 0 then fl' = [] \<and> length used < l else \<exists>t. ltab (mem s') l (PTE2PA ?e) va = Some t \<and> a = t + 8 * PX 0 va"
      using Suc.IH [OF k] by blast
    have u: "set used \<inter> set (tpages (mem s) (Suc l) pt) = {}" using d r(2) by auto
    have g: "grows kend (Suc l) pt used s s'"
      using grows_lift [OF ok PX_of_nat(2) v' _ u] r(4) by simp
    have "pt \<notin> set (children (mem s) l pt (unat (PX (Suc l) va)))"
      using pt_ok_children(1) [OF ok PX_of_nat(2)] by blast
    then have "same_page pt (mem s) (mem s')" using r(4) u v by (auto simp: grows_def)
    then have "ent (mem s') pt (PX (Suc l) va) = ?e"
      using ent_same_PX pt_ok_root [OF ok] by blast
    then have lt: "ltab (mem s') (Suc l) pt va = ltab (mem s') l (PTE2PA ?e) va" using v by simp
    have "walk_levels (Suc l) s pt va True = Inr (a, s')"
      using r(1) v by (simp add: Let_def is_V_def ent_def)
    moreover have "if a = 0 then fl' = [] \<and> length used < l else \<exists>t. ltab (mem s') (Suc l) pt va = Some t \<and> a = t + 8 * PX 0 va"
      using r(6) unfolding lt .
    ultimately show ?thesis using r(2,3,5) g by (intro exI conjI)
  qed
  show ?case
  proof (cases "is_V (ent (mem s) pt (PX (Suc l) va))")
    case True
    then obtain a s' used fl' where "walk_levels (Suc l) s pt va True = Inr (a, s')" "fl = used @ fl'"
      "kinv kend fl' s'" "grows kend (Suc l) pt used s s'" "length used \<le> l"
      "if a = 0 then fl' = [] \<and> length used < l
       else \<exists>t. ltab (mem s') (Suc l) pt va = Some t \<and> a = t + 8 * PX 0 va"
      using step Suc.prems by blast
    moreover from this(5) have "length used \<le> Suc l" by simp
    moreover have "if a = 0 then fl' = [] \<and> length used < Suc l
       else \<exists>t. ltab (mem s') (Suc l) pt va = Some t \<and> a = t + 8 * PX 0 va"
      using calculation by (simp split: if_splits)
    ultimately show ?thesis by (intro exI conjI)
  next
    case n: False
    show ?thesis
    proof (cases fl)
      case Nil
      then have "walk_levels (Suc l) s pt va True = Inr (0, s)"
        using n kalloc_empty [of kend s] Suc.prems(1) by (simp add: Let_def is_V_def ent_def)
      moreover have "fl = [] @ []" using Nil by simp
      ultimately show ?thesis using Suc.prems(1) Nil grows_refl [OF Suc.prems(2), of kend]
        by (metis append_Nil le0 list.size(3) zero_less_Suc)
    next
      case (Cons p fl1)
      obtain s1 where s1: "kalloc s = Inr (p, s1)" and
        s2: "let s2 = s1\<lparr>mem := store64 (memset (mem s1) p 0 4096) (pt + 8 * PX (Suc l) va) (PA2PTE p OR PTE_V)\<rparr>
             in kinv kend fl1 s2 \<and> grows kend (Suc l) pt [p] s s2 \<and>
               ent (mem s2) pt (PX (Suc l) va) = PA2PTE p OR PTE_V"
        using alloc_table Suc.prems n unfolding Cons by metis
      define s2 where "s2 = s1\<lparr>mem := store64 (memset (mem s1) p 0 4096) (pt + 8 * PX (Suc l) va) (PA2PTE p OR PTE_V)\<rparr>"
      have k2: "kinv kend fl1 s2" and g2: "grows kend (Suc l) pt [p] s s2"
        and e2: "ent (mem s2) pt (PX (Suc l) va) = PA2PTE p OR PTE_V"
        using s2 by (simp_all add: s2_def Let_def)
      have p: "page_ok kend p" "p \<notin> set fl1" "p \<noteq> 0" using Suc.prems(1) page_ok_nonzero by (auto simp: Cons kinv_def)
      have "set fl1 \<inter> set (tpages (mem s2) (Suc l) pt) = {}"
        using g2 p(2) Suc.prems(3) unfolding Cons grows_def by auto
      then obtain a s' used fl' where r: "walk_levels (Suc l) s2 pt va True = Inr (a, s')"
        "fl1 = used @ fl'" "kinv kend fl' s'" "grows kend (Suc l) pt used s2 s'"
        "length used \<le> l" "if a = 0 then fl' = [] \<and> length used < l else \<exists>t. ltab (mem s') (Suc l) pt va = Some t \<and> a = t + 8 * PX 0 va"
        using step [OF k2] g2 e2 by (auto simp: grows_def)
      have w: "walk_levels (Suc l) s pt va True = walk_levels (Suc l) s2 pt va True"
        using n e2 s1 p(1,3) by (simp add: Let_def is_V_def ent_def s2_def [symmetric] page_ok_aligned)
           (simp add: s2_def PA2PTE_flag_test PTE2PA_PA2PTE page_ok_aligned page_aligned_alt [symmetric] PTE_V_def)
      have g: "grows kend (Suc l) pt ([p] @ used) s s'"
        by (rule grows_trans [OF g2 r(4)]) (use p r(2) in auto)
      have "fl = ([p] @ used) @ fl'" using Cons r(2) by simp
      moreover have "length ([p] @ used) \<le> Suc l" using r(5) by simp
      moreover have "if a = 0 then fl' = [] \<and> length ([p] @ used) < Suc l
        else \<exists>t. ltab (mem s') (Suc l) pt va = Some t \<and> a = t + 8 * PX 0 va"
        using r(6) by (simp split: if_splits)
      ultimately show ?thesis using r(1) [folded w] r(3) g by (intro exI conjI)
    qed
  qed
qed

end
