(* ===== verification/Uvm.thy ===== *)
theory Uvm
  imports Pagetable
begin

text \<open>
  User address spaces: what the operations of \<open>kernel/vm.c\<close> do to the map of a page table,
  to the pages behind it and to their reference counts. The copy-on-write pair is
  \<open>uvmcopy\<close> (fork shares every page read-only) and \<open>removecopy\<close> (a write gets a private
  copy); \<open>copyin\<close> and \<open>copyout\<close> read and write the user's bytes.
\<close>

section \<open>Address spaces\<close>

definition pte_at :: "'z kmem_scheme \<Rightarrow> uint64 \<Rightarrow> uint64 \<Rightarrow> uint64" where
  "pte_at s pt va = ptval (mem s) 2 pt va"

abbreviation tables :: "'z kmem_scheme \<Rightarrow> uint64 \<Rightarrow> uint64 set" where
  "tables s pt \<equiv> set (tpages (mem s) 2 pt)"

definition vinv :: "uint64 \<Rightarrow> uint64 list \<Rightarrow> uint64 \<Rightarrow> 'z kmem_scheme \<Rightarrow> bool" where
  "vinv kend fl pt s \<longleftrightarrow> kinv kend fl s \<and> pt_ok (mem s) 2 pt \<and> set fl \<inter> tables s pt = {}"

lemma walk_find:
  assumes "pt_ok (mem s) 2 pt" "va < MAXVA"
  shows "(walk s pt va False = Inr (0, s) \<and> ltab (mem s) 2 pt va = None \<and> pte_at s pt va = 0) \<or>
    (\<exists>t. walk s pt va False = Inr (t + 8 * PX 0 va, s) \<and> ltab (mem s) 2 pt va = Some t \<and>
       t + 8 * PX 0 va \<noteq> 0 \<and> load64 (mem s) (t + 8 * PX 0 va) = pte_at s pt va)"
proof (cases "ltab (mem s) 2 pt va")
  case None
  then show ?thesis using assms(2) by (simp add: walk_def walk_noalloc pte_at_def ptval_def)
next
  case (Some t)
  then have "page_aligned t \<and> t \<noteq> 0" using assms(1) ltab_tpages pt_ok_aligned by blast
  then have "t + 8 * PX 0 va \<noteq> 0" using entry_page(3) PX_less by blast
  then show ?thesis
    using Some assms(2) by (simp add: walk_def walk_noalloc pte_at_def ptval_def ent_def not_le [symmetric])
qed

lemma walk_valid:
  assumes "pt_ok (mem s) 2 pt" "va < MAXVA" "is_V (pte_at s pt va)"
  obtains t where "walk s pt va False = Inr (t + 8 * PX 0 va, s)" "ltab (mem s) 2 pt va = Some t"
    "t + 8 * PX 0 va \<noteq> 0" "load64 (mem s) (t + 8 * PX 0 va) = pte_at s pt va"
  using walk_find [OF assms(1,2)] assms(3) by (auto simp: is_V_def)

text \<open>What a store of an entry does to an address space.\<close>

lemma set_pte:
  assumes v: "vinv kend fl pt s" and va: "va < MAXVA" and lt: "ltab (mem s) 2 pt va = Some t"
    and s': "s' = s\<lparr>mem := store64 (mem s) (t + 8 * PX 0 va) e\<rparr>"
  shows "vinv kend fl pt s'" "tables s' pt = tables s pt" "agree_off t (mem s) (mem s')"
    "t \<in> tables s pt" "refs s' = refs s"
    "vb < MAXVA \<Longrightarrow> pte_at s' pt vb = (if PGROUNDDOWN vb = PGROUNDDOWN va then e else pte_at s pt vb)"
proof -
  have ok: "pt_ok (mem s) 2 pt" using v by (simp add: vinv_def)
  note tree = store_leaf_tree [OF ok lt PX_less [of 0 va] refl, of e]
  show t: "t \<in> tables s pt" using lt by (rule ltab_tpages)
  show ag: "agree_off t (mem s) (mem s')" using tree(1) by (simp add: s')
  show tb: "tables s' pt = tables s pt" using tree(2) by (simp add: s')
  have "\<forall>q \<in> set fl. same_page q (mem s) (mem s')"
    using v t agree_off_same [OF ag] unfolding vinv_def by (metis disjoint_iff)
  then have "kinv kend fl s'" using v kinv_mem [of kend fl s] by (simp add: vinv_def s')
  then show "vinv kend fl pt s'" using v tb tree(5) by (simp add: vinv_def s')
  show "refs s' = refs s" by (simp add: s' refs_def fun_eq_iff)
  show "vb < MAXVA \<Longrightarrow> pte_at s' pt vb = (if PGROUNDDOWN vb = PGROUNDDOWN va then e else pte_at s pt vb)"
    using ptval_store_leaf [OF ok lt va] by (simp add: pte_at_def s')
qed

text \<open>An address space none of whose table pages changed.\<close>

lemma vinv_frame:
  assumes "vinv kend fl pt s" "kinv kend fl' s'" "set fl' \<inter> tables s pt = {}"
    "\<forall>q \<in> tables s pt. same_page q (mem s) (mem s')"
  shows "vinv kend fl' pt s'" "pte_at s' pt va = pte_at s pt va" "tables s' pt = tables s pt"
    "ltab (mem s') 2 pt va = ltab (mem s) 2 pt va"
  using assms subtree_cong [of "mem s" 2 pt "mem s'"] by (auto simp: vinv_def pte_at_def)


section \<open>Copy on write\<close>

lemma memmove_page:
  assumes "page_ok kend p" "page_ok kend q"
  shows "memmove m p q 4096 = copy_bytes m p q 4096"
  using assms by (intro memmove_copy_bytes) (simp_all add: page_ok_def PHYSTOP_def word_less_nat_alt)

lemma copy_page:
  assumes "page_aligned p"
  shows "agree_off p m (copy_bytes m p q 4096)" "unat off < 4096 \<Longrightarrow> copy_bytes m p q 4096 (p + off) = m (q + off)"
  using assms by (simp_all add: agree_off_def copy_bytes_def in_page_range in_range_def)

lemma in_page_offset:
  assumes "page_aligned p" "unat off < 4096"
  shows "in_page p (p + off)"
  using assms by (simp add: in_page_range in_range_def)

lemma kfree_drop:
  assumes "kinv kend fl s" "page_ok kend p" "1 \<le> refs s p"
  shows "\<exists>s'. kfree s p = Inr s' \<and> kinv kend (if refs s p = 1 then p # fl else fl) s' \<and>
    refs s' p = refs s p - 1 \<and> (\<forall>q. page_ok kend q \<and> q \<noteq> p \<longrightarrow> refs s' q = refs s q) \<and>
    (\<forall>q. q \<noteq> p \<longrightarrow> same_page q (mem s) (mem s')) \<and> (refs s p \<noteq> 1 \<longrightarrow> mem s' = mem s)"
proof (cases "refs s p = 1")
  case True
  then show ?thesis using kfree_last [OF assms(1,2)] agree_off_same by fastforce
next
  case False
  then have "2 \<le> refs s p" using assms(3) by simp
  then show ?thesis using kfree_shared [OF assms(1,2)] False by (fastforce simp: same_page_def)
qed

lemma removecopy_private:
  assumes v: "vinv kend (p # fl) pt s" and va: "va < MAXVA"
    and guard: "\<not> (sz \<noteq> 0 \<and> PGROUNDDOWN va > sz - PGSIZE \<and> PGROUNDDOWN va < sz)"
    and e: "e = pte_at s pt va" "is_V e" "e AND PTE_COW \<noteq> 0"
    and pa: "page_ok kend (PTE2PA e)" "1 \<le> refs s (PTE2PA e)" "PTE2PA e \<notin> tables s pt"
  shows "\<exists>s'. removecopy s pt va sz = Inr (0, s') \<and>
    vinv kend (if refs s (PTE2PA e) = 1 then PTE2PA e # fl else fl) pt s' \<and>
    (\<forall>vb < MAXVA. pte_at s' pt vb =
       (if PGROUNDDOWN vb = PGROUNDDOWN va then PA2PTE p OR (PTE_FLAGS e AND NOT PTE_COW OR PTE_W)
        else pte_at s pt vb)) \<and>
    (\<forall>off. unat off < 4096 \<longrightarrow> mem s' (p + off) = mem s (PTE2PA e + off)) \<and>
    (\<forall>q. q \<noteq> p \<and> q \<notin> tables s pt \<and> (q = PTE2PA e \<longrightarrow> refs s q \<noteq> 1) \<longrightarrow> same_page q (mem s) (mem s')) \<and>
    tables s' pt = tables s pt \<and>
    refs s' p = 1 \<and> refs s' (PTE2PA e) = refs s (PTE2PA e) - 1 \<and>
    (\<forall>q. page_ok kend q \<and> q \<noteq> p \<and> q \<noteq> PTE2PA e \<longrightarrow> refs s' q = refs s q)"
proof -
  let ?pa = "PTE2PA e"
  let ?va = "PGROUNDDOWN va"
  have ok: "pt_ok (mem s) 2 pt" and k: "kinv kend (p # fl) s"
    and d: "set (p # fl) \<inter> tables s pt = {}" using v by (auto simp: vinv_def)
  have p: "page_ok kend p" "page_aligned p" "p \<noteq> 0" "p \<notin> tables s pt" "p \<notin> set fl" "refs s p = 0"
    using k d page_ok_nonzero by (auto simp: kinv_def)
  have pafl: "?pa \<notin> set (p # fl)" using k pa(2) by (auto simp: kinv_def)
  have vA: "?va < MAXVA" using va PGROUNDDOWN_le le_less_trans by blast
  have ev: "pte_at s pt ?va = e" by (simp add: e(1) pte_at_def ptval_PGROUNDDOWN)
  obtain t where w: "walk s pt ?va False = Inr (t + 8 * PX 0 ?va, s)" "ltab (mem s) 2 pt ?va = Some t"
    "t + 8 * PX 0 ?va \<noteq> 0" "load64 (mem s) (t + 8 * PX 0 ?va) = e"
    using walk_valid [OF ok vA] e(2) ev by metis
  obtain s1 where s1: "kalloc s = Inr (p, s1)" "kinv kend fl s1" "refs s1 p = 1"
    "\<forall>q. page_ok kend q \<and> q \<noteq> p \<longrightarrow> refs s1 q = refs s q" "agree_off p (mem s) (mem s1)"
    using kalloc_cons [OF k] by blast
  define m2 where "m2 = copy_bytes (mem s1) p ?pa 4096"
  have a2: "agree_off p (mem s) m2"
    unfolding m2_def using s1(5) copy_page(1) [OF p(2)] by (rule agree_off_trans)
  have keep2: "same_page q (mem s) m2" if "q \<noteq> p" for q using agree_off_same [OF a2 that] .
  have body: "m2 (p + off) = mem s (?pa + off)" if "unat off < 4096" for off
    using copy_page(2) [OF p(2) that] agree_off_same [OF s1(5)] in_page_offset [of ?pa off] that pafl
    by (auto simp: m2_def same_page_def)
  define s2 where "s2 = s1\<lparr>mem := m2\<rparr>"
  have k2: "kinv kend fl s2"
    unfolding s2_def
  proof (rule kinv_mem [OF s1(2)], intro ballI)
    fix q assume "q \<in> set fl"
    then show "same_page q (mem s1) m2"
      unfolding m2_def using agree_off_same [OF copy_page(1) [OF p(2)]] p(5) by metis
  qed
  have "\<forall>q \<in> tables s pt. same_page q (mem s) (mem s2)"
    using keep2 p(4) unfolding s2_def by (metis kmem.select_convs(1) kmem.surjective kmem.update_convs(1))
  note fr2 = vinv_frame [OF v k2 _ this]
  have v2: "vinv kend fl pt s2" and p2: "pte_at s2 pt vb = pte_at s pt vb" and t2: "tables s2 pt = tables s pt" for vb
    using fr2 d by auto
  have lt2: "ltab (mem s2) 2 pt ?va = Some t"
    using fr2(4) d w(2) by simp
  define e' where "e' = PA2PTE p OR (PTE_FLAGS e AND NOT PTE_COW OR PTE_W)"
  define s3 where "s3 = s2\<lparr>mem := store64 (mem s2) (t + 8 * PX 0 ?va) e'\<rparr>"
  note sp = set_pte [OF v2 vA lt2 s3_def]
  have r3: "refs s3 = refs s1" by (simp add: s3_def s2_def refs_def fun_eq_iff)
  have rpa: "refs s3 ?pa = refs s ?pa" using s1(4) pa(1) pafl by (simp add: r3)
  obtain s4 where s4: "kfree s3 ?pa = Inr s4"
    "kinv kend (if refs s3 ?pa = 1 then ?pa # fl else fl) s4" "refs s4 ?pa = refs s3 ?pa - 1"
    "\<forall>q. page_ok kend q \<and> q \<noteq> ?pa \<longrightarrow> refs s4 q = refs s3 q"
    "\<forall>q. q \<noteq> ?pa \<longrightarrow> same_page q (mem s3) (mem s4)" "refs s3 ?pa \<noteq> 1 \<longrightarrow> mem s4 = mem s3"
    using kfree_drop [OF _ pa(1), of fl s3] sp(1) pa(2) unfolding rpa vinv_def by blast
  have t: "t \<in> tables s pt" "t \<noteq> p" using ltab_tpages [OF w(2)] p(4) by auto
  have tal: "page_aligned t" using t(1) ok pt_ok_aligned by blast
  have l1: "load64 (mem s1) (t + 8 * PX 0 ?va) = e"
    using ent_same_PX [OF agree_off_same [OF s1(5) t(2)] tal] w(4) by (simp add: ent_def)
  have vA': "\<not> MAXVA \<le> ?va" using vA by simp
  have run: "removecopy s pt va sz = Inr (0, s4)"
    using vA' guard e(2,3) p(3) w(3) s4(1)
    by (simp add: removecopy_def Let_def w(1,4) s1(1) l1 memmove_page [OF p(1) pa(1)] is_V_def
        m2_def [symmetric] s2_def [symmetric] e'_def [symmetric] del: PX_PGROUNDDOWN)
      (simp add: s3_def s2_def)
  have keep3: "same_page q (mem s) (mem s3)" if "q \<noteq> p" "q \<notin> tables s pt" for q
    using keep2 [OF that(1)] agree_off_same [OF sp(3), of q] t that(2) same_page_trans by (auto simp: s2_def)
  have keep4: "same_page q (mem s) (mem s4)"
    if "q \<noteq> p" "q \<notin> tables s pt" "q = ?pa \<longrightarrow> refs s q \<noteq> 1" for q
    using keep3 [OF that(1,2)] that(3) s4(5,6) same_page_trans unfolding rpa by metis
  have bytes: "mem s4 (p + off) = mem s (?pa + off)" if "unat off < 4096" for off
  proof -
    have "p \<noteq> t" "p \<noteq> ?pa" using t pafl by auto
    then have "mem s4 (p + off) = m2 (p + off)"
      using agree_off_same [OF sp(3), of p] s4(5) in_page_offset [OF p(2) that]
      by (simp add: same_page_def s2_def)
    then show ?thesis using body [OF that] by simp
  qed
  have same4: "\<forall>q \<in> tables s3 pt. same_page q (mem s3) (mem s4)"
    using s4(5) pa(3) sp(2) t2 by metis
  have "set (if refs s3 ?pa = 1 then ?pa # fl else fl) \<inter> tables s3 pt = {}"
    using d pa(3) sp(2) t2 by auto
  note fr4 = vinv_frame [OF sp(1) s4(2) this same4]
  have ptes: "pte_at s4 pt vb = (if PGROUNDDOWN vb = ?va then e' else pte_at s pt vb)"
    if "vb < MAXVA" for vb
    using fr4(2) sp(6) [OF that] p2 by simp
  have "refs s4 p = 1" using s4(4) p(1) pafl s1(3) r3 by auto
  moreover have "refs s4 q = refs s q" if "page_ok kend q" "q \<noteq> p" "q \<noteq> ?pa" for q
    using that s4(4) s1(4) r3 by auto
  ultimately show ?thesis
    using run fr4(1,3) ptes bytes keep4 s4(3) sp(2) t2 rpa unfolding e'_def by auto
qed

section \<open>Mapping pages\<close>

text \<open>
  \<open>vstep kend pt used s s'\<close>: only table pages of \<open>pt\<close> were written, the pages \<open>used\<close> became
  table pages, and no other page changed its reference count.
\<close>

definition vstep :: "uint64 \<Rightarrow> uint64 \<Rightarrow> uint64 list \<Rightarrow> 'z kmem_scheme \<Rightarrow> 'z kmem_scheme \<Rightarrow> bool" where
  "vstep kend pt used s s' \<longleftrightarrow>
     tables s' pt = tables s pt \<union> set used \<and>
     (\<forall>q. q \<notin> tables s pt \<union> set used \<longrightarrow> same_page q (mem s) (mem s')) \<and>
     (\<forall>q. page_ok kend q \<and> q \<notin> set used \<longrightarrow> refs s' q = refs s q) \<and>
     s' = s\<lparr>mem := mem s', freelist := freelist s', nump_using := nump_using s'\<rparr>"

lemma vstep_refl [simp]: "vstep kend pt [] s s"
  by (simp add: vstep_def same_page_def)

lemma vstep_trans:
  assumes "vstep kend pt u1 s s1" "vstep kend pt u2 s1 s2"
  shows "vstep kend pt (u1 @ u2) s s2"
proof -
  have f: "s2 = s\<lparr>mem := mem s2, freelist := freelist s2, nump_using := nump_using s2\<rparr>"
    using assms unfolding vstep_def by (blast intro: kmem_frame_trans)
  show ?thesis using assms f unfolding vstep_def by (auto intro: same_page_trans)
qed

lemma vstep_grows: "grows kend 2 pt used s s' \<Longrightarrow> vstep kend pt used s s'"
  unfolding grows_def vstep_def by blast

lemma vstep_set_pte:
  assumes "vinv kend fl pt s" "va < MAXVA" "ltab (mem s) 2 pt va = Some t"
  shows "vstep kend pt [] s (s\<lparr>mem := store64 (mem s) (t + 8 * PX 0 va) e\<rparr>)"
  using set_pte [where e = e, OF assms refl] agree_off_same
  unfolding vstep_def by (simp add: refs_def) metis

lemma walk_alloc:
  assumes v: "vinv kend fl pt s" and va: "va < MAXVA"
  shows "\<exists>a s' used fl'. walk s pt va True = Inr (a, s') \<and> fl = used @ fl' \<and> vinv kend fl' pt s' \<and>
    vstep kend pt used s s' \<and> (\<forall>vb. pte_at s' pt vb = pte_at s pt vb) \<and> length used \<le> 2 \<and>
    (if a = 0 then fl' = [] \<and> length used < 2
     else \<exists>t. ltab (mem s') 2 pt va = Some t \<and> a = t + 8 * PX 0 va \<and> load64 (mem s') a = pte_at s pt va)"
proof -
  have k: "kinv kend fl s" "pt_ok (mem s) 2 pt" "set fl \<inter> tables s pt = {}" using v by (auto simp: vinv_def)
  obtain a s' used fl' where r: "walk_levels 2 s pt va True = Inr (a, s')" "fl = used @ fl'"
    "kinv kend fl' s'" "grows kend 2 pt used s s'" "length used \<le> 2"
    "if a = 0 then fl' = [] \<and> length used < 2 else \<exists>t. ltab (mem s') 2 pt va = Some t \<and> a = t + 8 * PX 0 va"
    using walk_levels_alloc [OF k] by blast
  have "distinct fl" using k(1) by (simp add: kinv_def)
  then have "vinv kend fl' pt s'"
    using r(2-4) k(3) unfolding vinv_def grows_def by auto
  moreover have p: "pte_at s' pt vb = pte_at s pt vb" for vb
    using r(4) by (simp add: pte_at_def grows_def)
  moreover have "load64 (mem s') a = pte_at s pt va"
    if "ltab (mem s') 2 pt va = Some t" "a = t + 8 * PX 0 va" for t
    using that p [of va] by (simp add: pte_at_def ptval_def ent_def)
  moreover have "walk s pt va True = Inr (a, s')" using va r(1) by (simp add: walk_def)
  moreover have "if a = 0 then fl' = [] \<and> length used < 2
     else \<exists>t. ltab (mem s') 2 pt va = Some t \<and> a = t + 8 * PX 0 va \<and> load64 (mem s') a = pte_at s pt va"
    using r(6) calculation(3) by (auto split: if_splits)
  ultimately show ?thesis using r(2,5) vstep_grows [OF r(4)] by (intro exI conjI allI)
qed

definition map_upd :: "nat \<Rightarrow> uint64 \<Rightarrow> uint64 \<Rightarrow> uint64 \<Rightarrow> (uint64 \<Rightarrow> uint64) \<Rightarrow> uint64 \<Rightarrow> uint64" where
  "map_upd k a pa perm f vb =
     (if \<exists>j < k. PGROUNDDOWN vb = a + of_nat j * PGSIZE
      then PA2PTE (pa + (PGROUNDDOWN vb - a)) OR perm OR PTE_V else f vb)"

lemma map_upd_0 [simp]: "map_upd 0 a pa perm f = f"
  by (simp add: map_upd_def fun_eq_iff)

lemma map_upd_Suc:
  assumes "\<And>vb. vb < MAXVA \<Longrightarrow> g vb = (if PGROUNDDOWN vb = a then PA2PTE pa OR perm OR PTE_V else f vb)"
    "vb < MAXVA"
  shows "map_upd k (a + PGSIZE) (pa + PGSIZE) perm g vb = map_upd (Suc k) a pa perm f vb"
proof -
  have "(\<exists>j < Suc k. PGROUNDDOWN vb = a + of_nat j * PGSIZE) \<longleftrightarrow>
      PGROUNDDOWN vb = a \<or> (\<exists>j < k. PGROUNDDOWN vb = a + PGSIZE + of_nat j * PGSIZE)"
    unfolding Ex_less_Suc2 by (simp add: algebra_simps)
  then show ?thesis using assms by (auto simp: map_upd_def algebra_simps)
qed

lemma map_page:
  assumes v: "vinv kend fl pt s" and a: "a < MAXVA" "page_aligned a" and n: "\<not> is_V (pte_at s pt a)"
  shows "\<exists>pte s1 s2 used fl'. walk s pt a True = Inr (pte, s1) \<and> fl = used @ fl' \<and> vstep kend pt used s s2 \<and>
    vinv kend fl' pt s2 \<and> length used \<le> 2 \<and>
    (if pte = 0 then s2 = s1 \<and> fl' = [] \<and> length used < 2 \<and> (\<forall>vb. pte_at s2 pt vb = pte_at s pt vb)
     else load64 (mem s1) pte AND PTE_V = 0 \<and> s2 = s1\<lparr>mem := store64 (mem s1) pte e\<rparr> \<and>
       (\<forall>vb < MAXVA. pte_at s2 pt vb = (if PGROUNDDOWN vb = a then e else pte_at s pt vb)))"
proof -
  obtain pte s1 used fl' where w: "walk s pt a True = Inr (pte, s1)" "fl = used @ fl'" "vinv kend fl' pt s1"
    "vstep kend pt used s s1" "\<forall>vb. pte_at s1 pt vb = pte_at s pt vb" "length used \<le> 2"
    "if pte = 0 then fl' = [] \<and> length used < 2
     else \<exists>t. ltab (mem s1) 2 pt a = Some t \<and> pte = t + 8 * PX 0 a \<and> load64 (mem s1) pte = pte_at s pt a"
    using walk_alloc [OF v a(1)] by blast
  show ?thesis
  proof (cases "pte = 0")
    case True
    then show ?thesis using w by (intro exI [of _ pte] exI [of _ s1] exI [of _ used] exI [of _ fl']) auto
  next
    case False
    then obtain t where t: "ltab (mem s1) 2 pt a = Some t" "pte = t + 8 * PX 0 a"
      "load64 (mem s1) pte = pte_at s pt a" using w(7) by auto
    let ?s2 = "s1\<lparr>mem := store64 (mem s1) pte e\<rparr>"
    note sp = set_pte [where e = e, OF w(3) a(1) t(1) refl, folded t(2)]
    have "vstep kend pt (used @ []) s ?s2"
      unfolding t(2) by (rule vstep_trans [OF w(4) vstep_set_pte [OF w(3) a(1) t(1)]])
    moreover have "pte_at ?s2 pt vb = (if PGROUNDDOWN vb = a then e else pte_at s pt vb)" if "vb < MAXVA" for vb
      using sp(6) [OF that] w(5) a(2) by (simp add: page_aligned_alt)
    moreover have "load64 (mem s1) pte AND PTE_V = 0" using t(3) n by (simp add: is_V_def)
    ultimately show ?thesis using w(1,2,6) sp(1) False
      by (intro exI [of _ pte] exI [of _ s1] exI [of _ ?s2] exI [of _ used] exI [of _ fl']) simp
  qed
qed

lemma PGSIZE_steps:
  assumes "page_aligned a" "unat a + Suc n * 4096 < unat MAXVA"
  shows "a < MAXVA" "page_aligned (a + PGSIZE)" "unat (a + PGSIZE) + n * 4096 < unat MAXVA"
    "a + PGSIZE + of_nat n * PGSIZE = a + of_nat (Suc n) * PGSIZE" "a \<noteq> a + of_nat (Suc n) * PGSIZE"
    "page_aligned (a + of_nat (Suc n) * PGSIZE)" "a + of_nat (Suc n) * PGSIZE < MAXVA"
proof -
  have u: "unat (a + PGSIZE) = unat a + 4096"
    using assms(2) by (simp add: PGSIZE_def MAXVA_def word64_no_wrap_add)
  show "a < MAXVA" using assms(2) by (simp add: word_less_nat_alt)
  show "page_aligned (a + PGSIZE)" using assms(1) by (simp add: PGSIZE_def page_aligned_add)
  show "unat (a + PGSIZE) + n * 4096 < unat MAXVA" using assms(2) u by simp
  show eq: "a + PGSIZE + of_nat n * PGSIZE = a + of_nat (Suc n) * PGSIZE" by (simp add: algebra_simps)
  have "Suc n * 4096 < 2 ^ 64" using assms(2) by (simp add: MAXVA_def)
  then have "unat (of_nat (Suc n * 4096) :: uint64) = Suc n * 4096" by (rule unat_of_nat64)
  then have x: "unat (of_nat (Suc n) * PGSIZE) = Suc n * 4096" by (simp add: PGSIZE_def)
  then have y: "unat (a + of_nat (Suc n) * PGSIZE) = unat a + Suc n * 4096"
    using assms(2) by (subst word64_no_wrap_add) (simp_all add: MAXVA_def del: of_nat_Suc)
  then show "a + of_nat (Suc n) * PGSIZE < MAXVA" using assms(2) by (simp add: word_less_nat_alt)
  obtain k where "unat a = 4096 * k" using assms(1) by (auto simp: page_aligned_unat)
  with y have "unat (a + of_nat (Suc n) * PGSIZE) = 4096 * (k + Suc n)" by simp
  then show "page_aligned (a + of_nat (Suc n) * PGSIZE)" by (simp add: page_aligned_unat del: of_nat_Suc)
  have "(of_nat (Suc n) * PGSIZE) \<noteq> 0" using x by (metis mult_eq_0_iff nat.distinct(1) unsigned_0 zero_neq_numeral)
  then show "a \<noteq> a + of_nat (Suc n) * PGSIZE" by (simp del: of_nat_Suc)
qed

lemma mappages_loop_ok:
  fixes s :: "'z kmem_scheme"
  assumes "vinv kend fl pt s" "page_aligned a" "unat a + n * 4096 < unat MAXVA"
    "\<forall>j \<le> n. \<not> is_V (pte_at s pt (a + of_nat j * PGSIZE))"
  shows "\<exists>r s' used fl' k. mappages_loop (Suc n) s pt a (a + of_nat n * PGSIZE) pa perm = Inr (r, s') \<and>
    fl = used @ fl' \<and> vinv kend fl' pt s' \<and> vstep kend pt used s s' \<and>
    (\<forall>vb < MAXVA. pte_at s' pt vb = map_upd k a pa perm (pte_at s pt) vb) \<and>
    length used \<le> 2 * Suc n \<and>
    (r = 0 \<and> k = Suc n \<or> r = -1 \<and> k \<le> n \<and> fl' = [] \<and> length used < 2 * Suc n)"
  using assms
proof (induction n arbitrary: s fl a pa)
  case (0 s fl a pa)
  have a: "a < MAXVA" using 0(3) by (simp add: word_less_nat_alt)
  obtain pte s1 s2 used fl' where m: "walk s pt a True = Inr (pte, s1)" "fl = used @ fl'" "vstep kend pt used s s2"
    "vinv kend fl' pt s2" "length used \<le> 2"
    "if pte = 0 then s2 = s1 \<and> fl' = [] \<and> length used < 2 \<and> (\<forall>vb. pte_at s2 pt vb = pte_at s pt vb)
     else load64 (mem s1) pte AND PTE_V = 0 \<and> s2 = s1\<lparr>mem := store64 (mem s1) pte (PA2PTE pa OR perm OR PTE_V)\<rparr> \<and>
       (\<forall>vb < MAXVA. pte_at s2 pt vb = (if PGROUNDDOWN vb = a then PA2PTE pa OR perm OR PTE_V else pte_at s pt vb))"
    using map_page [OF 0(1) a 0(2), of "PA2PTE pa OR perm OR PTE_V"] 0(4) by (simp; blast)
  show ?case
  proof (cases "pte = 0")
    case True
    show ?thesis
      by (rule exI [of _ "-1"], rule exI [of _ s2], rule exI [of _ used], rule exI [of _ fl'], rule exI [of _ 0]) (use m True in auto)
  next
    case False
    show ?thesis
      by (rule exI [of _ 0], rule exI [of _ s2], rule exI [of _ used], rule exI [of _ fl'], rule exI [of _ 1]) (use m False in \<open>auto simp: map_upd_def\<close>)
  qed
next
  case (Suc n s fl a pa)
  note st = PGSIZE_steps [OF Suc.prems(2,3)]
  have n0: "\<not> is_V (pte_at s pt a)" using Suc.prems(4) by (metis add.right_neutral le0 mult_zero_left of_nat_0)
  obtain pte s1 s2 used fl' where m: "walk s pt a True = Inr (pte, s1)" "fl = used @ fl'" "vstep kend pt used s s2"
    "vinv kend fl' pt s2" "length used \<le> 2"
    "if pte = 0 then s2 = s1 \<and> fl' = [] \<and> length used < 2 \<and> (\<forall>vb. pte_at s2 pt vb = pte_at s pt vb)
     else load64 (mem s1) pte AND PTE_V = 0 \<and> s2 = s1\<lparr>mem := store64 (mem s1) pte (PA2PTE pa OR perm OR PTE_V)\<rparr> \<and>
       (\<forall>vb < MAXVA. pte_at s2 pt vb = (if PGROUNDDOWN vb = a then PA2PTE pa OR perm OR PTE_V else pte_at s pt vb))"
    using map_page [OF Suc.prems(1) st(1) Suc.prems(2) n0, of "PA2PTE pa OR perm OR PTE_V"] by blast
  show ?case
  proof (cases "pte = 0")
    case True
    show ?thesis
      by (rule exI [of _ "-1"], rule exI [of _ s2], rule exI [of _ used], rule exI [of _ fl'], rule exI [of _ 0]) (use m True in auto)
  next
    case False
    note new = m(6) [unfolded if_not_P [OF False], THEN conjunct2, THEN conjunct2, rule_format]
    have n1: "\<forall>j \<le> n. \<not> is_V (pte_at s2 pt (a + PGSIZE + of_nat j * PGSIZE))"
    proof (intro allI impI)
      fix j assume "j \<le> n"
      then have "unat a + Suc j * 4096 < unat MAXVA" using Suc.prems(3) by simp
      note sj = PGSIZE_steps(4-7) [OF Suc.prems(2) this]
      have "pte_at s2 pt (a + of_nat (Suc j) * PGSIZE) = pte_at s pt (a + of_nat (Suc j) * PGSIZE)"
        using new [OF sj(4)] sj(2,3) by (simp add: page_aligned_alt del: of_nat_Suc)
      then show "\<not> is_V (pte_at s2 pt (a + PGSIZE + of_nat j * PGSIZE))"
        unfolding sj(1) using Suc.prems(4) \<open>j \<le> n\<close> by (simp del: of_nat_Suc)
    qed
    obtain r s' used' fl'' k where ih:
      "mappages_loop (Suc n) s2 pt (a + PGSIZE) (a + PGSIZE + of_nat n * PGSIZE) (pa + PGSIZE) perm = Inr (r, s')"
      "fl' = used' @ fl''" "vinv kend fl'' pt s'" "vstep kend pt used' s2 s'"
      "\<forall>vb < MAXVA. pte_at s' pt vb = map_upd k (a + PGSIZE) (pa + PGSIZE) perm (pte_at s2 pt) vb"
      "length used' \<le> 2 * Suc n"
      "r = 0 \<and> k = Suc n \<or> r = -1 \<and> k \<le> n \<and> fl'' = [] \<and> length used' < 2 * Suc n"
      using Suc.IH [OF m(4) st(2,3) n1, of "pa + PGSIZE"] by blast
    have "mappages_loop (Suc (Suc n)) s pt a (a + of_nat (Suc n) * PGSIZE) pa perm = Inr (r, s')"
      using False m(1,6) st(5) ih(1) unfolding mappages_loop.simps(2) [of "Suc n"] st(4) by (simp add: Let_def)
    moreover have "fl = (used @ used') @ fl''" using m(2) ih(2) by simp
    moreover have "\<forall>vb < MAXVA. pte_at s' pt vb = map_upd (Suc k) a pa perm (pte_at s pt) vb"
      using ih(5) map_upd_Suc [OF new] by simp
    moreover have "r = 0 \<and> Suc k = Suc (Suc n) \<or>
        r = -1 \<and> Suc k \<le> Suc n \<and> fl'' = [] \<and> length (used @ used') < 2 * Suc (Suc n)"
      using ih(7) m(5) by auto
    moreover have "length (used @ used') \<le> 2 * Suc (Suc n)" using ih(6) m(5) by simp
    ultimately show ?thesis using ih(3) vstep_trans [OF m(3) ih(4)] by (intro exI conjI)
  qed
qed

lemma mappages_args:
  assumes "page_aligned va" "unat va + n * 4096 < unat MAXVA"
  shows "mappages s pt va (of_nat (Suc n) * PGSIZE) pa perm =
    mappages_loop (Suc n) s pt va (va + of_nat n * PGSIZE) pa perm"
proof -
  obtain k where k: "unat va = 4096 * k" using assms(1) by (auto simp: page_aligned_unat)
  have b: "4096 * k + n * 4096 < 2 ^ 38" using assms(2) k by (simp add: MAXVA_def)
  have n: "unat (of_nat n * PGSIZE) = n * 4096"
    using b unat_of_nat64 [of "n * 4096"] by (simp add: PGSIZE_def)
  let ?sz = "of_nat (Suc n) * PGSIZE"
  have sz: "unat ?sz = Suc n * 4096"
    using b unat_of_nat64 [of "Suc n * 4096"] by (simp add: PGSIZE_def algebra_simps)
  have last_v: "unat (va + ?sz - 1) = 4096 * (k + n) + 4095"
  proof -
    have s1: "unat (va + ?sz) = 4096 * k + Suc n * 4096"
      using b k sz by (subst word64_no_wrap_add) simp_all
    then have "1 \<le> va + ?sz" by (simp add: word_le_nat_alt)
    then show ?thesis using s1 by (simp add: unat_sub)
  qed
  have "unat (va + of_nat n * PGSIZE) = 4096 * (k + n)"
    using b k n by (subst word64_no_wrap_add) simp_all
  moreover have "(4096 * x + 4095) div 4096 = x" for x :: nat by simp
  note this [of "k + n"]
  ultimately have l: "PGROUNDDOWN (va + ?sz - 1) = va + of_nat n * PGSIZE"
    by (simp add: word_unat_eq_iff unat_PGROUNDDOWN last_v del: of_nat_Suc)
  have "?sz \<noteq> 0" using sz by (metis mult_eq_0_iff nat.distinct(1) unsigned_0 zero_neq_numeral)
  moreover have "unat ((va + of_nat n * PGSIZE - va) div PGSIZE) = n"
    using n by (simp add: unat_div PGSIZE_def)
  ultimately show ?thesis
    unfolding mappages_def Let_def l using assms(1) by (simp add: page_aligned_alt del: of_nat_Suc)
qed

lemma mappages_page:
  assumes "vinv kend fl pt s" "page_aligned va" "va < MAXVA" "\<not> is_V (pte_at s pt va)" "2 \<le> length fl"
  shows "\<exists>s' used fl'. mappages s pt va PGSIZE pa perm = Inr (0, s') \<and> fl = used @ fl' \<and> length used \<le> 2 \<and>
    vinv kend fl' pt s' \<and> vstep kend pt used s s' \<and>
    (\<forall>vb < MAXVA. pte_at s' pt vb =
       (if PGROUNDDOWN vb = va then PA2PTE pa OR perm OR PTE_V else pte_at s pt vb))"
proof -
  have u: "unat va + 0 * 4096 < unat MAXVA" using assms(3) by (simp add: word_less_nat_alt)
  have n: "\<forall>j \<le> 0. \<not> is_V (pte_at s pt (va + of_nat j * PGSIZE))" using assms(4) by simp
  obtain r s' used fl' k where m: "mappages s pt va PGSIZE pa perm = Inr (r, s')" "fl = used @ fl'"
    "vinv kend fl' pt s'" "vstep kend pt used s s'"
    "\<forall>vb < MAXVA. pte_at s' pt vb = map_upd k va pa perm (pte_at s pt) vb" "length used \<le> 2"
    "r = 0 \<and> k = Suc 0 \<or> r = -1 \<and> k \<le> 0 \<and> fl' = [] \<and> length used < 2"
    using mappages_loop_ok [OF assms(1,2) u n, of pa perm] mappages_args [OF assms(2) u, of s pt pa perm]
    by auto
  then have "r = 0" "k = Suc 0" using assms(5) by auto
  then show ?thesis using m by (intro exI [of _ s'] exI [of _ used] exI [of _ fl']) (auto simp: map_upd_def)
qed


section \<open>fork\<close>

definition cow_flags :: "uint64 \<Rightarrow> uint64" where
  "cow_flags e =
     (if PTE_FLAGS e AND PTE_W \<noteq> 0 then (PTE_FLAGS e AND NOT PTE_W) OR PTE_COW else PTE_FLAGS e)"

text \<open>The entry of the parent after the copy, and the entry of the child.\<close>

definition cow_parent :: "uint64 \<Rightarrow> uint64" where
  "cow_parent e = (if PTE_FLAGS e AND PTE_W \<noteq> 0 then PA2PTE (PTE2PA e) OR cow_flags e else e)"

definition cow_child :: "uint64 \<Rightarrow> uint64" where
  "cow_child e = PA2PTE (PTE2PA e) OR cow_flags e OR PTE_V"

lemma flag_bits_PTE_FLAGS [simp]: "flag_bits (PTE_FLAGS e)"
  by (simp add: flag_bits_def PTE_FLAGS_def and.assoc)

lemma flag_bits_cow [simp]: "flag_bits (cow_flags e)"
  by (simp add: cow_flags_def)

lemma cow_same_page: "PTE2PA (cow_parent e) = PTE2PA e" "PTE2PA (cow_child e) = PTE2PA e"
  by (simp_all add: cow_parent_def cow_child_def PTE2PA_PA2PTE or.assoc page_aligned_alt [symmetric])

lemma share_page_ok:
  assumes "kinv kend fl s" "page_ok kend p" "1 \<le> refs s p"
  shows "\<exists>s'. share_page s p = Inr s' \<and> kinv kend fl s' \<and> mem s' = mem s \<and> refs s' p = refs s p + 1 \<and>
    (\<forall>q. page_ok kend q \<and> q \<noteq> p \<longrightarrow> refs s' q = refs s q)"
proof -
  define s' where "s' = s\<lparr>nump_using := (nump_using s)(page_idx p := refs s p + 1)\<rparr>"
  have "in_array (page_idx p)" using assms(2) by (simp add: page_ok_def page_idx_val(2))
  then have run: "share_page s p = Inr s'"
    using assms(3) by (simp add: share_page_def Let_def s'_def refs_def)
  have other: "refs s' q = refs s q" if "page_ok kend q" "q \<noteq> p" for q
    using that page_idx_inj [OF that(1) assms(2)] by (auto simp: refs_def s'_def)
  have self: "refs s' p = refs s p + 1" by (simp add: refs_def s'_def)
  have "1 \<le> refs s' q" if "page_ok kend q" "q \<notin> set fl" for q
    using assms(1,3) other [OF that(1)] self that by (cases "q = p") (auto simp: kinv_def)
  moreover have "refs s' q = 0 \<and> page_ok kend q" if "q \<in> set fl" for q
    using assms other that by (cases "q = p") (auto simp: kinv_def)
  ultimately have "kinv kend fl s'" using assms(1) by (simp add: kinv_def) (simp add: s'_def)
  then show ?thesis using run self other by (auto simp: s'_def)
qed

definition vinv2 :: "uint64 \<Rightarrow> uint64 list \<Rightarrow> uint64 \<Rightarrow> uint64 \<Rightarrow> 'z kmem_scheme \<Rightarrow> bool" where
  "vinv2 kend fl old new s \<longleftrightarrow>
     vinv kend fl old s \<and> vinv kend fl new s \<and> tables s old \<inter> tables s new = {}"

definition copy_ready :: "uint64 \<Rightarrow> uint64 \<Rightarrow> uint64 \<Rightarrow> 'z kmem_scheme \<Rightarrow> uint64 \<Rightarrow> bool" where
  "copy_ready kend old new s i \<longleftrightarrow>
     is_V (pte_at s old i) \<and> \<not> is_V (pte_at s new i) \<and> page_ok kend (PTE2PA (pte_at s old i)) \<and>
     1 \<le> refs s (PTE2PA (pte_at s old i)) \<and> PTE2PA (pte_at s old i) \<notin> tables s old \<union> tables s new"

lemma pte_at_PGROUNDDOWN [simp]: "pte_at s pt (PGROUNDDOWN va) = pte_at s pt va"
  by (simp add: pte_at_def)

lemma copy_entry_step:
  assumes v: "vinv2 kend fl old new s" and i: "i < MAXVA" "page_aligned i" "i < sz"
    and r: "copy_ready kend old new s i" and fl: "2 \<le> length fl" and e: "e = pte_at s old i"
  shows "\<exists>s' used fl'. uvmcopy_loop (Suc fuel) s old new i sz = uvmcopy_loop fuel s' old new (i + PGSIZE) sz \<and>
    fl = used @ fl' \<and> length used \<le> 2 \<and> vinv2 kend fl' old new s' \<and>
    (\<forall>vb < MAXVA. pte_at s' old vb = (if PGROUNDDOWN vb = i then cow_parent e else pte_at s old vb)) \<and>
    (\<forall>vb < MAXVA. pte_at s' new vb = (if PGROUNDDOWN vb = i then cow_child e else pte_at s new vb)) \<and>
    tables s' old = tables s old \<and> tables s' new = tables s new \<union> set used \<and>
    (\<forall>q. q \<notin> tables s old \<union> tables s new \<union> set used \<longrightarrow> same_page q (mem s) (mem s')) \<and>
    (\<forall>q. page_ok kend q \<and> q \<notin> set used \<longrightarrow> refs s' q = refs s q + (if q = PTE2PA e then 1 else 0))"
proof -
  let ?pa = "PTE2PA e"
  have vo: "vinv kend fl old s" and vn: "vinv kend fl new s" and dis: "tables s old \<inter> tables s new = {}"
    using v by (auto simp: vinv2_def)
  have ok: "pt_ok (mem s) 2 old" using vo by (simp add: vinv_def)
  have ev: "is_V e" "\<not> is_V (pte_at s new i)" "page_ok kend ?pa" "1 \<le> refs s ?pa"
    "?pa \<notin> tables s old" "?pa \<notin> tables s new"
    using r by (auto simp: copy_ready_def e)
  obtain t where w: "walk s old i False = Inr (t + 8 * PX 0 i, s)" "ltab (mem s) 2 old i = Some t"
    "t + 8 * PX 0 i \<noteq> 0" "load64 (mem s) (t + 8 * PX 0 i) = e"
    using walk_valid [OF ok i(1)] ev(1) e by metis
  define s1 where "s1 = (if PTE_FLAGS e AND PTE_W \<noteq> 0
    then s\<lparr>mem := store64 (mem s) (t + 8 * PX 0 i) (PA2PTE ?pa OR cow_flags e)\<rparr> else s)"
  have i': "PGROUNDDOWN i = i" using i(2) by (simp add: page_aligned_alt)
  have s1: "vinv kend fl old s1" "tables s1 old = tables s old" "refs s1 = refs s"
    "\<forall>q. q \<notin> tables s old \<longrightarrow> same_page q (mem s) (mem s1)"
    "vb < MAXVA \<Longrightarrow> pte_at s1 old vb = (if PGROUNDDOWN vb = i then cow_parent e else pte_at s old vb)" for vb
  proof -
    note sp = set_pte [where e = "PA2PTE ?pa OR cow_flags e", OF vo i(1) w(2) refl]
    show "vinv kend fl old s1" "tables s1 old = tables s old" "refs s1 = refs s"
      using sp(1,2,5) vo by (simp_all add: s1_def)
    show "\<forall>q. q \<notin> tables s old \<longrightarrow> same_page q (mem s) (mem s1)"
    proof (intro allI impI)
      fix q assume "q \<notin> tables s old"
      then have "q \<noteq> t" using sp(4) by blast
      then show "same_page q (mem s) (mem s1)" using agree_off_same [OF sp(3)] by (simp add: s1_def same_page_def)
    qed
    have "pte_at s old vb = e" if "PGROUNDDOWN vb = i" using that e by (metis pte_at_PGROUNDDOWN)
    then show "vb < MAXVA \<Longrightarrow> pte_at s1 old vb = (if PGROUNDDOWN vb = i then cow_parent e else pte_at s old vb)"
      using sp(6) [of vb] by (auto simp: s1_def cow_parent_def i')
  qed
  have kn: "kinv kend fl s1" using s1(1) by (simp add: vinv_def)
  have "set fl \<inter> tables s new = {}" using vn by (simp add: vinv_def)
  moreover have "\<forall>q \<in> tables s new. same_page q (mem s) (mem s1)" using s1(4) dis by blast
  ultimately have n1: "vinv kend fl new s1" "pte_at s1 new vb = pte_at s new vb" "tables s1 new = tables s new" for vb
    using vinv_frame [OF vn kn] by blast+
  have nv: "\<not> is_V (pte_at s1 new i)" using ev(2) n1(2) by simp
  obtain s2 used fl' where m: "mappages s1 new i PGSIZE ?pa (cow_flags e) = Inr (0, s2)" "fl = used @ fl'"
    "length used \<le> 2" "vinv kend fl' new s2" "vstep kend new used s1 s2"
    "\<forall>vb < MAXVA. pte_at s2 new vb = (if PGROUNDDOWN vb = i then PA2PTE ?pa OR cow_flags e OR PTE_V else pte_at s1 new vb)"
    using mappages_page [OF n1(1) i(2,1) nv fl] by blast
  have vs: "tables s2 new = tables s new \<union> set used"
    "\<forall>q. q \<notin> tables s new \<union> set used \<longrightarrow> same_page q (mem s1) (mem s2)"
    "\<forall>q. page_ok kend q \<and> q \<notin> set used \<longrightarrow> refs s2 q = refs s q"
    using m(5) n1(3) s1(3) by (auto simp: vstep_def)
  have dfl: "set fl \<inter> tables s old = {}" using vo by (simp add: vinv_def)
  have "set used \<inter> tables s old = {}" using m(2) dfl by auto
  then have "\<forall>q \<in> tables s1 old. same_page q (mem s1) (mem s2)" "set fl' \<inter> tables s1 old = {}"
    using vs(2) dis m(2) dfl unfolding s1(2) by auto
  then have o2: "vinv kend fl' old s2" "pte_at s2 old vb = pte_at s1 old vb" "tables s2 old = tables s old" for vb
    using vinv_frame [OF s1(1), of fl' s2] m(4) s1(2) by (auto simp: vinv_def)
  have "?pa \<notin> set used" using ev(4) m(2) vo by (auto simp: vinv_def kinv_def)
  then have pa2: "refs s2 ?pa = refs s ?pa" using vs(3) ev(3) by blast
  obtain s3 where s3: "share_page s2 ?pa = Inr s3" "kinv kend fl' s3" "mem s3 = mem s2"
    "refs s3 ?pa = refs s2 ?pa + 1" "\<forall>q. page_ok kend q \<and> q \<noteq> ?pa \<longrightarrow> refs s3 q = refs s2 q"
    using share_page_ok [of kend fl' s2 ?pa] m(4) ev(3,4) pa2 by (auto simp: vinv_def)
  have run: "uvmcopy_loop (Suc fuel) s old new i sz = uvmcopy_loop fuel s3 old new (i + PGSIZE) sz"
    using i(3) ev(1) w m(1) s3(1) unfolding s1_def
    by (auto simp: Let_def is_V_def cow_flags_def split: if_splits)
  have "vinv2 kend fl' old new s3" "tables s3 old = tables s old" "tables s3 new = tables s new \<union> set used"
    using o2(1,3) m(4) s3(2,3) vs(1) dis \<open>set used \<inter> tables s old = {}\<close>
    by (auto simp: vinv2_def vinv_def)
  moreover have "pte_at s3 pt vb = pte_at s2 pt vb" for pt vb using s3(3) by (simp add: pte_at_def)
  moreover have "refs s3 q = refs s q + (if q = ?pa then 1 else 0)" if "page_ok kend q" "q \<notin> set used" for q
    using that s3(4,5) vs(3) by auto
  moreover have "same_page q (mem s) (mem s3)" if "q \<notin> tables s old \<union> tables s new \<union> set used" for q
    using that s1(4) vs(2) s3(3) same_page_trans by (metis UnI1 UnI2 UnE)
  ultimately show ?thesis
    using run m(2,3) s1(5) o2(2) m(6) n1(2) by (intro exI [of _ s3] exI [of _ used] exI [of _ fl']) (simp add: cow_child_def or.assoc)
qed

primrec frames :: "(uint64 \<Rightarrow> uint64) \<Rightarrow> uint64 \<Rightarrow> nat \<Rightarrow> uint64 list" where
  "frames f i 0 = []"
| "frames f i (Suc n) = PTE2PA (f i) # frames f (i + PGSIZE) n"

definition page_in :: "uint64 \<Rightarrow> nat \<Rightarrow> uint64 \<Rightarrow> bool" where
  "page_in i n vb \<longleftrightarrow> (\<exists>j < n. PGROUNDDOWN vb = i + of_nat j * PGSIZE)"

lemma page_in_Suc: "page_in i (Suc n) vb \<longleftrightarrow> PGROUNDDOWN vb = i \<or> page_in (i + PGSIZE) n vb"
  unfolding page_in_def Ex_less_Suc2 by (simp add: algebra_simps)

lemma page_steps:
  assumes "page_aligned i" "unat i + n * 4096 \<le> unat MAXVA" "j < n"
  shows "unat (i + of_nat j * PGSIZE) = unat i + j * 4096" "i + of_nat j * PGSIZE < MAXVA"
    "page_aligned (i + of_nat j * PGSIZE)"
proof -
  have "j * 4096 < 2 ^ 64" "unat i + j * 4096 < unat MAXVA" using assms(2,3) by (simp_all add: MAXVA_def)
  moreover from this(1) have "unat (of_nat j * PGSIZE) = j * 4096"
    using unat_of_nat64 [of "j * 4096"] by (simp add: PGSIZE_def)
  ultimately show u: "unat (i + of_nat j * PGSIZE) = unat i + j * 4096"
    by (subst word64_no_wrap_add) (simp_all add: MAXVA_def)
  then show "i + of_nat j * PGSIZE < MAXVA"
    using \<open>unat i + j * 4096 < unat MAXVA\<close> by (simp add: word_less_nat_alt)
  obtain k where "unat i = 4096 * k" using assms(1) by (auto simp: page_aligned_unat)
  then have "unat (i + of_nat j * PGSIZE) = 4096 * (k + j)" using u by simp
  then show "page_aligned (i + of_nat j * PGSIZE)" by (simp add: page_aligned_unat)
qed

lemma frames_mem: "j < n \<Longrightarrow> PTE2PA (f (i + of_nat j * PGSIZE)) \<in> set (frames f i n)"
proof (induction n arbitrary: i j)
  case (Suc n)
  show ?case
  proof (cases j)
    case (Suc k)
    have "PTE2PA (f (i + PGSIZE + of_nat k * PGSIZE)) \<in> set (frames f (i + PGSIZE) n)"
      by (rule Suc.IH) (use Suc Suc.prems in simp)
    moreover have "i + of_nat j * PGSIZE = i + PGSIZE + of_nat k * PGSIZE" by (simp add: Suc algebra_simps)
    ultimately have "PTE2PA (f (i + of_nat j * PGSIZE)) \<in> set (frames f (i + PGSIZE) n)" by metis
    then show ?thesis by simp
  qed simp
qed simp

lemma frames_cong:
  assumes "\<And>j. j < n \<Longrightarrow> f (i + of_nat j * PGSIZE) = g (i + of_nat j * PGSIZE)"
  shows "frames f i n = frames g i n"
  using assms
proof (induction n arbitrary: i)
  case (Suc n)
  have "f i = g i" using Suc.prems [of 0] by simp
  moreover have "frames f (i + PGSIZE) n = frames g (i + PGSIZE) n"
  proof (rule Suc.IH)
    fix j assume "j < n"
    then show "f (i + PGSIZE + of_nat j * PGSIZE) = g (i + PGSIZE + of_nat j * PGSIZE)"
      using Suc.prems [of "Suc j"] by (simp add: algebra_simps)
  qed
  ultimately show ?case by simp
qed simp

lemma uvmcopy_loop_ok:
  fixes s :: "'z kmem_scheme"
  assumes "vinv2 kend fl old new s" "page_aligned i" "unat i + n * 4096 \<le> unat MAXVA"
    "\<forall>j < n. copy_ready kend old new s (i + of_nat j * PGSIZE)" "2 * n \<le> length fl"
    "n \<noteq> 0 \<longrightarrow> unat i + (n - 1) * 4096 < unat sz" "unat sz \<le> unat i + n * 4096" "n < fuel"
  shows "\<exists>s' used fl'. uvmcopy_loop fuel s old new i sz = Inr (0, s') \<and> fl = used @ fl' \<and> length used \<le> 2 * n \<and>
    vinv2 kend fl' old new s' \<and>
    (\<forall>vb < MAXVA. pte_at s' old vb = (if page_in i n vb then cow_parent (pte_at s old vb) else pte_at s old vb)) \<and>
    (\<forall>vb < MAXVA. pte_at s' new vb = (if page_in i n vb then cow_child (pte_at s old vb) else pte_at s new vb)) \<and>
    tables s' old = tables s old \<and> tables s' new = tables s new \<union> set used \<and>
    (\<forall>q. q \<notin> tables s old \<union> tables s new \<union> set used \<longrightarrow> same_page q (mem s) (mem s')) \<and>
    (\<forall>q. page_ok kend q \<and> q \<notin> set used \<longrightarrow>
       refs s' q = refs s q + int (count_list (frames (pte_at s old) i n) q))"
  using assms
proof (induction n arbitrary: s fl i fuel)
  case (0 s fl i fuel)
  then obtain f where "fuel = Suc f" by (cases fuel) auto
  then have "uvmcopy_loop fuel s old new i sz = Inr (0, s)" using 0(7) by (simp add: word_less_nat_alt)
  then show ?case using 0(1) by (intro exI [of _ s] exI [of _ "[]"] exI [of _ fl]) (simp add: page_in_def same_page_def)
next
  case (Suc n s fl i fuel)
  then obtain f where f: "fuel = Suc f" "n < f" by (cases fuel) auto
  have i: "i < MAXVA" "i < sz" using Suc.prems(3,6) by (simp_all add: word_less_nat_alt MAXVA_def)
  have ri: "copy_ready kend old new s i" using Suc.prems(4) by (metis add.right_neutral mult_zero_left of_nat_0 zero_less_Suc)
  define e where "e = pte_at s old i"
  obtain s1 u1 fl1 where st:
    "uvmcopy_loop (Suc f) s old new i sz = uvmcopy_loop f s1 old new (i + PGSIZE) sz"
    "fl = u1 @ fl1" "length u1 \<le> 2" "vinv2 kend fl1 old new s1"
    "\<forall>vb < MAXVA. pte_at s1 old vb = (if PGROUNDDOWN vb = i then cow_parent e else pte_at s old vb)"
    "\<forall>vb < MAXVA. pte_at s1 new vb = (if PGROUNDDOWN vb = i then cow_child e else pte_at s new vb)"
    "tables s1 old = tables s old" "tables s1 new = tables s new \<union> set u1"
    "\<forall>q. q \<notin> tables s old \<union> tables s new \<union> set u1 \<longrightarrow> same_page q (mem s) (mem s1)"
    "\<forall>q. page_ok kend q \<and> q \<notin> set u1 \<longrightarrow> refs s1 q = refs s q + (if q = PTE2PA e then 1 else 0)"
    using copy_entry_step [OF Suc.prems(1) i(1) Suc.prems(2) i(2) ri _ e_def] Suc.prems(5) by force
  have i1: "unat (i + PGSIZE) = unat i + 4096" "page_aligned (i + PGSIZE)"
    using Suc.prems(2,3) by (simp_all add: PGSIZE_def MAXVA_def word64_no_wrap_add page_aligned_add)
  have fresh: "q \<notin> set u1" if "1 \<le> refs s q" for q
    using Suc.prems(1) st(2) that by (auto simp: vinv2_def vinv_def kinv_def)
  have apart: "i + PGSIZE + of_nat j * PGSIZE \<noteq> i" if "j < n" for j
  proof -
    have "Suc j < Suc n" using that by simp
    from page_steps(1) [OF Suc.prems(2,3) this] have "unat (i + of_nat (Suc j) * PGSIZE) \<noteq> unat i" by simp
    moreover have "i + PGSIZE + of_nat j * PGSIZE = i + of_nat (Suc j) * PGSIZE" by (simp add: algebra_simps)
    ultimately show ?thesis by metis
  qed
  have nxt: "pte_at s1 old (i + PGSIZE + of_nat j * PGSIZE) = pte_at s old (i + PGSIZE + of_nat j * PGSIZE)"
    "copy_ready kend old new s1 (i + PGSIZE + of_nat j * PGSIZE)" if j: "j < n" for j
  proof -
    let ?a = "i + PGSIZE + of_nat j * PGSIZE"
    have a: "?a = i + of_nat (Suc j) * PGSIZE" by (simp add: algebra_simps)
    have sj: "Suc j < Suc n" using j by simp
    note ps = page_steps [OF Suc.prems(2,3) sj, folded a]
    have ne: "PGROUNDDOWN ?a \<noteq> i" using ps(3) apart [OF j] by (metis page_aligned_alt)
    show eo: "pte_at s1 old ?a = pte_at s old ?a" using st(5) ps(2) ne by simp
    have en: "pte_at s1 new ?a = pte_at s new ?a" using st(6) ps(2) ne by simp
    have "copy_ready kend old new s ?a" unfolding a using Suc.prems(4) sj by blast
    then show "copy_ready kend old new s1 ?a"
      using fresh st(7,8,10) unfolding copy_ready_def eo en by auto
  qed
  obtain s' u2 fl2 where ih: "uvmcopy_loop f s1 old new (i + PGSIZE) sz = Inr (0, s')" "fl1 = u2 @ fl2" "length u2 \<le> 2 * n"
    "vinv2 kend fl2 old new s'"
    "\<forall>vb < MAXVA. pte_at s' old vb = (if page_in (i + PGSIZE) n vb then cow_parent (pte_at s1 old vb) else pte_at s1 old vb)"
    "\<forall>vb < MAXVA. pte_at s' new vb = (if page_in (i + PGSIZE) n vb then cow_child (pte_at s1 old vb) else pte_at s1 new vb)"
    "tables s' old = tables s1 old" "tables s' new = tables s1 new \<union> set u2"
    "\<forall>q. q \<notin> tables s1 old \<union> tables s1 new \<union> set u2 \<longrightarrow> same_page q (mem s1) (mem s')"
    "\<forall>q. page_ok kend q \<and> q \<notin> set u2 \<longrightarrow>
       refs s' q = refs s1 q + int (count_list (frames (pte_at s1 old) (i + PGSIZE) n) q)"
    using Suc.IH [OF st(4) i1(2), of f] nxt(2) i1(1) Suc.prems(3,5-7) st(2,3) f(2) by (cases n) auto
  have fr: "frames (pte_at s1 old) (i + PGSIZE) n = frames (pte_at s old) (i + PGSIZE) n"
    by (rule frames_cong) (rule nxt(1))
  have sep: "\<not> page_in (i + PGSIZE) n vb" if "PGROUNDDOWN vb = i" for vb
    using apart that by (auto simp: page_in_def)
  have val: "pte_at s old vb = e" if "PGROUNDDOWN vb = i" for vb using that e_def by (metis pte_at_PGROUNDDOWN)
  have "\<forall>vb < MAXVA. pte_at s' old vb = (if page_in i (Suc n) vb then cow_parent (pte_at s old vb) else pte_at s old vb)"
    using ih(5) st(5) sep val unfolding page_in_Suc by auto
  moreover have "\<forall>vb < MAXVA. pte_at s' new vb = (if page_in i (Suc n) vb then cow_child (pte_at s old vb) else pte_at s new vb)"
    using ih(6) st(5,6) sep val unfolding page_in_Suc by auto
  moreover have "refs s' q = refs s q + int (count_list (frames (pte_at s old) i (Suc n)) q)"
    if "page_ok kend q" "q \<notin> set (u1 @ u2)" for q
    using that ih(10) st(10) fr by (auto simp: e_def)
  moreover have "same_page q (mem s) (mem s')" if "q \<notin> tables s old \<union> tables s new \<union> set (u1 @ u2)" for q
  proof (rule same_page_trans)
    show "same_page q (mem s) (mem s1)" using that st(9) by simp
    show "same_page q (mem s1) (mem s')" using that ih(9) st(7,8) by simp
  qed
  moreover have "tables s' new = tables s new \<union> set (u1 @ u2)" using ih(8) st(8) by auto
  moreover have "length (u1 @ u2) \<le> 2 * Suc n" using st(3) ih(3) by simp
  moreover have "fl = (u1 @ u2) @ fl2" using st(2) ih(2) by simp
  moreover have "uvmcopy_loop fuel s old new i sz = Inr (0, s')" "tables s' old = tables s old"
    using st(1,7) ih(1,7) f(1) by (simp_all del: uvmcopy_loop.simps)
  ultimately show ?case using ih(4)
    by - (rule exI [of _ s'], rule exI [of _ "u1 @ u2"], rule exI [of _ fl2], intro conjI allI impI, blast+)
qed

section \<open>Reading user memory\<close>

definition user_ok :: "'z kmem_scheme \<Rightarrow> uint64 \<Rightarrow> uint64 \<Rightarrow> bool" where
  "user_ok s pt va \<longleftrightarrow>
     va < MAXVA \<and> is_V (pte_at s pt va) \<and> pte_at s pt va AND PTE_U \<noteq> 0 \<and> PTE2PA (pte_at s pt va) \<noteq> 0"

definition vread :: "'z kmem_scheme \<Rightarrow> uint64 \<Rightarrow> uint64 \<Rightarrow> uint8" where
  "vread s pt va = mem s (PTE2PA (pte_at s pt va) + (va - PGROUNDDOWN va))"

lemma walkaddr_spec:
  assumes "pt_ok (mem s) 2 pt"
  shows "walkaddr s pt va = Inr (if user_ok s pt va then PTE2PA (pte_at s pt va) else 0)"
proof (cases "va < MAXVA")
  case True
  then show ?thesis
    using walk_find [OF assms True] by (auto simp: walkaddr_def user_ok_def Let_def is_V_def)
next
  case False
  then have "MAXVA \<le> va" by (simp add: not_less)
  with False show ?thesis by (simp add: walkaddr_def user_ok_def)
qed

lemma PGROUNDDOWN_less_MAXVA [simp]: "PGROUNDDOWN va < MAXVA \<longleftrightarrow> va < MAXVA"
proof -
  have "unat va div 4096 < 2 ^ 26 \<longleftrightarrow> unat va < 2 ^ 26 * 4096" by (rule div_less_iff_less_mult) simp
  then show ?thesis by (simp add: word_less_nat_alt unat_PGROUNDDOWN MAXVA_def)
qed

lemma user_ok_page [simp]: "user_ok s pt (PGROUNDDOWN va) \<longleftrightarrow> user_ok s pt va"
  by (simp add: user_ok_def)

lemma same_page_offset:
  assumes "k < 4096 - unat (va - PGROUNDDOWN va)"
  shows "PGROUNDDOWN (va + of_nat k) = PGROUNDDOWN va"
proof -
  define q r where "q = unat va div 4096" and "r = unat va mod 4096"
  then have v: "unat va = 4096 * q + r" and q: "unat va div 4096 = q" by simp_all
  have k: "r + k < 4096" using assms by (simp add: page_offset r_def)
  have "unat va < 2 ^ 64" using unsigned_less [of va] by simp
  then have "q < 2 ^ 52" by (simp add: q_def div_less_iff_less_mult)
  then have "4096 * q + r + k < 2 ^ 64" using k by simp
  then have u: "unat (va + of_nat k) = 4096 * q + (r + k)"
    using v by (subst word64_no_wrap_add) (simp_all add: unat_of_nat64)
  have "(4096 * q + (r + k)) div 4096 = q" using k by simp
  then show ?thesis by (simp add: word_unat_eq_iff unat_PGROUNDDOWN u q)
qed

lemma next_page_offset:
  assumes "k = 4096 - unat (va - PGROUNDDOWN va)"
  shows "va + of_nat (k + i) = PGROUNDDOWN va + PGSIZE + of_nat i"
proof -
  have "unat (va - PGROUNDDOWN va) \<le> 4096" using page_offset_less [of va] by simp
  then have "(of_nat k :: uint64) = 4096 - (va - PGROUNDDOWN va)" by (simp add: assms of_nat_diff)
  then show ?thesis by (simp add: PGSIZE_def algebra_simps)
qed

lemma vread_in_page:
  assumes "k < 4096 - unat (va - PGROUNDDOWN va)"
  shows "vread s pt (va + of_nat k) = mem s (PTE2PA (pte_at s pt va) + (va - PGROUNDDOWN va) + of_nat k)"
proof -
  have "pte_at s pt (va + of_nat k) = pte_at s pt va"
    using same_page_offset [OF assms] by (metis pte_at_PGROUNDDOWN)
  then show ?thesis by (simp add: vread_def same_page_offset [OF assms] algebra_simps)
qed

lemma all_less_split:
  fixes k n :: nat
  assumes "k \<le> n"
  shows "(\<forall>i < n. P i) \<longleftrightarrow> (\<forall>i < k. P i) \<and> (\<forall>i < n - k. P (k + i))"
proof (intro iffI conjI allI impI)
  fix i assume h: "(\<forall>i < k. P i) \<and> (\<forall>i < n - k. P (k + i))" and "i < n"
  then have "P (k + (i - k))" if "\<not> i < k" using that by (intro h [THEN conjunct2, rule_format]) simp
  then show "P i" using h by (cases "i < k") simp_all
qed (use assms in auto)

lemma upt_split:
  assumes "k \<le> n"
  shows "[0..<n] = [0..<k] @ map (\<lambda>i. k + i) [0..<n - k]"
proof -
  have "[0..<k + (n - k)] = [0..<k] @ [k..<k + (n - k)]" by (rule upt_add_eq_append) simp
  moreover have "[k..<k + (n - k)] = map (\<lambda>i. k + i) [0..<n - k]"
    using map_add_upt [of k "n - k"] by (simp add: add.commute)
  ultimately show ?thesis using assms by simp
qed

lemma copyin_loop_spec:
  assumes ok: "pt_ok (mem s) 2 pt" and "n < fuel"
  shows "((\<forall>i < n. user_ok s pt (va + of_nat i)) \<longrightarrow>
      copyin_loop fuel s pt va n = Inr (0, map (\<lambda>i. vread s pt (va + of_nat i)) [0..<n])) \<and>
    ((\<exists>i < n. \<not> user_ok s pt (va + of_nat i)) \<longrightarrow> (\<exists>bs. copyin_loop fuel s pt va n = Inr (-1, bs)))"
  using assms(2)
proof (induction fuel arbitrary: va n)
  case (Suc fuel)
  show ?case
  proof (cases "n = 0")
    case False
    define r where "r = 4096 - unat (va - PGROUNDDOWN va)"
    define k where "k = min r n"
    define va' where "va' = PGROUNDDOWN va + PGSIZE"
    have r: "0 < r" using page_offset_less [of va] by (simp add: r_def)
    then have k: "0 < k" "k \<le> n" "k \<le> r" using False by (auto simp: k_def)
    have head: "user_ok s pt (va + of_nat i) = user_ok s pt va" if "i < k" for i
    proof -
      have "PGROUNDDOWN (va + of_nat i) = PGROUNDDOWN va"
        using same_page_offset [of i va] that k(3) by (simp add: r_def)
      then show ?thesis by (metis user_ok_page)
    qed
    have tail: "va + of_nat (k + i) = va' + of_nat i" if "k < n" for i
      using next_page_offset [OF r_def, of i] that unfolding va'_def k_def by simp
    have split_range: "(\<forall>i < n. P i) \<longleftrightarrow> (\<forall>i < k. P i) \<and> (\<forall>i < n - k. P (k + i))" for P
      using all_less_split [OF k(2)] .
    have ih: "(\<forall>i < n - k. user_ok s pt (va' + of_nat i)) \<longrightarrow>
        copyin_loop fuel s pt va' (n - k) = Inr (0, map (\<lambda>i. vread s pt (va' + of_nat i)) [0..<n - k])"
      "(\<exists>i < n - k. \<not> user_ok s pt (va' + of_nat i)) \<longrightarrow> (\<exists>bs. copyin_loop fuel s pt va' (n - k) = Inr (-1, bs))"
      using Suc.IH [of "n - k" va'] Suc.prems k by simp_all
    have step: "copyin_loop (Suc fuel) s pt va n =
      (if user_ok s pt va then
         bind_res (copyin_loop fuel s pt va' (n - k)) (\<lambda>(r, bs'). Inr (r,
           load_bytes (mem s) (PTE2PA (pte_at s pt va) + (va - PGROUNDDOWN va)) k @ bs'))
       else Inr (-1, []))"
      using False walkaddr_spec [OF ok, of "PGROUNDDOWN va"]
      by (simp add: Let_def user_ok_def va'_def [symmetric] r_def [symmetric] k_def [symmetric])
    have bytes: "load_bytes (mem s) (PTE2PA (pte_at s pt va) + (va - PGROUNDDOWN va)) k =
      map (\<lambda>i. vread s pt (va + of_nat i)) [0..<k]"
      unfolding load_bytes_def
    proof (rule map_cong [OF refl])
      fix i assume "i \<in> set [0..<k]"
      then have "i < 4096 - unat (va - PGROUNDDOWN va)" using k(3) by (simp add: r_def)
      then show "mem s (PTE2PA (pte_at s pt va) + (va - PGROUNDDOWN va) + of_nat i) = vread s pt (va + of_nat i)"
        by (rule vread_in_page [symmetric])
    qed
    have user: "(\<forall>i < n. user_ok s pt (va + of_nat i)) \<longleftrightarrow>
        user_ok s pt va \<and> (\<forall>i < n - k. user_ok s pt (va' + of_nat i))"
      unfolding split_range [of "\<lambda>i. user_ok s pt (va + of_nat i)"]
      using head k(1) tail by (cases "k < n") (auto simp del: of_nat_add)
    have "[0..<n] = [0..<k] @ map (\<lambda>i. k + i) [0..<n - k]"
      using upt_split [OF k(2)] .
    then have all: "map (\<lambda>i. vread s pt (va + of_nat i)) [0..<n] =
        map (\<lambda>i. vread s pt (va + of_nat i)) [0..<k] @ map (\<lambda>i. vread s pt (va' + of_nat i)) [0..<n - k]"
      using tail by (cases "k < n") (simp_all del: of_nat_add)
    show ?thesis
      using ih user unfolding step bytes all by auto
  qed simp
qed simp

section \<open>A small machine\<close>

text \<open>
  Eight pages above the kernel: five free, one used as a frame, two empty page tables.
\<close>

definition demo_mem :: memory where
  "demo_mem = store64 (store64 (store64 (store64 (\<lambda>_. 0) 0x87ff8000 0x87ff9000)
     0x87ff9000 0x87ffa000) 0x87ffa000 0x87ffb000) 0x87ffb000 0x87ffc000"

definition demo_fl :: "uint64 list" where
  "demo_fl = [0x87ff8000, 0x87ff9000, 0x87ffa000, 0x87ffb000, 0x87ffc000]"

definition demo :: kmem where
  "demo = \<lparr>mem = demo_mem, freelist = 0x87ff8000,
     nump_using = (\<lambda>i. if 0x87ff8 \<le> i \<and> i \<le> 0x87ffc then 0 else 1), console = []\<rparr>"

lemma demo_pages: "\<forall>p \<in> set demo_fl. page_ok 0x87ff8000 p \<and> refs demo p = 0"
  by (simp add: demo_fl_def page_ok_def refs_def demo_def page_aligned_def layout_defs page_idx_def)

lemma demo_other:
  assumes "page_ok 0x87ff8000 p" "p \<notin> set demo_fl"
  shows "refs demo p = 1"
proof -
  have u: "unat p < 0x88000000" "0x87ff8000 \<le> unat p" "4096 dvd unat p"
    using assms(1) by (simp_all add: page_ok_def page_aligned_unat PHYSTOP_def word_less_nat_alt word_le_nat_alt)
  obtain k where k: "unat p = 4096 * k" using u(3) by auto
  have i: "page_idx p = int k" using page_idx_val(1) [of p] assms(1) k by (simp add: page_ok_def)
  have "\<not> (0x87ff8 \<le> k \<and> k \<le> 0x87ffc)"
  proof
    assume "0x87ff8 \<le> k \<and> k \<le> 0x87ffc"
    then have "k \<in> {0x87ff8, 0x87ff9, 0x87ffa, 0x87ffb, 0x87ffc}" by auto
    then have "p \<in> set demo_fl" using k by (auto simp: demo_fl_def word_unat_eq_iff)
    with assms(2) show False ..
  qed
  then show ?thesis by (auto simp: refs_def i demo_def)
qed

lemma demo_kinv: "kinv 0x87ff8000 demo_fl demo"
proof -
  have "free_list (mem demo) (freelist demo) demo_fl"
    by (simp add: demo_def demo_fl_def demo_mem_def load64_store64_neq)
  moreover have "distinct demo_fl" by (simp add: demo_fl_def)
  ultimately show ?thesis using demo_pages demo_other by (simp add: kinv_def)
qed

lemma demo_zero:
  assumes "p \<in> {0x87ffd000, 0x87ffe000, 0x87fff000}" "in_page p x"
  shows "mem demo x = 0"
proof -
  have s: "same_page p m (store64 m a v)" if "a \<in> set demo_fl" for m a v
    by (rule agree_off_same, rule agree_off_store64 [where p = a])
      (use assms(1) that in \<open>auto simp: demo_fl_def PGROUNDDOWN_def layout_defs\<close>)
  have "same_page p (\<lambda>_. 0) (mem demo)"
    unfolding demo_def demo_mem_def kmem.select_convs
    by (intro same_page_trans [OF _ s]) (simp_all add: same_page_def demo_fl_def)
  then show ?thesis using assms(2) by (simp add: same_page_def)
qed

lemma demo_vinv:
  assumes "pt \<in> {0x87ffe000, 0x87fff000}"
  shows "vinv 0x87ff8000 demo_fl pt demo" "pte_at demo pt va = 0" "tables demo pt = {pt}"
proof -
  have al: "page_aligned pt" "pt \<noteq> 0" using assms by (auto simp: page_aligned_def layout_defs)
  have "mem demo x = 0" if "in_page pt x" for x using demo_zero [of pt x] assms that by auto
  note z = zero_table [of pt "mem demo", OF this al(1)]
  have t: "tpages (mem demo) 2 pt = [pt]" using z(1) assms by simp
  show "pte_at demo pt va = 0" using z(2) assms by (simp add: pte_at_def)
  show "tables demo pt = {pt}" using t by simp
  have "pt_ok (mem demo) 2 pt" using t al by (simp add: pt_ok_def)
  moreover have "set demo_fl \<inter> tables demo pt = {}" using t assms by (auto simp: demo_fl_def)
  ultimately show "vinv 0x87ff8000 demo_fl pt demo" using demo_kinv by (simp add: vinv_def)
qed

definition demo_map :: "uint64 \<Rightarrow> kmem" where
  "demo_map f = snd (projr (mappages demo 0x87ffe000 0 PGSIZE 0x87ffd000 f))"

lemma demo_map_ok:
  "\<exists>used fl. demo_fl = used @ fl \<and> length used \<le> 2 \<and> vinv 0x87ff8000 fl 0x87ffe000 (demo_map f) \<and>
    vstep 0x87ff8000 0x87ffe000 used demo (demo_map f) \<and>
    (\<forall>vb < MAXVA. pte_at (demo_map f) 0x87ffe000 vb =
       (if PGROUNDDOWN vb = 0 then PA2PTE 0x87ffd000 OR f OR PTE_V else 0))"
proof -
  have v: "vinv 0x87ff8000 demo_fl 0x87ffe000 demo" by (rule demo_vinv) simp
  have z: "pte_at demo 0x87ffe000 vb = 0" for vb by (rule demo_vinv) simp
  have "page_aligned 0" "(0 :: uint64) < MAXVA" by (simp_all add: page_aligned_def MAXVA_def)
  moreover have "\<not> is_V (pte_at demo 0x87ffe000 0)" by (simp add: z is_V_def)
  moreover have "2 \<le> length demo_fl" by (simp add: demo_fl_def)
  ultimately obtain s' used fl where
    "mappages demo 0x87ffe000 0 PGSIZE 0x87ffd000 f = Inr (0, s')" "demo_fl = used @ fl" "length used \<le> 2"
    "vinv 0x87ff8000 fl 0x87ffe000 s'" "vstep 0x87ff8000 0x87ffe000 used demo s'"
    "\<forall>vb < MAXVA. pte_at s' 0x87ffe000 vb =
       (if PGROUNDDOWN vb = 0 then PA2PTE 0x87ffd000 OR f OR PTE_V else pte_at demo 0x87ffe000 vb)"
    using mappages_page [OF v] by metis
  then show ?thesis unfolding demo_map_def by (auto simp: z)
qed

section \<open>Properties\<close>

lemma COW_flags:
  "PTE_COW AND PTE_W = 0" "PTE_COW AND PTE_COW = PTE_COW" "PTE_COW \<noteq> 0" "PTE_V AND PTE_W = 0"
  "PTE_W AND PTE_COW = 0" "PTE_V AND PTE_COW = 0"
  by (simp_all add: layout_defs)

lemma FLAGS_test: "flag_bits g \<Longrightarrow> PTE_FLAGS e AND g = e AND g"
  unfolding PTE_FLAGS_def flag_bits_def by (metis and.assoc and.commute)

lemma cow_child_test: "flag_bits g \<Longrightarrow> cow_child e AND g = (cow_flags e OR PTE_V) AND g"
  by (simp add: cow_child_def or.assoc PA2PTE_flag_test)

lemma cow_flags_W: "cow_flags e AND PTE_W = 0"
proof -
  have "(PTE_FLAGS e AND NOT PTE_W OR PTE_COW) AND PTE_W = 0"
    by (simp add: bit.conj_disj_distrib2 and.assoc COW_flags)
  then show ?thesis by (simp add: cow_flags_def)
qed

lemma cow_no_write: "cow_parent e AND PTE_W = 0" "cow_child e AND PTE_W = 0"
proof -
  show "cow_child e AND PTE_W = 0"
    by (simp add: cow_child_test bit.conj_disj_distrib2 cow_flags_W COW_flags)
  show "cow_parent e AND PTE_W = 0"
    by (simp add: cow_parent_def PA2PTE_flag_test cow_flags_W FLAGS_test)
qed

lemma cow_child_flags:
  "is_V (cow_child e)" "e AND PTE_W \<noteq> 0 \<Longrightarrow> cow_child e AND PTE_COW \<noteq> 0"
proof -
  show "is_V (cow_child e)"
    by (simp add: is_V_def cow_child_test bit.conj_disj_distrib2) (simp add: layout_defs)
  show "cow_child e AND PTE_COW \<noteq> 0" if "e AND PTE_W \<noteq> 0"
    using that by (simp add: cow_child_test cow_flags_def bit.conj_disj_distrib2 FLAGS_test COW_flags)
qed

lemma uvmcopy_run:
  assumes "vinv2 kend fl old new s" "n * 4096 \<le> unat MAXVA"
    "\<forall>j < n. copy_ready kend old new s (of_nat j * PGSIZE)" "2 * n \<le> length fl"
    "n \<noteq> 0 \<longrightarrow> (n - 1) * 4096 < unat sz" "unat sz \<le> n * 4096"
  shows "\<exists>s' used fl'. uvmcopy s old new sz = Inr (0, s') \<and> fl = used @ fl' \<and> length used \<le> 2 * n \<and>
    vinv2 kend fl' old new s' \<and>
    (\<forall>vb < MAXVA. pte_at s' old vb = (if page_in 0 n vb then cow_parent (pte_at s old vb) else pte_at s old vb)) \<and>
    (\<forall>vb < MAXVA. pte_at s' new vb = (if page_in 0 n vb then cow_child (pte_at s old vb) else pte_at s new vb)) \<and>
    tables s' old = tables s old \<and> tables s' new = tables s new \<union> set used \<and>
    (\<forall>q. q \<notin> tables s old \<union> tables s new \<union> set used \<longrightarrow> same_page q (mem s) (mem s')) \<and>
    (\<forall>q. page_ok kend q \<and> q \<notin> set used \<longrightarrow>
       refs s' q = refs s q + int (count_list (frames (pte_at s old) 0 n) q))"
proof -
  have "n - 1 \<le> unat sz div 4096"
    using assms(5) by (cases "n = 0") (simp_all add: less_eq_div_iff_mult_less_eq)
  then have "n < unat (sz div PGSIZE) + 2" by (simp add: unat_div PGSIZE_def)
  then show ?thesis
    using uvmcopy_loop_ok [OF assms(1), of 0 n sz "unat (sz div PGSIZE) + 2"] assms(2-6)
    by (simp add: uvmcopy_def)
qed

lemma page_in_less:
  assumes "n * 4096 \<le> unat MAXVA" "page_in 0 n vb"
  obtains j where "j < n" "PGROUNDDOWN vb = of_nat j * PGSIZE" "vb < MAXVA"
proof -
  obtain j where j: "j < n" "PGROUNDDOWN vb = of_nat j * PGSIZE" using assms(2) by (auto simp: page_in_def)
  have "of_nat j * PGSIZE < MAXVA" using page_steps(2) [of 0 n j] assms(1) j(1) by simp
  then have "vb < MAXVA" using j(2) PGROUNDDOWN_less_MAXVA by metis
  with that j show ?thesis by blast
qed


lemma demo_fork_ready:
  assumes "f AND PTE_V = 0" "flag_bits f"
  shows "\<exists>fl. vinv2 0x87ff8000 fl 0x87ffe000 0x87fff000 (demo_map f) \<and> 3 \<le> length fl \<and>
    copy_ready 0x87ff8000 0x87ffe000 0x87fff000 (demo_map f) 0"
proof -
  obtain used fl where d: "demo_fl = used @ fl" "length used \<le> 2" "vinv 0x87ff8000 fl 0x87ffe000 (demo_map f)"
    "vstep 0x87ff8000 0x87ffe000 used demo (demo_map f)"
    "\<forall>vb < MAXVA. pte_at (demo_map f) 0x87ffe000 vb = (if PGROUNDDOWN vb = 0 then PA2PTE 0x87ffd000 OR f OR PTE_V else 0)"
    using demo_map_ok by blast
  have v: "vinv 0x87ff8000 demo_fl 0x87fff000 demo" "tables demo 0x87fff000 = {0x87fff000}"
    "tables demo 0x87ffe000 = {0x87ffe000}" "pte_at demo 0x87fff000 0 = 0"
    using demo_vinv by auto
  have u: "set used \<subseteq> set demo_fl" "set fl \<subseteq> set demo_fl" by (simp_all add: d(1))
  have fd: "0x87fff000 \<notin> set demo_fl" "0x87ffd000 \<notin> set demo_fl" by (simp_all add: demo_fl_def)
  then have nu: "0x87fff000 \<notin> set used" "0x87ffd000 \<notin> set used" "0x87fff000 \<notin> set fl" using u by blast+
  have t: "tables (demo_map f) 0x87ffe000 = insert 0x87ffe000 (set used)"
    and keep: "\<forall>q. q \<notin> insert 0x87ffe000 (set used) \<longrightarrow> same_page q (mem demo) (mem (demo_map f))"
    and rf: "\<forall>q. page_ok 0x87ff8000 q \<and> q \<notin> set used \<longrightarrow> refs (demo_map f) q = refs demo q"
    using d(4) v(3) unfolding vstep_def by auto
  have k: "kinv 0x87ff8000 fl (demo_map f)" using d(3) by (simp add: vinv_def)
  have same: "\<forall>q \<in> tables demo 0x87fff000. same_page q (mem demo) (mem (demo_map f))"
    using keep nu v(2) by simp
  have "set fl \<inter> tables demo 0x87fff000 = {}" using nu v(2) by simp
  note n = vinv_frame [OF v(1) k this same]
  have "vinv2 0x87ff8000 fl 0x87ffe000 0x87fff000 (demo_map f)"
    using d(3) n(1,3) t v(2) nu by (simp add: vinv2_def)
  moreover have "3 \<le> length fl" using arg_cong [OF d(1), of length] d(2) by (simp add: demo_fl_def)
  moreover have "pte_at (demo_map f) 0x87ffe000 0 = PA2PTE 0x87ffd000 OR f OR PTE_V"
    using d(5) [rule_format, of 0] by (simp add: MAXVA_def PGROUNDDOWN_def)
  moreover have "page_ok 0x87ff8000 0x87ffd000" by (simp add: page_ok_def page_aligned_def layout_defs)
  moreover from this have "refs (demo_map f) 0x87ffd000 = 1" using rf demo_other fd(2) nu by simp
  moreover have "PTE2PA (PA2PTE 0x87ffd000 OR f OR PTE_V) = 0x87ffd000" "is_V (PA2PTE 0x87ffd000 OR f OR PTE_V)"
    using assms(2) by (simp_all add: or.assoc PTE2PA_PA2PTE is_V_PTE bit.conj_disj_distrib2 assms(1))
      (simp_all add: PGROUNDDOWN_def layout_defs)
  ultimately show ?thesis
    using t n(2,3) v(2,4) nu unfolding copy_ready_def by (intro exI [of _ fl]) (simp add: is_V_def)
qed

definition user_flags :: uint64 where
  "user_flags = PTE_W OR PTE_R OR PTE_U"

lemma user_flags: "user_flags AND PTE_V = 0" "flag_bits user_flags"
  by (simp_all add: user_flags_def flag_bits_def layout_defs)


text \<open>A store to a copy-on-write page leaves the process with a private page. \<open>removecopy\<close>
  takes a page off the free list, copies the shared page into it, maps it writable and not
  COW at that address only, and drops one reference of the shared page, which returns to
  the free list exactly when that was the last one. No other page that is not a table of
  this process, no other entry and no other count changes.\<close>

theorem removecopy_isolates:
  assumes "vinv kend (p # fl) pt s" "va < MAXVA"
    "\<not> (sz \<noteq> 0 \<and> PGROUNDDOWN va > sz - PGSIZE \<and> PGROUNDDOWN va < sz)"
    "e = pte_at s pt va" "is_V e" "e AND PTE_COW \<noteq> 0"
    "page_ok kend (PTE2PA e)" "1 \<le> refs s (PTE2PA e)" "PTE2PA e \<notin> tables s pt"
  shows "\<exists>s'. removecopy s pt va sz = Inr (0, s') \<and>
    vinv kend (if refs s (PTE2PA e) = 1 then PTE2PA e # fl else fl) pt s' \<and>
    (\<forall>vb < MAXVA. pte_at s' pt vb =
       (if PGROUNDDOWN vb = PGROUNDDOWN va then PA2PTE p OR (PTE_FLAGS e AND NOT PTE_COW OR PTE_W)
        else pte_at s pt vb)) \<and>
    (\<forall>off. unat off < 4096 \<longrightarrow> mem s' (p + off) = mem s (PTE2PA e + off)) \<and>
    (\<forall>q. q \<noteq> p \<and> q \<notin> tables s pt \<and> (q = PTE2PA e \<longrightarrow> refs s q \<noteq> 1) \<longrightarrow> same_page q (mem s) (mem s')) \<and>
    refs s' p = 1 \<and> refs s' (PTE2PA e) = refs s (PTE2PA e) - 1 \<and>
    (\<forall>q. page_ok kend q \<and> q \<noteq> p \<and> q \<noteq> PTE2PA e \<longrightarrow> refs s' q = refs s q)"
  using removecopy_private [OF assms] by blast

lemma cow_flag: "PTE_COW AND PTE_V = 0" "flag_bits PTE_COW"
  by (simp_all add: flag_bits_def layout_defs)

theorem removecopy_isolates_witness:
  "\<exists>s' p. removecopy (demo_map PTE_COW) 0x87ffe000 0 0 = Inr (0, s') \<and> PTE2PA (pte_at s' 0x87ffe000 0) = p \<and>
     p \<noteq> 0x87ffd000 \<and> refs s' p = 1 \<and> refs s' 0x87ffd000 = refs (demo_map PTE_COW) 0x87ffd000 - 1"
proof -
  let ?s = "demo_map PTE_COW"
  obtain fl0 where d: "vinv2 0x87ff8000 fl0 0x87ffe000 0x87fff000 ?s" "3 \<le> length fl0"
    "copy_ready 0x87ff8000 0x87ffe000 0x87fff000 ?s 0"
    using demo_fork_ready [OF cow_flag] by blast
  then obtain p fl where fl: "fl0 = p # fl" by (cases fl0) auto
  have z: "(0 :: uint64) < MAXVA" by (simp add: MAXVA_def)
  have e: "pte_at ?s 0x87ffe000 0 = PA2PTE 0x87ffd000 OR (PTE_COW OR PTE_V)"
    using demo_map_ok [of PTE_COW] z by (auto simp: PGROUNDDOWN_def or.assoc)
  have pa: "PTE2PA (pte_at ?s 0x87ffe000 0) = 0x87ffd000"
    by (simp add: e PTE2PA_PA2PTE) (simp add: PGROUNDDOWN_def PGSIZE_def)
  have r: "1 \<le> refs ?s 0x87ffd000" "page_ok 0x87ff8000 0x87ffd000" "0x87ffd000 \<notin> tables ?s 0x87ffe000"
    "is_V (pte_at ?s 0x87ffe000 0)"
    using d(3) unfolding copy_ready_def pa by auto
  have c: "pte_at ?s 0x87ffe000 0 AND PTE_COW \<noteq> 0"
    by (simp add: e PA2PTE_flag_test bit.conj_disj_distrib2 COW_flags)
  have v: "vinv 0x87ff8000 (p # fl) 0x87ffe000 ?s" using d(1) fl by (simp add: vinv2_def)
  then have p: "page_aligned p" "p \<noteq> 0x87ffd000" using r(1) by (auto simp: vinv_def kinv_def)
  have g: "\<not> (0 \<noteq> (0 :: uint64) \<and> PGROUNDDOWN 0 > 0 - PGSIZE \<and> PGROUNDDOWN 0 < 0)" by simp
  obtain s' where s': "removecopy ?s 0x87ffe000 0 0 = Inr (0, s')" "refs s' p = 1"
    "refs s' 0x87ffd000 = refs ?s 0x87ffd000 - 1"
    "pte_at s' 0x87ffe000 0 = PA2PTE p OR (PTE_FLAGS (pte_at ?s 0x87ffe000 0) AND NOT PTE_COW OR PTE_W)"
    using removecopy_isolates [OF v z g refl r(4) c] r(1-3) z unfolding pa by auto
  have "PTE2PA (pte_at s' 0x87ffe000 0) = p"
    using p(1) by (simp add: s'(4) PTE2PA_PA2PTE page_aligned_alt)
  with s'(1-3) p(2) show ?thesis by auto
qed

text \<open>The frame behind a page below the size.\<close>

lemma copy_frame:
  assumes "vinv2 kend fl old new s" "n * 4096 \<le> unat MAXVA"
    "\<forall>j < n. copy_ready kend old new s (of_nat j * PGSIZE)" "page_in 0 n vb"
  defines "q \<equiv> PTE2PA (pte_at s old vb)"
  shows "vb < MAXVA" "page_ok kend q" "1 \<le> refs s q" "q \<notin> set fl" "q \<notin> tables s old \<union> tables s new"
    "0 < count_list (frames (pte_at s old) 0 n) q"
proof -
  obtain j where j: "j < n" "PGROUNDDOWN vb = of_nat j * PGSIZE" "vb < MAXVA"
    using page_in_less [OF assms(2,4)] by blast
  have e: "pte_at s old (of_nat j * PGSIZE) = pte_at s old vb" using j(2) by (metis pte_at_PGROUNDDOWN)
  have c: "copy_ready kend old new s (of_nat j * PGSIZE)" using assms(3) j(1) by blast
  then show f: "page_ok kend q" "1 \<le> refs s q" "q \<notin> tables s old \<union> tables s new"
    by (simp_all add: copy_ready_def e q_def)
  show "q \<notin> set fl" using assms(1) f(2) by (auto simp: vinv2_def vinv_def kinv_def)
  have "q \<in> set (frames (pte_at s old) 0 n)"
    using frames_mem [OF j(1), of "pte_at s old" 0] e by (simp add: q_def)
  then show "0 < count_list (frames (pte_at s old) 0 n) q" by (metis count_list_0_iff gr0I)
  show "vb < MAXVA" by (rule j)
qed

text \<open>A copy-on-write fault of one process, seen from another one that shares the frame.\<close>

text \<open>The test of \<open>removecopy\<close> against its last argument has no effect on the calls the kernel makes: \<open>usertrap\<close> passes
  the stack pointer rounded down to a page, \<open>copyout\<close> passes 0.\<close>

lemma size_guard: "\<not> (PGROUNDDOWN sp \<noteq> 0 \<and> PGROUNDDOWN va > PGROUNDDOWN sp - PGSIZE \<and> PGROUNDDOWN va < PGROUNDDOWN sp)"
proof
  assume a: "PGROUNDDOWN sp \<noteq> 0 \<and> PGROUNDDOWN va > PGROUNDDOWN sp - PGSIZE \<and> PGROUNDDOWN va < PGROUNDDOWN sp"
  let ?a = "unat sp div 4096" let ?b = "unat va div 4096"
  have u: "unat (PGROUNDDOWN sp) = 4096 * ?a" "unat (PGROUNDDOWN va) = 4096 * ?b" by (simp_all add: unat_PGROUNDDOWN)
  have "0 < unat (PGROUNDDOWN sp)" using a by (simp add: unat_gt_0)
  then have "0 < ?a" using u(1) by simp
  then have "(4096 :: uint64) \<le> PGROUNDDOWN sp" using u(1) by (simp add: word_le_nat_alt)
  then have "unat (PGROUNDDOWN sp - PGSIZE) = 4096 * ?a - 4096" using u(1) by (simp add: PGSIZE_def unat_sub)
  then have "4096 * ?a - 4096 < 4096 * ?b" "4096 * ?b < 4096 * ?a" using a u by (simp_all add: word_less_nat_alt)
  then show False by simp
qed

lemma removecopy_beside:
  assumes v: "vinv2 kend (p # fl) old new s" and va: "va < MAXVA"
    and e: "e = pte_at s new va" "is_V e" "e AND PTE_COW \<noteq> 0"
    and pa: "page_ok kend (PTE2PA e)" "2 \<le> refs s (PTE2PA e)" "PTE2PA e \<notin> tables s new"
  shows "\<exists>s'. removecopy s new va (PGROUNDDOWN sp) = Inr (0, s') \<and> (\<forall>vb. pte_at s' old vb = pte_at s old vb) \<and>
    (\<forall>vb < MAXVA. pte_at s' new vb =
       (if PGROUNDDOWN vb = PGROUNDDOWN va then PA2PTE p OR (PTE_FLAGS e AND NOT PTE_COW OR PTE_W)
        else pte_at s new vb)) \<and>
    (\<forall>off. unat off < 4096 \<longrightarrow> mem s' (p + off) = mem s (PTE2PA e + off)) \<and>
    (\<forall>q. q \<noteq> p \<and> q \<notin> tables s new \<longrightarrow> same_page q (mem s) (mem s'))"
proof -
  have vn: "vinv kend (p # fl) new s" "pt_ok (mem s) 2 old" "p \<notin> tables s old" "tables s old \<inter> tables s new = {}"
    using v by (auto simp: vinv2_def vinv_def)
  have pa': "1 \<le> refs s (PTE2PA e)" "refs s (PTE2PA e) \<noteq> 1" using pa(2) by simp_all
  obtain s' where s': "removecopy s new va (PGROUNDDOWN sp) = Inr (0, s')"
    "\<forall>vb < MAXVA. pte_at s' new vb =
       (if PGROUNDDOWN vb = PGROUNDDOWN va then PA2PTE p OR (PTE_FLAGS e AND NOT PTE_COW OR PTE_W)
        else pte_at s new vb)"
    "\<forall>off. unat off < 4096 \<longrightarrow> mem s' (p + off) = mem s (PTE2PA e + off)"
    "\<forall>q. q \<noteq> p \<and> q \<notin> tables s new \<and> (q = PTE2PA e \<longrightarrow> refs s q \<noteq> 1) \<longrightarrow> same_page q (mem s) (mem s')"
    using removecopy_private [OF vn(1) va size_guard e pa(1) pa'(1) pa(3)] by blast
  have keep: "\<forall>q. q \<noteq> p \<and> q \<notin> tables s new \<longrightarrow> same_page q (mem s) (mem s')" using s'(4) pa'(2) by blast
  then have "\<forall>q \<in> tables s old. same_page q (mem s) (mem s')" using vn(3,4) by (metis disjoint_iff)
  then have "\<forall>vb. pte_at s' old vb = pte_at s old vb"
    using subtree_cong(2) [OF vn(2)] by (simp add: pte_at_def)
  with s'(1-3) keep show ?thesis by blast
qed

text \<open>A fork and a fault of the child, entry by entry: the child gets the frame \<open>p\<close> for the page of the fault.\<close>

lemma fork_fault:
  assumes "vinv2 kend fl old new s" "n * 4096 \<le> unat MAXVA"
    "\<forall>j < n. copy_ready kend old new s (of_nat j * PGSIZE)" "2 * n < length fl"
    "n \<noteq> 0 \<longrightarrow> (n - 1) * 4096 < unat sz" "unat sz \<le> n * 4096"
    "page_in 0 n va" "pte_at s old va AND PTE_W \<noteq> 0"
  obtains s1 s2 p where "uvmcopy s old new sz = Inr (0, s1)" "removecopy s1 new va (PGROUNDDOWN sp) = Inr (0, s2)" "page_aligned p"
    "pte_at s2 new va = PA2PTE p OR (PTE_FLAGS (cow_child (pte_at s old va)) AND NOT PTE_COW OR PTE_W)"
    "\<And>off. unat off < 4096 \<Longrightarrow> mem s2 (p + off) = mem s (PTE2PA (pte_at s old va) + off)"
    "\<And>vb. page_in 0 n vb \<Longrightarrow> PTE2PA (pte_at s2 old vb) = PTE2PA (pte_at s old vb)"
    "\<And>vb. page_in 0 n vb \<Longrightarrow> PTE2PA (pte_at s old vb) \<noteq> p"
    "\<And>vb. page_in 0 n vb \<Longrightarrow> PGROUNDDOWN vb \<noteq> PGROUNDDOWN va \<Longrightarrow> PTE2PA (pte_at s2 new vb) = PTE2PA (pte_at s old vb)"
    "\<And>vb off. page_in 0 n vb \<Longrightarrow> unat off < 4096 \<Longrightarrow> mem s2 (PTE2PA (pte_at s old vb) + off) = mem s (PTE2PA (pte_at s old vb) + off)"
proof -
  have "2 * n \<le> length fl" using assms(4) by simp
  then obtain s1 used fl' where r: "uvmcopy s old new sz = Inr (0, s1)" "fl = used @ fl'" "length used \<le> 2 * n"
    "vinv2 kend fl' old new s1"
    "\<forall>vb < MAXVA. pte_at s1 old vb = (if page_in 0 n vb then cow_parent (pte_at s old vb) else pte_at s old vb)"
    "\<forall>vb < MAXVA. pte_at s1 new vb = (if page_in 0 n vb then cow_child (pte_at s old vb) else pte_at s new vb)"
    "tables s1 old = tables s old" "tables s1 new = tables s new \<union> set used"
    "\<forall>q. q \<notin> tables s old \<union> tables s new \<union> set used \<longrightarrow> same_page q (mem s) (mem s1)"
    "\<forall>q. page_ok kend q \<and> q \<notin> set used \<longrightarrow> refs s1 q = refs s q + int (count_list (frames (pte_at s old) 0 n) q)"
    using uvmcopy_run [OF assms(1-3) _ assms(5,6)] by blast
  have "length used < length fl" using r(3) assms(4) by simp
  then obtain p fl2 where fl': "fl' = p # fl2" using r(2) by (cases fl') auto
  note frame = copy_frame [OF assms(1-3)]
  have nf: "PTE2PA (pte_at s old vb) \<notin> set used" "PTE2PA (pte_at s old vb) \<noteq> p"
    "2 \<le> refs s1 (PTE2PA (pte_at s old vb))" if "page_in 0 n vb" for vb
    using frame [OF that] r(2,10) fl' by auto
  define e0 where "e0 = pte_at s old va"
  have va: "va < MAXVA" using frame(1) [OF assms(7)] .
  have e: "cow_child e0 = pte_at s1 new va" using r(6) va assms(7) by (simp add: e0_def)
  have v: "vinv2 kend (p # fl2) old new s1" "page_aligned p"
    using r(4) fl' by (auto simp: vinv2_def vinv_def kinv_def)
  note fv = frame [OF assms(7), folded e0_def] and nv = nf [OF assms(7), folded e0_def]
  have pre: "page_ok kend (PTE2PA (cow_child e0))" "2 \<le> refs s1 (PTE2PA (cow_child e0))"
    "PTE2PA (cow_child e0) \<notin> tables s1 new" "cow_child e0 AND PTE_COW \<noteq> 0"
    using fv nv r(8) cow_child_flags(2) [OF assms(8), folded e0_def] by (simp_all add: cow_same_page)
  obtain s2 where s2: "removecopy s1 new va (PGROUNDDOWN sp) = Inr (0, s2)" "\<forall>vb. pte_at s2 old vb = pte_at s1 old vb"
    "\<forall>vb < MAXVA. pte_at s2 new vb =
       (if PGROUNDDOWN vb = PGROUNDDOWN va then PA2PTE p OR (PTE_FLAGS (cow_child e0) AND NOT PTE_COW OR PTE_W)
        else pte_at s1 new vb)"
    "\<forall>off. unat off < 4096 \<longrightarrow> mem s2 (p + off) = mem s1 (PTE2PA e0 + off)"
    "\<forall>q. q \<noteq> p \<and> q \<notin> tables s1 new \<longrightarrow> same_page q (mem s1) (mem s2)"
    using removecopy_beside [OF v(1) va e cow_child_flags(1) pre(4,1-3)] unfolding cow_same_page by blast
  have bytes: "mem s1 (PTE2PA (pte_at s old vb) + off) = mem s (PTE2PA (pte_at s old vb) + off)"
    "mem s2 (PTE2PA (pte_at s old vb) + off) = mem s (PTE2PA (pte_at s old vb) + off)"
    if "page_in 0 n vb" "unat off < 4096" for vb off
  proof -
    have "same_page (PTE2PA (pte_at s old vb)) (mem s) (mem s1)" "same_page (PTE2PA (pte_at s old vb)) (mem s1) (mem s2)"
      using s2(5) r(8,9) frame(5) [OF that(1)] nf(1,2) [OF that(1)] by simp_all
    then show "mem s1 (PTE2PA (pte_at s old vb) + off) = mem s (PTE2PA (pte_at s old vb) + off)"
      "mem s2 (PTE2PA (pte_at s old vb) + off) = mem s (PTE2PA (pte_at s old vb) + off)"
      using in_page_offset [OF _ that(2), of "PTE2PA (pte_at s old vb)"] by (simp_all add: same_page_def)
  qed
  show thesis
  proof (rule that [OF r(1) s2(1) v(2)])
    show "pte_at s2 new va = PA2PTE p OR (PTE_FLAGS (cow_child (pte_at s old va)) AND NOT PTE_COW OR PTE_W)"
      using s2(3) va by (simp add: e0_def)
    show "mem s2 (p + off) = mem s (PTE2PA (pte_at s old va) + off)" if "unat off < 4096" for off
      using s2(4) that bytes(1) [OF assms(7) that] by (simp add: e0_def)
    show "PTE2PA (pte_at s2 old vb) = PTE2PA (pte_at s old vb)" "PTE2PA (pte_at s old vb) \<noteq> p" if "page_in 0 n vb" for vb
      using s2(2) r(5) frame(1) [OF that] that nf(2) [OF that] by (simp_all add: cow_same_page)
    show "PTE2PA (pte_at s2 new vb) = PTE2PA (pte_at s old vb)" if "page_in 0 n vb" "PGROUNDDOWN vb \<noteq> PGROUNDDOWN va" for vb
      using s2(3) r(6) frame(1) [OF that(1)] that by (simp add: cow_same_page)
  qed (fact bytes(2))
qed



text \<open>C16: \<open>mappages\<close> on a page-aligned range of unmapped pages below \<open>MAXVA\<close> never panics and
  never faults. It returns 0 with exactly those pages mapped, in order, to consecutive
  frames with the permissions asked for; or it returns -1 with a prefix of them mapped, and
  then the free list is empty. Entries outside the range keep their value.\<close>

theorem mappages_maps:
  assumes "vinv kend fl pt s" "page_aligned va" "unat va + n * 4096 < unat MAXVA"
    "\<forall>j \<le> n. \<not> is_V (pte_at s pt (va + of_nat j * PGSIZE))"
  shows "\<exists>r s' fl' k. mappages s pt va (of_nat (Suc n) * PGSIZE) pa perm = Inr (r, s') \<and>
    vinv kend fl' pt s' \<and>
    (r = 0 \<and> k = Suc n \<or> r = -1 \<and> k \<le> n \<and> fl' = []) \<and>
    (\<forall>vb < MAXVA. pte_at s' pt vb =
       (if \<exists>j < k. PGROUNDDOWN vb = va + of_nat j * PGSIZE
        then PA2PTE (pa + (PGROUNDDOWN vb - va)) OR perm OR PTE_V else pte_at s pt vb))"
  unfolding mappages_args [OF assms(2,3)]
  using mappages_loop_ok [OF assms, of pa perm] unfolding map_upd_def by blast

theorem mappages_maps_witness:
  "\<exists>r s'. mappages demo 0x87ffe000 0x1000 (of_nat (Suc 1) * PGSIZE) 0x87ffc000 PTE_R = Inr (r, s') \<and>
     (r = 0 \<longrightarrow> PTE2PA (pte_at s' 0x87ffe000 0x2000) = 0x87ffd000)"
proof -
  have v: "vinv 0x87ff8000 demo_fl 0x87ffe000 demo" by (rule demo_vinv) simp
  have n: "\<forall>j \<le> 1. \<not> is_V (pte_at demo 0x87ffe000 (0x1000 + of_nat j * PGSIZE))"
    using demo_vinv(2) [of "0x87ffe000"] by (simp add: is_V_def)
  have a: "page_aligned 0x1000" "unat (0x1000 :: uint64) + 1 * 4096 < unat MAXVA"
    by (simp_all add: page_aligned_def PGSIZE_def MAXVA_def)
  have p: "PGROUNDDOWN 0x2000 = 0x2000" "(0x2000 :: uint64) < MAXVA"
    by (simp_all add: PGROUNDDOWN_def PGSIZE_def MAXVA_def)
  have j: "\<exists>j < Suc 1. (0x2000 :: uint64) = 0x1000 + of_nat j * PGSIZE"
    by (rule exI [of _ 1]) (simp add: PGSIZE_def)
  have pa: "PTE2PA (PA2PTE (0x87ffc000 + (0x2000 - 0x1000)) OR (PTE_R OR PTE_V)) = 0x87ffd000"
    by (simp add: PTE2PA_PA2PTE) (simp add: PGROUNDDOWN_def PGSIZE_def)
  show ?thesis
    using mappages_maps [OF v a n, of "0x87ffc000" PTE_R] p j pa by (fastforce simp: or.assoc)
qed

lemma demo_user:
  "pt_ok (mem (demo_map user_flags)) 2 0x87ffe000"
  "i < 16 \<Longrightarrow> user_ok (demo_map user_flags) 0x87ffe000 (0xff0 + of_nat i)"
  "\<not> user_ok (demo_map user_flags) 0x87ffe000 (0xff0 + of_nat 16)"
proof -
  let ?s = "demo_map user_flags"
  obtain fl where v: "vinv 0x87ff8000 fl 0x87ffe000 ?s" and
    p: "\<forall>vb < MAXVA. pte_at ?s 0x87ffe000 vb = (if PGROUNDDOWN vb = 0 then PA2PTE 0x87ffd000 OR user_flags OR PTE_V else 0)"
    using demo_map_ok by blast
  show "pt_ok (mem ?s) 2 0x87ffe000" using v by (simp add: vinv_def)
  have pa: "PTE2PA (PA2PTE 0x87ffd000 OR (user_flags OR PTE_V)) = 0x87ffd000"
    "is_V (PA2PTE 0x87ffd000 OR (user_flags OR PTE_V))" "(PA2PTE 0x87ffd000 OR (user_flags OR PTE_V)) AND PTE_U \<noteq> 0"
    by (simp_all add: PTE2PA_PA2PTE is_V_PTE PA2PTE_flag_test user_flags)
      (simp_all add: PGROUNDDOWN_def user_flags_def layout_defs)
  show "user_ok ?s 0x87ffe000 (0xff0 + of_nat i)" if "i < 16"
  proof -
    have "PGROUNDDOWN (0xff0 + of_nat i) = PGROUNDDOWN 0xff0"
      by (rule same_page_offset) (use that in \<open>simp add: PGROUNDDOWN_def PGSIZE_def\<close>)
    then have z: "PGROUNDDOWN (0xff0 + of_nat i) = 0" by (simp add: PGROUNDDOWN_def PGSIZE_def)
    then have "0xff0 + of_nat i < MAXVA" using PGROUNDDOWN_less_MAXVA [of "0xff0 + of_nat i"] by (simp add: MAXVA_def)
    with p z pa show ?thesis by (simp add: user_ok_def or.assoc)
  qed
  show "\<not> user_ok ?s 0x87ffe000 (0xff0 + of_nat 16)"
    using p by (simp add: user_ok_def is_V_def PGROUNDDOWN_def PGSIZE_def)
qed

text \<open>C17: \<open>copyin\<close> always returns. If every byte of the source range is mapped for the user it
  returns 0 and exactly the bytes the user sees at those addresses; if one is not, or lies
  beyond \<open>MAXVA\<close>, it returns -1.\<close>

theorem copyin_reads:
  assumes "pt_ok (mem s) 2 pt"
  shows "if \<forall>i < n. user_ok s pt (va + of_nat i)
    then copyin s pt va n = Inr (0, map (\<lambda>i. vread s pt (va + of_nat i)) [0..<n])
    else \<exists>bs. copyin s pt va n = Inr (-1, bs)"
  using copyin_loop_spec [OF assms, of n "Suc n" va] by (auto simp: copyin_def)

theorem copyin_reads_witness:
  "copyin (demo_map user_flags) 0x87ffe000 0xff0 16 =
     Inr (0, map (\<lambda>i. vread (demo_map user_flags) 0x87ffe000 (0xff0 + of_nat i)) [0..<16]) \<and>
   (\<exists>bs. copyin (demo_map user_flags) 0x87ffe000 0xff0 17 = Inr (-1, bs))"
proof -
  let ?s = "demo_map user_flags"
  have "\<not> (\<forall>i < 17. user_ok ?s 0x87ffe000 (0xff0 + of_nat i))"
    using demo_user(3) by (metis (mono_tags) eval_nat_numeral(3) lessI)
  then show ?thesis
    using demo_user(2) copyin_reads [OF demo_user(1), of 16 "0xff0"] copyin_reads [OF demo_user(1), of 17 "0xff0"] by simp
qed

text \<open>C18: a store fault outside the mapped address space reaches \<open>removecopy\<close> too, and the entry
  address it gets from \<open>walk\<close> is dereferenced without a test: where no last-level table
  exists, the kernel itself faults.\<close>

theorem removecopy_unmapped_faults:
  assumes "pt_ok (mem s) 2 pt" "va < MAXVA" "ltab (mem s) 2 pt va = None"
    "\<not> (sz \<noteq> 0 \<and> PGROUNDDOWN va > sz - PGSIZE \<and> PGROUNDDOWN va < sz)"
  shows "removecopy s pt va sz = Inl NullDeref"
proof -
  have "PGROUNDDOWN va < MAXVA" using assms(2) by simp
  then show ?thesis
    using walk_find [OF assms(1), of "PGROUNDDOWN va"] assms(2-4)
    by (auto simp: removecopy_def Let_def not_le [symmetric])
qed

theorem removecopy_unmapped_faults_witness: "removecopy demo 0x87ffe000 0x40000000 4096 = Inl NullDeref"
proof -
  have al: "page_aligned 0x87ffe000" by (simp add: page_aligned_def PGSIZE_def)
  have z: "mem demo x = 0" if "in_page 0x87ffe000 x" for x using demo_zero [of "0x87ffe000" x] that by simp
  have n: "ltab (mem demo) 2 0x87ffe000 0x40000000 = None"
    using zero_table(4) [of "0x87ffe000" "mem demo" 1, OF z al] by (simp add: numeral_2_eq_2)
  have v: "vinv 0x87ff8000 demo_fl 0x87ffe000 demo" by (rule demo_vinv) simp
  show ?thesis
    by (rule removecopy_unmapped_faults [OF _ _ n])
      (use v in \<open>simp_all add: vinv_def MAXVA_def PGROUNDDOWN_def PGSIZE_def\<close>)
qed

section \<open>Storing bytes in user memory\<close>

text \<open>The physical address behind a user address, and a buffer of the user that \<open>copyout\<close> can fill in place: every byte is mapped
  for the user in a page that is not shared and is not a page table, and no two of them are the same byte of memory.\<close>

definition uaddr :: "'z kmem_scheme \<Rightarrow> uint64 \<Rightarrow> uint64 \<Rightarrow> uint64" where
  "uaddr s pt va = PTE2PA (pte_at s pt va) + (va - PGROUNDDOWN va)"

definition user_buf :: "'z kmem_scheme \<Rightarrow> uint64 \<Rightarrow> uint64 \<Rightarrow> nat \<Rightarrow> bool" where
  "user_buf s pt a n \<longleftrightarrow> pt_ok (mem s) 2 pt \<and>
     (\<forall>i < n. user_ok s pt (a + of_nat i) \<and> pte_at s pt (a + of_nat i) AND PTE_COW = 0 \<and>
        PTE2PA (pte_at s pt (a + of_nat i)) \<notin> tables s pt) \<and>
     (\<forall>i < n. \<forall>j < n. uaddr s pt (a + of_nat i) = uaddr s pt (a + of_nat j) \<longrightarrow> i = j)"

lemma vread_uaddr: "vread s pt va = mem s (uaddr s pt va)"
  by (simp add: vread_def uaddr_def)

lemma copyout_byte:
  assumes "pt_ok (mem s) 2 pt" "user_ok s pt va" "pte_at s pt va AND PTE_COW = 0"
  shows "copyout s pt va [c] = Inr (0, s\<lparr>mem := (mem s)(uaddr s pt va := c)\<rparr>)"
proof -
  have va: "PGROUNDDOWN va < MAXVA" "is_V (pte_at s pt va)" "PTE2PA (pte_at s pt va) \<noteq> 0" using assms(2) by (simp_all add: user_ok_def)
  have w: "walkaddr s pt (PGROUNDDOWN va) = Inr (PTE2PA (pte_at s pt va))" using walkaddr_spec [OF assms(1)] assms(2) by simp
  obtain a where a: "walk s pt (PGROUNDDOWN va) False = Inr (a, s)" "a \<noteq> 0" "load64 (mem s) a = pte_at s pt va"
    using walk_find [OF assms(1) va(1)] va(2) by (auto simp: is_V_def)
  have m: "min (4096 - unat (va - PGROUNDDOWN va)) (Suc 0) = Suc 0" using page_offset_less [of va] by simp
  have st: "store_bytes m x [c] = m(x := c)" for m :: memory and x
    by (auto simp: store_bytes_def fun_eq_iff unsigned_eq_0_iff)
  show ?thesis using w a va(3) assms(3) by (simp add: copyout_def m st uaddr_def numeral_2_eq_2 Let_def)
qed

lemma user_byte_tables:
  fixes c :: uint8
  assumes "pt_ok (mem s) 2 pt" "PTE2PA (pte_at s pt va) \<notin> tables s pt"
  defines "t \<equiv> s\<lparr>mem := (mem s)(uaddr s pt va := c)\<rparr>"
  shows "pt_ok (mem t) 2 pt" "pte_at t pt vb = pte_at s pt vb" "tables t pt = tables s pt"
proof -
  have "in_page (PTE2PA (pte_at s pt va)) (uaddr s pt va)"
    unfolding uaddr_def by (rule in_page_offset [OF page_aligned_PTE2PA page_offset_less])
  then have "\<forall>q \<in> tables s pt. same_page q (mem s) (mem t)"
    using assms(2) in_page_inj by (auto simp: same_page_def t_def)
  from subtree_cong [OF assms(1) this] show "pt_ok (mem t) 2 pt" "pte_at t pt vb = pte_at s pt vb" "tables t pt = tables s pt"
    by (simp_all add: pte_at_def)
qed

lemma user_buf_mem:
  fixes s :: "'z kmem_scheme" and t :: "'y kmem_scheme"
  assumes "mem s = mem t"
  shows "user_buf s pt a n = user_buf t pt a n" "uaddr s pt va = uaddr t pt va"
  using assms by (simp_all add: user_buf_def uaddr_def user_ok_def pte_at_def)

text \<open>One byte stored: the buffer after it is as before, and its mapping has not changed.\<close>

lemma user_buf_step:
  assumes "user_buf s pt a (Suc n)"
  shows "\<exists>t. copyout s pt a [c] = Inr (0, t) \<and> mem t = (mem s)(uaddr s pt a := c) \<and> user_buf t pt (a + 1) n \<and>
    (\<forall>va. uaddr t pt va = uaddr s pt va) \<and> (\<forall>k < n. uaddr s pt (a + 1 + of_nat k) \<noteq> uaddr s pt a)"
proof -
  have b: "pt_ok (mem s) 2 pt" "user_ok s pt (a + of_nat i)" "pte_at s pt (a + of_nat i) AND PTE_COW = 0"
    "PTE2PA (pte_at s pt (a + of_nat i)) \<notin> tables s pt" if "i < Suc n" for i
    using assms that by (auto simp: user_buf_def)
  have inj: "i = j" if "i < Suc n" "j < Suc n" "uaddr s pt (a + of_nat i) = uaddr s pt (a + of_nat j)" for i j
    using assms that unfolding user_buf_def by blast
  have sh: "a + 1 + of_nat k = a + of_nat (Suc k)" for k by simp
  define t where "t = s\<lparr>mem := (mem s)(uaddr s pt a := c)\<rparr>"
  have c: "copyout s pt a [c] = Inr (0, t)" unfolding t_def using b [of 0] by (intro copyout_byte) simp_all
  have nt: "PTE2PA (pte_at s pt a) \<notin> tables s pt" using b(4) [of 0] by simp
  note tt = user_byte_tables [OF b(1) [of 0, simplified] nt, of c, folded t_def]
  have u: "uaddr t pt va = uaddr s pt va" "user_ok t pt va = user_ok s pt va" for va by (simp_all add: uaddr_def user_ok_def tt)
  have "user_buf t pt (a + 1) n" unfolding user_buf_def u tt sh
  proof (intro conjI allI impI)
    show "pt_ok (mem t) 2 pt" by (fact tt(1))
    fix i assume "i < n"
    then show "user_ok s pt (a + of_nat (Suc i))" "pte_at s pt (a + of_nat (Suc i)) AND PTE_COW = 0"
      "PTE2PA (pte_at s pt (a + of_nat (Suc i))) \<notin> tables s pt" using b [of "Suc i"] by blast+
  next
    fix i j assume "i < n" "j < n" "uaddr s pt (a + of_nat (Suc i)) = uaddr s pt (a + of_nat (Suc j))"
    then show "i = j" using inj [of "Suc i" "Suc j"] by simp
  qed
  moreover have "uaddr s pt (a + 1 + of_nat k) \<noteq> uaddr s pt a" if "k < n" for k
    using inj [of "Suc k" 0] that unfolding sh by auto
  ultimately show ?thesis using c u(1) by (intro exI [of _ t]) (simp add: t_def)
qed

lemma demo_user_buf: "user_buf (demo_map user_flags) 0x87ffe000 0xff0 1"
proof -
  obtain used fl where d: "demo_fl = used @ fl"
    "vstep 0x87ff8000 0x87ffe000 used demo (demo_map user_flags)"
    "\<forall>vb < MAXVA. pte_at (demo_map user_flags) 0x87ffe000 vb = (if PGROUNDDOWN vb = 0 then PA2PTE 0x87ffd000 OR user_flags OR PTE_V else 0)"
    using demo_map_ok by blast
  have "0x87ffd000 \<notin> set demo_fl" by (simp add: demo_fl_def)
  then have "0x87ffd000 \<notin> insert 0x87ffe000 (set used)" by (simp add: d(1))
  moreover have "tables (demo_map user_flags) 0x87ffe000 = insert 0x87ffe000 (set used)"
    using d(2) demo_vinv(3) unfolding vstep_def by auto
  moreover have "pte_at (demo_map user_flags) 0x87ffe000 0xff0 = PA2PTE 0x87ffd000 OR user_flags OR PTE_V"
    using d(3) [rule_format, of "0xff0"] by (simp add: MAXVA_def PGROUNDDOWN_def layout_defs)
  moreover have "PTE2PA (PA2PTE 0x87ffd000 OR user_flags OR PTE_V) = 0x87ffd000"
    "(PA2PTE 0x87ffd000 OR user_flags OR PTE_V) AND PTE_COW = 0"
    by (simp_all add: user_flags_def PA2PTE_def PTE2PA_def layout_defs)
  ultimately show ?thesis
    using demo_user(1) demo_user(2) [of 0] by (simp add: user_buf_def)
qed

end
