(* ===== verification/Proc.thy ===== *)
theory Proc
  imports Uvm
begin

text \<open>
  Processes, \<open>kernel/proc.h\<close> and the parts of \<open>kernel/proc.c\<close> below the file system: the
  process table, slot allocation and release, user memory size, sleep and wakeup, kill,
  wait. \<open>struct proc\<close> is the record \<open>proc\<close>, its fields prefixed with \<open>p_\<close>; a pointer into
  the table is an index. \<open>myproc()\<close> is the argument \<open>me\<close>. A critical section of a spin
  lock is one atomic step; \<open>sleep\<close> is the pair \<open>sleep_begin\<close> (up to the switch to the
  scheduler) and \<open>sleep_end\<close> (after it). C \<open>int\<close> counters are integers; fields that hold
  clock ticks are 32-bit words, as \<open>ticks\<close> is.
\<close>

section \<open>The process table\<close>

datatype procstate = UNUSED | USED | SLEEPING | RUNNABLE | RUNNING | ZOMBIE

text \<open>The sleep channels the kernel uses, by the address that names them.\<close>

datatype chan =
    ChProc nat            \<comment> \<open>a process, in \<open>wait\<close>\<close>
  | ChTicks               \<comment> \<open>\<open>&ticks\<close>\<close>
  | ChNread nat           \<comment> \<open>\<open>&pi->nread\<close> of a pipe\<close>
  | ChNwrite nat          \<comment> \<open>\<open>&pi->nwrite\<close>\<close>
  | ChSleeplock nat       \<comment> \<open>a sleep lock\<close>
  | ChLog                 \<comment> \<open>\<open>&log\<close>\<close>
  | ChCons                \<comment> \<open>\<open>&cons.r\<close>\<close>
  | ChUart                \<comment> \<open>\<open>&uart_tx_r\<close>\<close>
  | ChDiskFree            \<comment> \<open>\<open>&disk.free[0]\<close>\<close>
  | ChBuf nat             \<comment> \<open>a buffer, in \<open>virtio_disk_rw\<close>\<close>

record proc =
  p_state :: procstate
  p_chan :: "chan option"
  p_killed :: int
  p_xstate :: int
  p_pid :: int
  p_parent :: "nat option"
  p_kstack :: uint64
  p_sz :: uint64
  p_pagetable :: uint64
  p_trapframe :: uint64
  p_ctx_ra :: uint64
  p_ctx_sp :: uint64
  p_ofile :: "nat \<Rightarrow> nat option"
  p_cwd :: "nat option"
  p_name :: "uint8 list"
  p_rtime :: uint
  p_ctime :: uint
  p_etime :: uint
  p_ticks :: int
  p_current_ticks :: int
  p_sigalarm :: uint64
  p_handler :: uint64
  p_interval :: int
  p_curr_queue :: int
  p_prev_queue :: int
  p_time_wait :: int
  p_time_run_queue :: int
  p_tick_ctr :: int
  p_queue_level :: int
  p_last_exec :: uint
  p_in_time :: uint
  p_run_time :: int
  p_wait_time :: int
  p_sleep_time :: int
  p_priority :: int
  p_dynamic_priority :: int
  p_num_shed :: int

text \<open>
  The kernel state so far. \<open>tramp_pa\<close> and \<open>forkret_pc\<close> are the link-time addresses of the
  trampoline page and of \<open>forkret\<close>.
\<close>

record kproc = kmem +
  procs :: "nat \<Rightarrow> proc"
  ticks :: uint
  nextpid :: int
  initproc :: "nat option"
  tramp_pa :: uint64
  forkret_pc :: uint64

definition proc_upd :: "nat \<Rightarrow> (proc \<Rightarrow> proc) \<Rightarrow> 'z kproc_scheme \<Rightarrow> 'z kproc_scheme" where
  "proc_upd i f s = s\<lparr>procs := (procs s)(i := f (procs s i))\<rparr>"

definition proc_find :: "(proc \<Rightarrow> bool) \<Rightarrow> 'z kproc_scheme \<Rightarrow> nat option" where
  "proc_find P s = find (\<lambda>i. P (procs s i)) [0..<NPROC]"

definition proc_mapstacks :: "'z kproc_scheme \<Rightarrow> uint64 \<Rightarrow> 'z kproc_scheme res" where
  "proc_mapstacks s kpgtbl =
     fold_res (\<lambda>i s.
       bind_res (kalloc s) (\<lambda>(pa, s).
         if pa = 0 then Inl (Panic ''kalloc'')
         else kvmmap s kpgtbl (KSTACK (of_nat i)) pa PGSIZE (PTE_R OR PTE_W))) [0..<NPROC] s"

text \<open>\<open>kvmmake\<close> of \<open>kernel/vm.c\<close>; \<open>etext\<close> is the end of the kernel's code.\<close>

definition kvmmake :: "'z kproc_scheme \<Rightarrow> uint64 \<Rightarrow> (uint64 \<times> 'z kproc_scheme) res" where
  "kvmmake s etext =
     bind_res (kalloc s) (\<lambda>(kpgtbl, s).
       if kpgtbl = 0 then Inl NullDeref
       else
         let s = s\<lparr>mem := memset (mem s) kpgtbl 0 4096\<rparr>
         in bind_res (kvmmap s kpgtbl UART0 UART0 PGSIZE (PTE_R OR PTE_W)) (\<lambda>s.
            bind_res (kvmmap s kpgtbl VIRTIO0 VIRTIO0 PGSIZE (PTE_R OR PTE_W)) (\<lambda>s.
            bind_res (kvmmap s kpgtbl PLIC PLIC 0x400000 (PTE_R OR PTE_W)) (\<lambda>s.
            bind_res (kvmmap s kpgtbl KERNBASE KERNBASE (etext - KERNBASE) (PTE_R OR PTE_X)) (\<lambda>s.
            bind_res (kvmmap s kpgtbl etext etext (PHYSTOP - etext) (PTE_R OR PTE_W)) (\<lambda>s.
            bind_res (kvmmap s kpgtbl TRAMPOLINE (tramp_pa s) PGSIZE (PTE_R OR PTE_X)) (\<lambda>s.
            bind_res (proc_mapstacks s kpgtbl) (\<lambda>s. Inr (kpgtbl, s)))))))))"

definition procinit :: "'z kproc_scheme \<Rightarrow> 'z kproc_scheme" where
  "procinit s =
     fold (\<lambda>i. proc_upd i (\<lambda>p. p\<lparr>p_state := UNUSED, p_kstack := KSTACK (of_nat i)\<rparr>)) [0..<NPROC] s"

definition allocpid :: "'z kproc_scheme \<Rightarrow> (int \<times> 'z kproc_scheme) res" where
  "allocpid s =
     (let pid = nextpid s
      in bind_res (c_int (nextpid s + 1)) (\<lambda>n. Inr (pid, s\<lparr>nextpid := n\<rparr>)))"


section \<open>Slots\<close>

definition proc_freepagetable :: "'z kproc_scheme \<Rightarrow> uint64 \<Rightarrow> uint64 \<Rightarrow> 'z kproc_scheme res" where
  "proc_freepagetable s pagetable size_b =
     bind_res (uvmunmap s pagetable TRAMPOLINE 1 False) (\<lambda>s.
     bind_res (uvmunmap s pagetable TRAPFRAME 1 False) (\<lambda>s.
       uvmfree s pagetable size_b))"

definition proc_pagetable :: "'z kproc_scheme \<Rightarrow> nat \<Rightarrow> (uint64 \<times> 'z kproc_scheme) res" where
  "proc_pagetable s i =
     bind_res (uvmcreate s) (\<lambda>(pagetable, s).
       if pagetable = 0 then Inr (0, s)
       else bind_res (mappages s pagetable TRAMPOLINE PGSIZE (tramp_pa s) (PTE_R OR PTE_X)) (\<lambda>(r, s).
         if r < 0 then bind_res (uvmfree s pagetable 0) (\<lambda>s. Inr (0, s))
         else bind_res (mappages s pagetable TRAPFRAME PGSIZE (p_trapframe (procs s i)) (PTE_R OR PTE_W)) (\<lambda>(r, s).
           if r < 0 then
             bind_res (uvmunmap s pagetable TRAMPOLINE 1 False) (\<lambda>s.
             bind_res (uvmfree s pagetable 0) (\<lambda>s. Inr (0, s)))
           else Inr (pagetable, s))))"

definition freeproc_fields :: "uint \<Rightarrow> proc \<Rightarrow> proc" where
  "freeproc_fields now p =
     p\<lparr>p_pagetable := 0, p_sz := 0, p_pid := 0, p_parent := None, p_name := (p_name p)[0 := 0],
       p_chan := None, p_killed := 0, p_xstate := 0, p_state := UNUSED,
       p_tick_ctr := 0, p_ticks := 0, p_handler := 0, p_sigalarm := 0, p_interval := -1,
       p_current_ticks := 0, p_curr_queue := -1, p_prev_queue := -1, p_time_wait := 0,
       p_time_run_queue := 0, p_queue_level := 0, p_last_exec := now, p_wait_time := 0,
       p_run_time := 0, p_priority := 0, p_dynamic_priority := 0, p_sleep_time := 0,
       p_num_shed := 0\<rparr>"

definition freeproc :: "'z kproc_scheme \<Rightarrow> nat \<Rightarrow> 'z kproc_scheme res" where
  "freeproc s i =
     bind_res (if p_trapframe (procs s i) \<noteq> 0 then kfree s (p_trapframe (procs s i)) else Inr s) (\<lambda>s.
       let s = proc_upd i (\<lambda>p. p\<lparr>p_trapframe := 0\<rparr>) s
       in bind_res
            (if p_pagetable (procs s i) \<noteq> 0
             then proc_freepagetable s (p_pagetable (procs s i)) (p_sz (procs s i)) else Inr s)
            (\<lambda>s. Inr (proc_upd i (freeproc_fields (ticks s)) s)))"

text \<open>
  The fields \<open>allocproc\<close> sets before it allocates memory, and again after it. The fields
  \<open>killed\<close> and \<open>in_time\<close> are not among them.
\<close>

definition alloc_fields :: "uint \<Rightarrow> proc \<Rightarrow> proc" where
  "alloc_fields now p =
     p\<lparr>p_tick_ctr := 0, p_queue_level := 0, p_last_exec := now, p_ticks := 0, p_handler := 0,
       p_sigalarm := 0, p_interval := -1, p_current_ticks := 0, p_curr_queue := -1,
       p_prev_queue := -1, p_time_wait := 0, p_time_run_queue := 0, p_wait_time := 0,
       p_run_time := 0, p_priority := 50, p_dynamic_priority := 0, p_sleep_time := 0,
       p_num_shed := 0\<rparr>"

definition allocproc :: "'z kproc_scheme \<Rightarrow> (nat option \<times> 'z kproc_scheme) res" where
  "allocproc s =
     (case proc_find (\<lambda>p. p_state p = UNUSED) s of
        None \<Rightarrow> Inr (None, kprint ''allocproc: no usable process. Increase NPROC in param.h
'' s)
      | Some i \<Rightarrow>
          bind_res (allocpid s) (\<lambda>(pid, s).
          let s = proc_upd i (\<lambda>p. alloc_fields (ticks s) (p\<lparr>p_pid := pid, p_state := USED\<rparr>)) s
          in bind_res (kalloc s) (\<lambda>(tf, s).
               let s = proc_upd i (\<lambda>p. p\<lparr>p_trapframe := tf\<rparr>) s
               in if tf = 0 then bind_res (freeproc s i) (\<lambda>s. Inr (None, s))
                  else bind_res (proc_pagetable s i) (\<lambda>(pt, s).
                    let s = proc_upd i (\<lambda>p. p\<lparr>p_pagetable := pt\<rparr>) s
                    in if pt = 0 then bind_res (freeproc s i) (\<lambda>s. Inr (None, s))
                       else
                         Inr (Some i, proc_upd i (\<lambda>p. alloc_fields (ticks s)
                           (p\<lparr>p_ctx_ra := forkret_pc s, p_ctx_sp := p_kstack p + PGSIZE,
                              p_rtime := 0, p_etime := 0, p_ctime := ticks s\<rparr>)) s)))))"

text \<open>\<open>growproc\<close>: the new size is \<open>sz + n\<close> in 64-bit arithmetic.\<close>

definition growproc :: "'z kproc_scheme \<Rightarrow> nat \<Rightarrow> int \<Rightarrow> (int \<times> 'z kproc_scheme) res" where
  "growproc s me n =
     (let p = procs s me; size_b = p_sz p in
      if n > 0 then
        bind_res (uvmalloc s (p_pagetable p) size_b (size_b + of_int n) PTE_W) (\<lambda>(size_b, s).
          if size_b = 0 then Inr (-1, s)
          else Inr (0, proc_upd me (\<lambda>p. p\<lparr>p_sz := size_b\<rparr>) s))
      else if n < 0 then
        bind_res (uvmdealloc s (p_pagetable p) size_b (size_b + of_int n)) (\<lambda>(size_b, s).
          Inr (0, proc_upd me (\<lambda>p. p\<lparr>p_sz := size_b\<rparr>) s))
      else Inr (0, proc_upd me (\<lambda>p. p\<lparr>p_sz := size_b\<rparr>) s))"


section \<open>Sleep, wakeup and kill\<close>

definition yield :: "'z kproc_scheme \<Rightarrow> nat \<Rightarrow> 'z kproc_scheme" where
  "yield s me = proc_upd me (\<lambda>p. p\<lparr>p_state := RUNNABLE\<rparr>) s"

definition sleep_begin :: "'z kproc_scheme \<Rightarrow> nat \<Rightarrow> chan \<Rightarrow> 'z kproc_scheme" where
  "sleep_begin s me ch = proc_upd me (\<lambda>p. p\<lparr>p_chan := Some ch, p_state := SLEEPING\<rparr>) s"

definition sleep_end :: "'z kproc_scheme \<Rightarrow> nat \<Rightarrow> 'z kproc_scheme" where
  "sleep_end s me = proc_upd me (\<lambda>p. p\<lparr>p_chan := None\<rparr>) s"

definition wake_fields :: "uint \<Rightarrow> proc \<Rightarrow> proc" where
  "wake_fields now p = p\<lparr>p_state := RUNNABLE, p_last_exec := now, p_tick_ctr := 0, p_in_time := now\<rparr>"

definition wakeup :: "'z kproc_scheme \<Rightarrow> nat option \<Rightarrow> chan \<Rightarrow> 'z kproc_scheme" where
  "wakeup s me ch =
     fold (\<lambda>i s.
       if Some i \<noteq> me then
         proc_upd i (\<lambda>p. if p_state p = SLEEPING \<and> p_chan p = Some ch
                         then wake_fields (ticks s) p else p) s
       else s) [0..<NPROC] s"

definition kill :: "'z kproc_scheme \<Rightarrow> int \<Rightarrow> int \<times> 'z kproc_scheme" where
  "kill s pid =
     (case proc_find (\<lambda>p. p_pid p = pid) s of
        None \<Rightarrow> (-1, s)
      | Some i \<Rightarrow>
          (0, proc_upd i (\<lambda>p.
                let p = p\<lparr>p_killed := 1\<rparr>
                in if p_state p = SLEEPING then wake_fields (ticks s) p else p) s))"

definition setkilled :: "'z kproc_scheme \<Rightarrow> nat \<Rightarrow> 'z kproc_scheme" where
  "setkilled s i = proc_upd i (\<lambda>p. p\<lparr>p_killed := 1\<rparr>) s"

definition killed :: "'z kproc_scheme \<Rightarrow> nat \<Rightarrow> bool" where
  "killed s i \<longleftrightarrow> p_killed (procs s i) \<noteq> 0"

text \<open>The children of \<open>p\<close> pass to init, which is woken for each of them.\<close>

definition reparent :: "'z kproc_scheme \<Rightarrow> nat \<Rightarrow> 'z kproc_scheme res" where
  "reparent s p =
     fold_res (\<lambda>pp s.
       if p_parent (procs s pp) = Some p then
         let s = proc_upd pp (\<lambda>q. q\<lparr>p_parent := initproc s\<rparr>) s
         in (case initproc s of
               None \<Rightarrow> Inl NullDeref
             | Some i \<Rightarrow> Inr (wakeup s (Some p) (ChProc i)))
       else Inr s) [0..<NPROC] s"


section \<open>Copies to and from the current process\<close>

definition either_copyout :: "'z kproc_scheme \<Rightarrow> nat \<Rightarrow> bool \<Rightarrow> uint64 \<Rightarrow> uint8 list \<Rightarrow>
    (int \<times> 'z kproc_scheme) res" where
  "either_copyout s me user_dst dst src =
     (if user_dst then copyout s (p_pagetable (procs s me)) dst src
      else Inr (0, s\<lparr>mem := store_bytes (mem s) dst src\<rparr>))"

definition either_copyin :: "'z kproc_scheme \<Rightarrow> nat \<Rightarrow> bool \<Rightarrow> uint64 \<Rightarrow> nat \<Rightarrow>
    (int \<times> uint8 list) res" where
  "either_copyin s me user_src src len =
     (if user_src then copyin s (p_pagetable (procs s me)) src len
      else Inr (0, load_bytes (mem s) src len))"


section \<open>wait and waitx\<close>

text \<open>The four bytes of an \<open>int\<close>, as \<open>copyout\<close> sends them.\<close>

definition bytes32 :: "uint \<Rightarrow> uint8 list" where
  "bytes32 v = map (\<lambda>i. ucast (drop_bit (8 * i) v)) [0..<4]"

datatype 'a outcome = Return 'a | Sleeps

text \<open>
  One scan of the table by \<open>wait\<close>: the result if a zombie child was found, and whether the
  process has children. \<open>wait_step\<close> is one round of the outer loop: it returns, or goes to
  sleep and is entered again after a wakeup.
\<close>

fun wait_scan :: "'z kproc_scheme \<Rightarrow> nat \<Rightarrow> uint64 \<Rightarrow> bool \<Rightarrow> nat list \<Rightarrow>
    (int option \<times> bool \<times> 'z kproc_scheme) res" where
  "wait_scan s me addr havekids [] = Inr (None, havekids, s)"
| "wait_scan s me addr havekids (pp # pps) =
     (if p_parent (procs s pp) = Some me then
        if p_state (procs s pp) = ZOMBIE then
          let pid = p_pid (procs s pp)
          in bind_res
               (if addr \<noteq> 0
                then copyout s (p_pagetable (procs s me)) addr (bytes32 (of_int (p_xstate (procs s pp))))
                else Inr (0, s))
               (\<lambda>(r, s).
                  if r < 0 then Inr (Some (-1), True, s)
                  else bind_res (freeproc s pp) (\<lambda>s. Inr (Some pid, True, s)))
        else wait_scan s me addr True pps
      else wait_scan s me addr havekids pps)"

definition wait_step :: "'z kproc_scheme \<Rightarrow> nat \<Rightarrow> uint64 \<Rightarrow> (int outcome \<times> 'z kproc_scheme) res" where
  "wait_step s me addr =
     bind_res (wait_scan s me addr False [0..<NPROC]) (\<lambda>(r, havekids, s).
       case r of
         Some v \<Rightarrow> Inr (Return v, s)
       | None \<Rightarrow>
           if \<not> havekids \<or> killed s me then Inr (Return (-1), s)
           else Inr (Sleeps, sleep_begin s me (ChProc me)))"

text \<open>
  \<open>waitx\<close> also reports the running and waiting time of the child; the two values are
  \<open>None\<close> when it returns without having found one.
\<close>

fun waitx_scan :: "'z kproc_scheme \<Rightarrow> nat \<Rightarrow> uint64 \<Rightarrow> bool \<Rightarrow> nat list \<Rightarrow>
    ((int \<times> uint \<times> uint) option \<times> bool \<times> 'z kproc_scheme) res" where
  "waitx_scan s me addr havekids [] = Inr (None, havekids, s)"
| "waitx_scan s me addr havekids (pp # pps) =
     (if p_parent (procs s pp) = Some me then
        if p_state (procs s pp) = ZOMBIE then
          let np = procs s pp;
              pid = p_pid np;
              rtime = p_rtime np;
              wtime = p_etime np - p_ctime np - p_rtime np
          in bind_res
               (if addr \<noteq> 0
                then copyout s (p_pagetable (procs s me)) addr (bytes32 (of_int (p_xstate np)))
                else Inr (0, s))
               (\<lambda>(r, s).
                  if r < 0 then Inr (Some (-1, wtime, rtime), True, s)
                  else bind_res (freeproc s pp) (\<lambda>s. Inr (Some (pid, wtime, rtime), True, s)))
        else waitx_scan s me addr True pps
      else waitx_scan s me addr havekids pps)"

definition waitx_step :: "'z kproc_scheme \<Rightarrow> nat \<Rightarrow> uint64 \<Rightarrow>
    ((int \<times> (uint \<times> uint) option) outcome \<times> 'z kproc_scheme) res" where
  "waitx_step s me addr =
     bind_res (waitx_scan s me addr False [0..<NPROC]) (\<lambda>(r, havekids, s).
       case r of
         Some (v, wtime, rtime) \<Rightarrow> Inr (Return (v, Some (wtime, rtime)), s)
       | None \<Rightarrow>
           if \<not> havekids \<or> p_killed (procs s me) \<noteq> 0 then Inr (Return (-1, None), s)
           else Inr (Sleeps, sleep_begin s me (ChProc me)))"

definition update_time :: "'z kproc_scheme \<Rightarrow> 'z kproc_scheme" where
  "update_time s =
     fold (\<lambda>i. proc_upd i (\<lambda>p. if p_state p = RUNNING then p\<lparr>p_rtime := p_rtime p + 1\<rparr> else p))
       [0..<NPROC] s"

primrec state_name :: "procstate \<Rightarrow> string" where
  "state_name UNUSED = ''unused''"
| "state_name USED = ''used''"
| "state_name SLEEPING = ''sleep ''"
| "state_name RUNNABLE = ''runble''"
| "state_name RUNNING = ''run   ''"
| "state_name ZOMBIE = ''zombie''"

text \<open>A C string as text: its bytes up to the NUL.\<close>

definition text_of :: "uint8 list \<Rightarrow> string" where
  "text_of bs = map (\<lambda>b. char_of (unat b)) (takeWhile (\<lambda>b. b \<noteq> 0) bs)"

definition procdump :: "'z kproc_scheme \<Rightarrow> 'z kproc_scheme res" where
  "procdump s =
     fold_res (\<lambda>i s.
       if p_state (procs s i) = UNUSED then Inr s
       else bind_res (printf_fmt ''%d %s %s''
              [ArgInt (of_int (p_pid (procs s i))), ArgStr (Some (state_name (p_state (procs s i)))),
               ArgStr (Some (text_of (p_name (procs s i))))]) (\<lambda>t.
              Inr (kprint (t @ ''
'') s))) [0..<NPROC] (kprint ''
'' s)"

section \<open>The memory layer leaves the processes alone\<close>

text \<open>
  No function of \<open>kalloc.c\<close> and \<open>vm.c\<close> touches a field outside \<open>kmem\<close>, whatever it
  returns.
\<close>

named_theorems kframe \<open>functions that change only the memory layer\<close>

lemma kprint_more [simp]: "kmem.more (kprint t s) = kmem.more s"
  by (simp add: kprint_def)

lemma kalloc_more [kframe]: "kalloc s = Inr (p, s') \<Longrightarrow> kmem.more s' = kmem.more s"
  by (auto simp: kalloc_def Let_def split: if_splits)

lemma kfree_more [kframe]: "kfree s p = Inr s' \<Longrightarrow> kmem.more s' = kmem.more s"
  by (auto simp: kfree_def Let_def split: if_splits)

lemma walk_levels_more: "walk_levels l s pt va al = Inr (a, s') \<Longrightarrow> kmem.more s' = kmem.more s"
proof (induction l arbitrary: s pt)
  case (Suc l)
  then show ?case
    by (auto simp: Let_def bind_res_Inr_iff split: if_splits dest!: Suc.IH kalloc_more)
qed simp

lemma walk_more [kframe]: "walk s pt va al = Inr (a, s') \<Longrightarrow> kmem.more s' = kmem.more s"
  by (auto simp: walk_def split: if_splits dest!: walk_levels_more)

lemma mappages_loop_more: "mappages_loop n s pt a l pa perm = Inr (r, s') \<Longrightarrow> kmem.more s' = kmem.more s"
proof (induction n arbitrary: s a pa)
  case (Suc n)
  then show ?case
    by (auto simp: Let_def bind_res_Inr_iff split: if_splits dest!: walk_more dest!: Suc.IH)
qed simp

lemma mappages_more [kframe]: "mappages s pt va n pa perm = Inr (r, s') \<Longrightarrow> kmem.more s' = kmem.more s"
  by (auto simp: mappages_def Let_def simp del: mappages_loop.simps split: if_splits dest: mappages_loop_more)

lemma uvmunmap_loop_more: "uvmunmap_loop n s pt a b f = Inr s' \<Longrightarrow> kmem.more s' = kmem.more s"
proof (induction n arbitrary: s a)
  case (Suc n)
  then show ?case
    by (auto simp: Let_def bind_res_Inr_iff split: if_splits dest!: Suc.IH dest!: walk_more kfree_more)
qed simp

lemma uvmunmap_more [kframe]: "uvmunmap s pt va n f = Inr s' \<Longrightarrow> kmem.more s' = kmem.more s"
  by (auto simp: uvmunmap_def simp del: uvmunmap_loop.simps split: if_splits dest!: uvmunmap_loop_more)

lemma uvmcreate_more [kframe]: "uvmcreate s = Inr (p, s') \<Longrightarrow> kmem.more s' = kmem.more s"
  by (auto simp: uvmcreate_def bind_res_Inr_iff split: if_splits dest!: kalloc_more)

lemma fold_res_more:
  assumes "\<And>x s s'. f x s = Inr s' \<Longrightarrow> kmem.more s' = kmem.more s"
  shows "fold_res f xs s = Inr s' \<Longrightarrow> kmem.more s' = kmem.more s"
  by (induction xs arbitrary: s) (auto simp: bind_res_Inr_iff dest: assms)

lemma freewalk_depth_more: "freewalk_depth d s pt = Inr s' \<Longrightarrow> kmem.more s' = kmem.more s"
proof (induction d arbitrary: s s' pt)
  case (Suc d)
  let ?f = "\<lambda>i s. let pte = load64 (mem s) (pt + 8 * of_nat i)
          in if pte AND PTE_V \<noteq> 0 \<and> pte AND (PTE_R OR PTE_W OR PTE_X) = 0 then
               bind_res (freewalk_depth d s (PTE2PA pte)) (\<lambda>s.
                 Inr (s\<lparr>mem := store64 (mem s) (pt + 8 * of_nat i) 0\<rparr>))
             else if pte AND PTE_V \<noteq> 0 then Inl (Panic ''freewalk: leaf'')
             else Inr s"
  from Suc.prems obtain s1 where s1: "fold_res ?f [0..<512] s = Inr s1" "kfree s1 pt = Inr s'"
    by (auto simp: bind_res_Inr_iff)
  have "kmem.more s1 = kmem.more s"
    by (rule fold_res_more [OF _ s1(1)])
       (auto simp: Let_def bind_res_Inr_iff split: if_splits dest: Suc.IH)
  with kfree_more [OF s1(2)] show ?case by simp
qed simp

lemma freewalk_more [kframe]: "freewalk s pt = Inr s' \<Longrightarrow> kmem.more s' = kmem.more s"
  by (auto simp: freewalk_def simp del: freewalk_depth.simps dest: freewalk_depth_more)

lemma uvmfree_more [kframe]: "uvmfree s pt sz = Inr s' \<Longrightarrow> kmem.more s' = kmem.more s"
  by (auto simp: uvmfree_def bind_res_Inr_iff split: if_splits dest!: freewalk_more uvmunmap_more)

lemma removecopy_more [kframe]: "removecopy s pt va sz = Inr (r, s') \<Longrightarrow> kmem.more s' = kmem.more s"
  by (auto simp: removecopy_def Let_def bind_res_Inr_iff split: if_splits
      dest!: walk_more kalloc_more kfree_more)

lemma copyout_loop_more: "copyout_loop n s pt va bs = Inr (r, s') \<Longrightarrow> kmem.more s' = kmem.more s"
proof (induction n arbitrary: s va bs)
  case (Suc n)
  then show ?case
    by (auto simp: Let_def bind_res_Inr_iff split: if_splits dest!: Suc.IH dest!: walk_more removecopy_more)
qed simp

lemma copyout_more [kframe]: "copyout s pt va bs = Inr (r, s') \<Longrightarrow> kmem.more s' = kmem.more s"
  by (auto simp: copyout_def simp del: copyout_loop.simps dest: copyout_loop_more)

lemma more_proc:
  assumes "kmem.more s' = kmem.more s"
  shows "procs s' = procs s" "ticks s' = ticks s" "nextpid s' = nextpid s" "initproc s' = initproc s"
    "kproc.more s' = kproc.more s" "forkret_pc s' = forkret_pc s" "tramp_pa s' = tramp_pa s"
  using assms by (cases s, cases s', simp)+

lemma kprint_procs [simp]: "procs (kprint t s) = procs s" "nextpid (kprint t s) = nextpid s" "ticks (kprint t s) = ticks s"
  by (simp_all add: kprint_def)


section \<open>Updates of the table\<close>

lemma procs_proc_upd [simp]: "procs (proc_upd i f s) j = (if j = i then f (procs s i) else procs s j)"
  by (simp add: proc_upd_def)

lemma proc_upd_frame [simp]:
  "ticks (proc_upd i f s) = ticks s" "nextpid (proc_upd i f s) = nextpid s"
  "initproc (proc_upd i f s) = initproc s" "mem (proc_upd i f s) = mem s"
  "freelist (proc_upd i f s) = freelist s" "nump_using (proc_upd i f s) = nump_using s"
  "console (proc_upd i f s) = console s" "kproc.more (proc_upd i f s) = kproc.more s"
  "forkret_pc (proc_upd i f s) = forkret_pc s" "tramp_pa (proc_upd i f s) = tramp_pa s"
  by (simp_all add: proc_upd_def)

lemma fold_proc_upd:
  assumes "\<And>i s. i < n \<Longrightarrow> ticks s = now \<Longrightarrow> g i s = proc_upd i (f i) s" "ticks s = now"
  shows "fold g [0..<n] s = s\<lparr>procs := \<lambda>i. if i < n then f i (procs s i) else procs s i\<rparr>"
  using assms(1)
proof (induction n)
  case (Suc n)
  have "fold g [0..<n] s = s\<lparr>procs := \<lambda>i. if i < n then f i (procs s i) else procs s i\<rparr>"
    using Suc by simp
  moreover have "g n (s\<lparr>procs := \<lambda>i. if i < n then f i (procs s i) else procs s i\<rparr>) =
      s\<lparr>procs := \<lambda>i. if i < Suc n then f i (procs s i) else procs s i\<rparr>"
    using Suc.prems [of n] assms(2) by (simp add: proc_upd_def fun_eq_iff less_Suc_eq)
  ultimately show ?case by simp
qed simp

lemma wakeup_procs:
  "wakeup s me ch = s\<lparr>procs := \<lambda>i. if i < NPROC \<and> Some i \<noteq> me \<and> p_state (procs s i) = SLEEPING \<and>
     p_chan (procs s i) = Some ch then wake_fields (ticks s) (procs s i) else procs s i\<rparr>"
proof -
  let ?g = "\<lambda>i s. if Some i \<noteq> me then
         proc_upd i (\<lambda>p. if p_state p = SLEEPING \<and> p_chan p = Some ch then wake_fields (ticks s) p else p) s
       else s"
  let ?f = "\<lambda>i p. if Some i \<noteq> me \<and> p_state p = SLEEPING \<and> p_chan p = Some ch then wake_fields (ticks s) p else p"
  have "fold ?g [0..<NPROC] s = s\<lparr>procs := \<lambda>i. if i < NPROC then ?f i (procs s i) else procs s i\<rparr>"
    by (rule fold_proc_upd [where now = "ticks s"]) (auto simp: proc_upd_def)
  then show ?thesis unfolding wakeup_def by (simp only:) (simp add: fun_eq_iff)
qed

lemma update_time_procs:
  "update_time s = s\<lparr>procs := \<lambda>i. if i < NPROC \<and> p_state (procs s i) = RUNNING
     then (procs s i)\<lparr>p_rtime := p_rtime (procs s i) + 1\<rparr> else procs s i\<rparr>"
proof -
  have "update_time s = s\<lparr>procs := \<lambda>i. if i < NPROC then
      (if p_state (procs s i) = RUNNING then (procs s i)\<lparr>p_rtime := p_rtime (procs s i) + 1\<rparr> else procs s i)
      else procs s i\<rparr>"
    unfolding update_time_def
    by (rule fold_proc_upd [where now = "ticks s" and f = "\<lambda>i p. if p_state p = RUNNING then p\<lparr>p_rtime := p_rtime p + 1\<rparr> else p"]) auto
  then show ?thesis by (simp only:) (simp add: fun_eq_iff)
qed

lemma proc_find_Some:
  assumes "proc_find P s = Some i"
  shows "i < NPROC" "P (procs s i)" "\<And>j. j < i \<Longrightarrow> \<not> P (procs s j)"
proof -
  obtain k where k: "k < NPROC" "P (procs s k)" "i = k" "\<forall>j < k. \<not> P (procs s j)"
    using assms unfolding proc_find_def find_Some_iff by auto
  then show "i < NPROC" "P (procs s i)" "\<And>j. j < i \<Longrightarrow> \<not> P (procs s j)" by auto
qed

lemma proc_find_None: "proc_find P s = None \<longleftrightarrow> (\<forall>i < NPROC. \<not> P (procs s i))"
  unfolding proc_find_def find_None_iff by auto

section \<open>Slots and process identifiers\<close>

lemma proc_freepagetable_more: "proc_freepagetable s pt n = Inr s' \<Longrightarrow> kmem.more s' = kmem.more s"
  by (auto simp: proc_freepagetable_def bind_res_Inr_iff dest!: uvmunmap_more uvmfree_more)

lemma proc_pagetable_more: "proc_pagetable s i = Inr (pt, s') \<Longrightarrow> kmem.more s' = kmem.more s"
  by (auto simp: proc_pagetable_def bind_res_Inr_iff split: if_splits
      dest!: uvmcreate_more mappages_more uvmunmap_more uvmfree_more)

lemma freeproc_procs:
  assumes "freeproc s i = Inr s'"
  shows "procs s' = (procs s)(i := freeproc_fields (ticks s) ((procs s i)\<lparr>p_trapframe := 0\<rparr>))"
    "ticks s' = ticks s" "nextpid s' = nextpid s" "initproc s' = initproc s" "kproc.more s' = kproc.more s"
proof -
  obtain s1 where s1: "(if p_trapframe (procs s i) \<noteq> 0 then kfree s (p_trapframe (procs s i)) else Inr s) = Inr s1"
    and r: "bind_res
            (if p_pagetable (procs (proc_upd i (\<lambda>p. p\<lparr>p_trapframe := 0\<rparr>) s1) i) \<noteq> 0
             then proc_freepagetable (proc_upd i (\<lambda>p. p\<lparr>p_trapframe := 0\<rparr>) s1)
               (p_pagetable (procs (proc_upd i (\<lambda>p. p\<lparr>p_trapframe := 0\<rparr>) s1) i))
               (p_sz (procs (proc_upd i (\<lambda>p. p\<lparr>p_trapframe := 0\<rparr>) s1) i))
             else Inr (proc_upd i (\<lambda>p. p\<lparr>p_trapframe := 0\<rparr>) s1))
            (\<lambda>s. Inr (proc_upd i (freeproc_fields (ticks s)) s)) = Inr s'"
    using assms unfolding freeproc_def Let_def by (auto simp: bind_res_Inr_iff)
  have m1: "kmem.more s1 = kmem.more s" using s1 by (auto split: if_splits dest: kfree_more)
  let ?s1 = "proc_upd i (\<lambda>p. p\<lparr>p_trapframe := 0\<rparr>) s1"
  from r obtain s2 where s2: "s' = proc_upd i (freeproc_fields (ticks s2)) s2" "kmem.more s2 = kmem.more ?s1"
  proof (cases "p_pagetable (procs ?s1 i) = 0")
    case True
    with r that [of ?s1] show ?thesis by simp
  next
    case False
    with r that show ?thesis by (auto simp: bind_res_Inr_iff simp del: procs_proc_upd dest: proc_freepagetable_more)
  qed
  note a = more_proc [OF m1] and b = more_proc [OF s2(2)]
  show "procs s' = (procs s)(i := freeproc_fields (ticks s) ((procs s i)\<lparr>p_trapframe := 0\<rparr>))"
    using a b by (auto simp: s2(1) fun_eq_iff)
  show "ticks s' = ticks s" "nextpid s' = nextpid s" "initproc s' = initproc s" "kproc.more s' = kproc.more s"
    using a b by (simp_all add: s2(1))
qed

definition fresh_slot :: "'z kproc_scheme \<Rightarrow> proc \<Rightarrow> bool" where
  "fresh_slot s p \<longleftrightarrow> p_state p = USED \<and> p_pid p = nextpid s \<and> p_trapframe p \<noteq> 0 \<and> p_pagetable p \<noteq> 0 \<and>
     p_ctx_ra p = forkret_pc s \<and> p_ctime p = ticks s \<and> p_rtime p = 0 \<and> p_queue_level p = 0 \<and>
     p_priority p = 50 \<and> p_ticks p = 0 \<and> p_num_shed p = 0"

lemma allocproc_cases:
  assumes "allocproc s = Inr (r, s')"
  shows "(proc_find (\<lambda>p. p_state p = UNUSED) s = None \<and> r = None \<and> procs s' = procs s \<and> nextpid s' = nextpid s) \<or>
    (\<exists>i. proc_find (\<lambda>p. p_state p = UNUSED) s = Some i \<and> nextpid s' = nextpid s + 1 \<and> nextpid s' < 2 ^ 31 \<and>
      (\<forall>j. j \<noteq> i \<longrightarrow> procs s' j = procs s j) \<and>
      (case r of
         None \<Rightarrow> p_state (procs s' i) = UNUSED \<and> p_pid (procs s' i) = 0
       | Some j \<Rightarrow> j = i \<and> fresh_slot s (procs s' i) \<and> p_killed (procs s' i) = p_killed (procs s i) \<and>
           p_parent (procs s' i) = p_parent (procs s i) \<and> p_sz (procs s' i) = p_sz (procs s i)))"
proof (cases "proc_find (\<lambda>p. p_state p = UNUSED) s")
  case None
  then show ?thesis using assms by (auto simp: allocproc_def)
next
  case (Some i)
  define s0 where "s0 = proc_upd i (\<lambda>p. alloc_fields (ticks s) (p\<lparr>p_pid := nextpid s, p_state := USED\<rparr>)) (s\<lparr>nextpid := nextpid s + 1\<rparr>)"
  obtain tf s1 where np: "nextpid s + 1 < 2 ^ 31" and k: "kalloc s0 = Inr (tf, s1)"
    and r: "(let s = proc_upd i (\<lambda>p. p\<lparr>p_trapframe := tf\<rparr>) s1
               in if tf = 0 then bind_res (freeproc s i) (\<lambda>s. Inr (None, s))
                  else bind_res (proc_pagetable s i) (\<lambda>(pt, s).
                    let s = proc_upd i (\<lambda>p. p\<lparr>p_pagetable := pt\<rparr>) s
                    in if pt = 0 then bind_res (freeproc s i) (\<lambda>s. Inr (None, s))
                       else
                         Inr (Some i, proc_upd i (\<lambda>p. alloc_fields (ticks s)
                           (p\<lparr>p_ctx_ra := forkret_pc s, p_ctx_sp := p_kstack p + PGSIZE,
                              p_rtime := 0, p_etime := 0, p_ctime := ticks s\<rparr>)) s))) = Inr (r, s')"
    using assms unfolding allocproc_def Some
    by (auto simp: allocpid_def Let_def s0_def bind_res_Inr_iff c_int_Inr_iff)
  note a = more_proc [OF kalloc_more [OF k]]
  define s2 where "s2 = proc_upd i (\<lambda>p. p\<lparr>p_trapframe := tf\<rparr>) s1"
  have base: "procs s2 j = procs s j" if "j \<noteq> i" for j using that a by (simp add: s2_def s0_def)
  have base2: "nextpid s2 = nextpid s + 1" "ticks s2 = ticks s" using a by (simp_all add: s2_def s0_def)
  show ?thesis
  proof (cases "tf = 0")
    case True
    then obtain s3 where s3: "freeproc s2 i = Inr s3" "r = None" "s' = s3"
      using r by (auto simp: s2_def Let_def bind_res_Inr_iff)
    note f = freeproc_procs [OF s3(1)]
    show ?thesis using Some s3(2,3) f base base2 np by (auto simp: freeproc_fields_def)
  next
    case False
    then obtain pt s3 where p: "proc_pagetable s2 i = Inr (pt, s3)"
      and r2: "(let s = proc_upd i (\<lambda>p. p\<lparr>p_pagetable := pt\<rparr>) s3
                    in if pt = 0 then bind_res (freeproc s i) (\<lambda>s. Inr (None, s))
                       else
                         Inr (Some i, proc_upd i (\<lambda>p. alloc_fields (ticks s)
                           (p\<lparr>p_ctx_ra := forkret_pc s, p_ctx_sp := p_kstack p + PGSIZE,
                              p_rtime := 0, p_etime := 0, p_ctime := ticks s\<rparr>)) s)) = Inr (r, s')"
      using r by (auto simp: s2_def Let_def bind_res_Inr_iff)
    note b = more_proc [OF proc_pagetable_more [OF p]]
    show ?thesis
    proof (cases "pt = 0")
      case True
      then obtain s4 where s4: "freeproc (proc_upd i (\<lambda>p. p\<lparr>p_pagetable := pt\<rparr>) s3) i = Inr s4" "r = None" "s' = s4"
        using r2 by (auto simp: Let_def bind_res_Inr_iff)
      note f = freeproc_procs [OF s4(1)]
      show ?thesis using Some s4(2,3) f base base2 b np by (auto simp: freeproc_fields_def)
    next
      case pt: False
      have fp: "forkret_pc s3 = forkret_pc s" using a b by (simp add: s2_def s0_def)
      define s4 where "s4 = proc_upd i (\<lambda>p. p\<lparr>p_pagetable := pt\<rparr>) s3"
      have s': "r = Some i" "s' = proc_upd i (\<lambda>p. alloc_fields (ticks s4) (p\<lparr>p_ctx_ra := forkret_pc s4,
          p_ctx_sp := p_kstack p + PGSIZE, p_rtime := 0, p_etime := 0, p_ctime := ticks s4\<rparr>)) s4"
        using r2 pt by (simp_all add: Let_def s4_def)
      have s4: "procs s4 i = (procs s2 i)\<lparr>p_pagetable := pt\<rparr>" "ticks s4 = ticks s" "forkret_pc s4 = forkret_pc s"
        "nextpid s4 = nextpid s + 1" "\<And>j. j \<noteq> i \<Longrightarrow> procs s4 j = procs s j"
        using b base base2 fp by (simp_all add: s4_def)
      have s2i: "p_state (procs s2 i) = USED" "p_pid (procs s2 i) = nextpid s" "p_trapframe (procs s2 i) \<noteq> 0"
        "p_killed (procs s2 i) = p_killed (procs s i)" "p_parent (procs s2 i) = p_parent (procs s i)"
        "p_sz (procs s2 i) = p_sz (procs s i)"
        using a False by (simp_all add: s2_def s0_def alloc_fields_def)
      show ?thesis
        by (rule disjI2, rule exI [of _ i])
          (use Some s' s4 s2i pt np in \<open>simp add: fresh_slot_def alloc_fields_def\<close>)
    qed
  qed
qed

text \<open>
  Process identifiers: a slot in use has a positive identifier that was handed out, no two
  slots in use share one, and the identifier of an unused slot is 0.
\<close>

definition pid_inv :: "'z kproc_scheme \<Rightarrow> bool" where
  "pid_inv s \<longleftrightarrow> 0 < nextpid s \<and> nextpid s < 2 ^ 31 \<and>
     (\<forall>i < NPROC. if p_state (procs s i) = UNUSED then p_pid (procs s i) = 0
                  else 0 < p_pid (procs s i) \<and> p_pid (procs s i) < nextpid s) \<and>
     (\<forall>i < NPROC. \<forall>j < NPROC. i \<noteq> j \<and> p_state (procs s i) \<noteq> UNUSED \<and> p_state (procs s j) \<noteq> UNUSED \<longrightarrow>
        p_pid (procs s i) \<noteq> p_pid (procs s j))"

lemma pid_inv_same:
  assumes "pid_inv s" "nextpid s' = nextpid s"
    "\<And>i. i < NPROC \<Longrightarrow> p_pid (procs s' i) = p_pid (procs s i) \<and>
       (p_state (procs s' i) = UNUSED \<longleftrightarrow> p_state (procs s i) = UNUSED)"
  shows "pid_inv s'"
  using assms by (auto simp: pid_inv_def)

lemma pid_inv_upd:
  assumes "pid_inv s" "p_pid (f (procs s i)) = p_pid (procs s i)"
    "p_state (f (procs s i)) = UNUSED \<longleftrightarrow> p_state (procs s i) = UNUSED"
  shows "pid_inv (proc_upd i f s)"
  by (rule pid_inv_same [OF assms(1)]) (use assms(2,3) in auto)

lemma pid_inv_freeproc:
  assumes "pid_inv s" "freeproc s i = Inr s'"
  shows "pid_inv s'"
proof -
  have "procs s' = (procs s)(i := procs s' i)" "p_state (procs s' i) = UNUSED" "p_pid (procs s' i) = 0" "nextpid s' = nextpid s"
    using freeproc_procs [OF assms(2)] by (simp_all add: freeproc_fields_def)
  then show ?thesis using assms(1) unfolding pid_inv_def by (metis fun_upd_other)
qed

lemma pid_inv_allocproc:
  assumes inv: "pid_inv s" and run: "allocproc s = Inr (r, s')"
  shows "pid_inv s'"
proof (cases "proc_find (\<lambda>p. p_state p = UNUSED) s")
  case None
  then have "procs s' = procs s" "nextpid s' = nextpid s" using allocproc_cases [OF run] by auto
  then show ?thesis using inv by (simp add: pid_inv_def)
next
  case (Some i)
  have oth: "\<And>j. j \<noteq> i \<Longrightarrow> procs s' j = procs s j" and np: "nextpid s' = nextpid s + 1" "nextpid s' < 2 ^ 31"
    and new: "if p_state (procs s' i) = UNUSED then p_pid (procs s' i) = 0 else p_pid (procs s' i) = nextpid s"
    using allocproc_cases [OF run] Some by (auto simp: fresh_slot_def split: option.splits)
  have "p_pid (procs s j) < nextpid s" "p_state (procs s j) = UNUSED \<Longrightarrow> p_pid (procs s j) = 0"
    "p_state (procs s j) \<noteq> UNUSED \<Longrightarrow> 0 < p_pid (procs s j)" if "j < NPROC" for j
    using inv that unfolding pid_inv_def by (auto split: if_splits)
  note bound = this
  have pos: "0 < nextpid s" using inv by (simp add: pid_inv_def)
  have each: "if p_state (procs s' j) = UNUSED then p_pid (procs s' j) = 0
      else 0 < p_pid (procs s' j) \<and> p_pid (procs s' j) < nextpid s'" if "j < NPROC" for j
    using bound [OF that] oth [of j] new np pos by (cases "j = i") (auto split: if_splits)
  have "p_pid (procs s' j) \<noteq> p_pid (procs s' k)"
    if "j < NPROC" "k < NPROC" "j \<noteq> k" "p_state (procs s' j) \<noteq> UNUSED" "p_state (procs s' k) \<noteq> UNUSED" for j k
  proof -
    have old: "p_pid (procs s a) \<noteq> p_pid (procs s b)"
      if "a < NPROC" "b < NPROC" "a \<noteq> b" "p_state (procs s a) \<noteq> UNUSED" "p_state (procs s b) \<noteq> UNUSED" for a b
      using inv that unfolding pid_inv_def by blast
    show ?thesis
      using that old [of j k] oth [of j] oth [of k] new bound(1) [of j] bound(1) [of k]
      by (cases "j = i"; cases "k = i") auto
  qed
  moreover have "0 < nextpid s'" "nextpid s' < 2 ^ 31" using np pos by simp_all
  ultimately show ?thesis using each unfolding pid_inv_def by blast
qed

lemma pid_inv_more:
  assumes "pid_inv s" "kmem.more s' = kmem.more s"
  shows "pid_inv s'"
  using more_proc [OF assms(2)] assms(1) by (simp add: pid_inv_def)

abbreviation zombie_child :: "'z kproc_scheme \<Rightarrow> nat \<Rightarrow> nat \<Rightarrow> bool" where
  "zombie_child s me pp \<equiv> p_parent (procs s pp) = Some me \<and> p_state (procs s pp) = ZOMBIE"

text \<open>The copy of the exit status to the address given to \<open>wait\<close>, if there is one.\<close>

abbreviation status_copy :: "'z kproc_scheme \<Rightarrow> nat \<Rightarrow> uint64 \<Rightarrow> nat \<Rightarrow> (int \<times> 'z kproc_scheme) res" where
  "status_copy s me addr pp \<equiv>
     if addr \<noteq> 0 then copyout s (p_pagetable (procs s me)) addr (bytes32 (of_int (p_xstate (procs s pp)))) else Inr (0, s)"

lemma wait_scan_cases:
  assumes "wait_scan s me addr hk pps = Inr (r, hk', s')"
  shows "(case r of
      None \<Rightarrow> s' = s \<and> hk' = (hk \<or> (\<exists>pp \<in> set pps. p_parent (procs s pp) = Some me)) \<and>
        (\<forall>pp \<in> set pps. \<not> zombie_child s me pp)
    | Some v \<Rightarrow> \<exists>as pp bs c s1. pps = as @ pp # bs \<and> zombie_child s me pp \<and> (\<forall>j \<in> set as. \<not> zombie_child s me j) \<and>
        status_copy s me addr pp = Inr (c, s1) \<and> kmem.more s1 = kmem.more s \<and>
        (if c < 0 then v = -1 \<and> s' = s1 else v = p_pid (procs s pp) \<and> freeproc s1 pp = Inr s'))"
  using assms
proof (induction pps arbitrary: hk)
  case (Cons pp pps)
  show ?case
  proof (cases "zombie_child s me pp")
    case True
    then obtain c s1 where c: "status_copy s me addr pp = Inr (c, s1)"
      and rest: "(if c < 0 then Inr (Some (-1), True, s1)
          else bind_res (freeproc s1 pp) (\<lambda>s'. Inr (Some (p_pid (procs s pp)), True, s'))) = Inr (r, hk', s')"
      using Cons.prems by (auto simp: bind_res_Inr_iff Let_def)
    have m: "kmem.more s1 = kmem.more s" using c by (auto split: if_splits dest: copyout_more)
    obtain v where v: "r = Some v" "if c < 0 then v = -1 \<and> s' = s1 else v = p_pid (procs s pp) \<and> freeproc s1 pp = Inr s'"
      using rest by (auto simp: bind_res_Inr_iff split: if_splits)
    show ?thesis unfolding v(1) option.case
      by (rule exI [of _ "[]"], rule exI [of _ pp], rule exI [of _ pps], rule exI [of _ c], rule exI [of _ s1]) (use True c m v(2) in simp)
  next
    case False
    then have "wait_scan s me addr (hk \<or> p_parent (procs s pp) = Some me) pps = Inr (r, hk', s')"
      using Cons.prems by (auto split: if_splits)
    note ih = Cons.IH [OF this]
    show ?thesis
    proof (cases r)
      case None
      then show ?thesis using ih False by auto
    next
      case (Some v)
      with ih obtain as q bs c s1 where q: "pps = as @ q # bs" "zombie_child s me q" "\<forall>j \<in> set as. \<not> zombie_child s me j"
        "status_copy s me addr q = Inr (c, s1)" "kmem.more s1 = kmem.more s"
        "if c < 0 then v = -1 \<and> s' = s1 else v = p_pid (procs s q) \<and> freeproc s1 q = Inr s'" by (simp only: option.case) blast
      show ?thesis unfolding Some option.case
        by (rule exI [of _ "pp # as"], rule exI [of _ q], rule exI [of _ bs], rule exI [of _ c], rule exI [of _ s1]) (use q False in simp)
    qed
  qed
qed auto

lemma waitx_scan_wait_scan:
  "wait_scan s me addr hk pps =
     bind_res (waitx_scan s me addr hk pps) (\<lambda>(r, hk, s). Inr (map_option fst r, hk, s))"
proof (induction pps arbitrary: hk)
  case (Cons pp pps)
  then show ?case by (auto simp: Let_def bind_res_assoc intro!: bind_res_cong)
qed simp

text \<open>
  The operations on the process table, as steps. The scheduler runs a RUNNABLE process,
  \<open>fork\<close> and \<open>userinit\<close> make a USED one RUNNABLE, \<open>exit\<close> ends a RUNNING one; any other
  kernel code may change the memory layer.
\<close>

inductive table_step :: "'z kproc_scheme \<Rightarrow> 'z kproc_scheme \<Rightarrow> bool" where
  ts_alloc: "allocproc s = Inr (r, s') \<Longrightarrow> table_step s s'"
| ts_free: "freeproc s i = Inr s' \<Longrightarrow> table_step s s'"
| ts_wait: "p_state (procs s me) = RUNNING \<Longrightarrow> wait_step s me addr = Inr (out, s') \<Longrightarrow> table_step s s'"
| ts_wakeup: "table_step s (wakeup s me ch)"
| ts_kill: "table_step s (snd (kill s pid))"
| ts_setkilled: "table_step s (setkilled s i)"
| ts_yield: "p_state (procs s me) = RUNNING \<Longrightarrow> table_step s (yield s me)"
| ts_sleep: "p_state (procs s me) = RUNNING \<Longrightarrow> table_step s (sleep_begin s me ch)"
| ts_awake: "table_step s (sleep_end s me)"
| ts_reparent: "reparent s me = Inr s' \<Longrightarrow> table_step s s'"
| ts_time: "table_step s (update_time s)"
| ts_run: "p_state (procs s i) = RUNNABLE \<Longrightarrow> table_step s (proc_upd i (\<lambda>p. p\<lparr>p_state := RUNNING\<rparr>) s)"
| ts_ready: "p_state (procs s i) = USED \<Longrightarrow>
    table_step s (proc_upd i (\<lambda>p. p\<lparr>p_parent := par, p_state := RUNNABLE\<rparr>) s)"
| ts_exit: "p_state (procs s i) = RUNNING \<Longrightarrow>
    table_step s (proc_upd i (\<lambda>p. p\<lparr>p_xstate := st, p_state := ZOMBIE, p_etime := ticks s\<rparr>) s)"
| ts_memory: "kmem.more s' = kmem.more s \<Longrightarrow> table_step s s'"

lemma pid_inv_wait_step:
  assumes inv: "pid_inv s" and me: "p_state (procs s me) = RUNNING" and run: "wait_step s me addr = Inr (out, s')"
  shows "pid_inv s'"
proof -
  obtain x where x: "wait_scan s me addr False [0..<NPROC] = Inr x"
    "(case x of (r, hk, s1) \<Rightarrow> case r of Some v \<Rightarrow> Inr (Return v, s1)
       | None \<Rightarrow> if \<not> hk \<or> killed s1 me then Inr (Return (-1), s1)
           else Inr (Sleeps, sleep_begin s1 me (ChProc me))) = (Inr (out, s') :: _ res)"
    using run unfolding wait_step_def by (rule bind_res_InrE)
  obtain r hk s1 where xs: "x = (r, hk, s1)" by (cases x)
  have w: "wait_scan s me addr False [0..<NPROC] = Inr (r, hk, s1)"
    and o: "(case r of Some v \<Rightarrow> Inr (Return v, s1)
       | None \<Rightarrow> if \<not> hk \<or> killed s1 me then Inr (Return (-1), s1)
           else Inr (Sleeps, sleep_begin s1 me (ChProc me))) = (Inr (out, s') :: _ res)"
    using x by (simp_all add: xs)
  note c = wait_scan_cases [OF w]
  show ?thesis
  proof (cases r)
    case None
    then have "s1 = s" using c by simp
    moreover have "pid_inv (sleep_begin s me (ChProc me))"
      unfolding sleep_begin_def by (rule pid_inv_upd [OF inv]) (simp_all add: me)
    ultimately show ?thesis using None o inv by (auto split: if_splits)
  next
    case (Some v)
    then have "s' = s1" using o by simp
    moreover obtain s0 pp where "kmem.more s0 = kmem.more s" "s1 = s0 \<or> freeproc s0 pp = Inr s1"
      using c unfolding Some option.case by metis
    ultimately show ?thesis using pid_inv_more [OF inv] pid_inv_freeproc by blast
  qed
qed

lemma reparent_pids:
  "fold_res (\<lambda>pp s.
       if p_parent (procs s pp) = Some p then
         let s = proc_upd pp (\<lambda>q. q\<lparr>p_parent := initproc s\<rparr>) s
         in (case initproc s of
               None \<Rightarrow> Inl NullDeref
             | Some i \<Rightarrow> Inr (wakeup s (Some p) (ChProc i)))
       else Inr s) xs s = Inr s' \<Longrightarrow> pid_inv s \<Longrightarrow> pid_inv s'"
proof (induction xs arbitrary: s)
  case (Cons x xs)
  have wk: "pid_inv s \<Longrightarrow> pid_inv (wakeup s me ch)" for s :: "'a kproc_scheme" and me ch
    by (rule pid_inv_same) (auto simp: wakeup_procs wake_fields_def)
  have up: "pid_inv (proc_upd x (\<lambda>q. q\<lparr>p_parent := initproc s\<rparr>) s)"
    by (rule pid_inv_upd [OF Cons.prems(2)]) simp_all
  show ?case using Cons wk [OF up] by (auto simp: Let_def bind_res_Inr_iff split: if_splits option.splits)
qed simp

lemma pid_inv_step: "table_step s s' \<Longrightarrow> pid_inv s \<Longrightarrow> pid_inv s'"
proof (induction rule: table_step.induct)
  case (ts_wait s me addr out s')
  then show ?case using pid_inv_wait_step by blast
next
  case (ts_reparent s me s')
  then show ?case using reparent_pids unfolding reparent_def by blast
next
  case (ts_wakeup s me ch)
  then show ?case by (rule pid_inv_same) (auto simp: wakeup_procs wake_fields_def)
next
  case (ts_time s)
  then show ?case by (rule pid_inv_same) (auto simp: update_time_procs)
next
  case (ts_kill s pid)
  then show ?case
    by (auto simp: kill_def Let_def split: option.split intro!: pid_inv_upd)
      (simp_all add: wake_fields_def split: if_splits)
next
  case (ts_alloc s r s')
  then show ?case by (blast intro: pid_inv_allocproc)
next
  case (ts_free s i s')
  then show ?case by (blast intro: pid_inv_freeproc)
next
  case (ts_memory s' s)
  then show ?case by (blast intro: pid_inv_more)
qed (simp_all add: setkilled_def yield_def sleep_begin_def sleep_end_def pid_inv_upd)

lemma procinit_procs:
  "procinit s = s\<lparr>procs := \<lambda>i. if i < NPROC then (procs s i)\<lparr>p_state := UNUSED, p_kstack := KSTACK (of_nat i)\<rparr>
     else procs s i\<rparr>"
  unfolding procinit_def
  by (rule fold_proc_upd [where now = "ticks s" and f = "\<lambda>i p. p\<lparr>p_state := UNUSED, p_kstack := KSTACK (of_nat i)\<rparr>"]) auto

lemma pid_inv_procinit:
  assumes "\<forall>i < NPROC. p_pid (procs s i) = 0" "0 < nextpid s" "nextpid s < 2 ^ 31"
  shows "pid_inv (procinit s)"
  using assms by (simp add: pid_inv_def procinit_procs)

section \<open>The address space of a new process\<close>

lemma uvmcreate_ok:
  assumes "kinv kend (p # fl) s"
  shows "\<exists>s'. uvmcreate s = Inr (p, s') \<and> p \<noteq> 0 \<and> vinv kend fl p s' \<and> (\<forall>va. pte_at s' p va = 0) \<and> tables s' p = {p} \<and>
    (\<forall>q. q \<noteq> p \<longrightarrow> same_page q (mem s) (mem s'))"
proof -
  obtain s1 where s1: "kalloc s = Inr (p, s1)" "kinv kend fl s1" "agree_off p (mem s) (mem s1)"
    using kalloc_cons [OF assms] by blast
  have p: "page_aligned p" "p \<noteq> 0" "p \<notin> set fl" using assms page_ok_nonzero by (auto simp: kinv_def)
  define s2 where "s2 = s1\<lparr>mem := fill_bytes (mem s1) p 0 4096\<rparr>"
  have run: "uvmcreate s = Inr (p, s2)" using p(2) by (simp add: uvmcreate_def s1(1) s2_def memset_page)
  have keep: "same_page q (mem s1) (mem s2)" if "q \<noteq> p" for q
    using agree_off_same [OF agree_off_fill [OF p(1)] that] by (simp add: s2_def)
  have k2: "kinv kend fl s2"
    unfolding s2_def by (rule kinv_mem [OF s1(2)]) (metis keep p(3) s2_def kmem.select_convs(1) kmem.surjective kmem.update_convs(1))
  have "mem s2 x = 0" if "in_page p x" for x using fill_page [OF p(1) that] by (simp add: s2_def)
  note z = zero_table [of p "mem s2", OF this p(1)]
  have "vinv kend fl p s2" using k2 z(1) p by (simp add: vinv_def pt_ok_def)
  moreover have "same_page q (mem s) (mem s2)" if "q \<noteq> p" for q
    using agree_off_same [OF s1(3) that] keep [OF that] by (rule same_page_trans)
  ultimately show ?thesis using run p(2) z(1,2) by (auto simp: pte_at_def)
qed

lemma page_consts:
  "page_aligned TRAMPOLINE" "page_aligned TRAPFRAME" "TRAMPOLINE < MAXVA" "TRAPFRAME < MAXVA" "TRAPFRAME \<noteq> TRAMPOLINE"
  by (simp_all add: page_aligned_def layout_defs)

text \<open>The map of a process without user memory.\<close>

definition empty_space :: "uint64 \<Rightarrow> uint64 \<Rightarrow> uint64 \<Rightarrow> uint64" where
  "empty_space tramp tf va =
     (if PGROUNDDOWN va = TRAPFRAME then PA2PTE tf OR (PTE_R OR PTE_W) OR PTE_V
      else if PGROUNDDOWN va = TRAMPOLINE then PA2PTE tramp OR (PTE_R OR PTE_X) OR PTE_V else 0)"

lemma proc_pagetable_ok:
  assumes k: "kinv kend fl s" and len: "5 \<le> length fl"
  shows "\<exists>pt s' used fl'. proc_pagetable s i = Inr (pt, s') \<and> fl = used @ fl' \<and> pt \<noteq> 0 \<and> vinv kend fl' pt s' \<and>
    tables s' pt = set used \<and>
    (\<forall>va < MAXVA. pte_at s' pt va = empty_space (tramp_pa s) (p_trapframe (procs s i)) va)"
proof -
  obtain p fl1 where fl: "fl = p # fl1" using len by (cases fl) auto
  obtain s1 where s1: "uvmcreate s = Inr (p, s1)" "p \<noteq> 0" "vinv kend fl1 p s1" "\<forall>va. pte_at s1 p va = 0" "tables s1 p = {p}"
    using uvmcreate_ok k fl by metis
  note f1 = more_proc [OF uvmcreate_more [OF s1(1)]]
  have n1: "\<not> is_V (pte_at s1 p TRAMPOLINE)" using s1(4) by (simp add: is_V_def)
  obtain s2 u2 fl2 where s2: "mappages s1 p TRAMPOLINE PGSIZE (tramp_pa s1) (PTE_R OR PTE_X) = Inr (0, s2)"
    "fl1 = u2 @ fl2" "length u2 \<le> 2" "vinv kend fl2 p s2" "vstep kend p u2 s1 s2"
    "\<forall>vb < MAXVA. pte_at s2 p vb = (if PGROUNDDOWN vb = TRAMPOLINE then PA2PTE (tramp_pa s1) OR (PTE_R OR PTE_X) OR PTE_V
       else pte_at s1 p vb)"
    using mappages_page [OF s1(3) page_consts(1,3) n1, of "tramp_pa s1" "PTE_R OR PTE_X"] len fl by auto
  note f2 = more_proc [OF mappages_more [OF s2(1)]]
  have n2: "\<not> is_V (pte_at s2 p TRAPFRAME)"
    using s2(6) page_consts s1(4) by (simp add: is_V_def page_aligned_alt)
  have l2: "2 \<le> length fl2" using len fl s2(2,3) by simp
  obtain s3 u3 fl3 where s3:
    "mappages s2 p TRAPFRAME PGSIZE (p_trapframe (procs s2 i)) (PTE_R OR PTE_W) = Inr (0, s3)"
    "fl2 = u3 @ fl3" "vinv kend fl3 p s3" "vstep kend p u3 s2 s3"
    "\<forall>vb < MAXVA. pte_at s3 p vb = (if PGROUNDDOWN vb = TRAPFRAME
       then PA2PTE (p_trapframe (procs s2 i)) OR (PTE_R OR PTE_W) OR PTE_V else pte_at s2 p vb)"
    using mappages_page [OF s2(4) page_consts(2,4) n2 l2, of "p_trapframe (procs s2 i)" "PTE_R OR PTE_W"] by auto
  have "tables s3 p = set (p # u2 @ u3)" using s1(5) s2(5) s3(4) by (auto simp: vstep_def)
  moreover have "proc_pagetable s i = Inr (p, s3)"
    using s1(1,2) s2(1) s3(1) by (simp add: proc_pagetable_def)
  moreover have "fl = (p # u2 @ u3) @ fl3" using fl s2(2) s3(2) by simp
  moreover have "\<forall>va < MAXVA. pte_at s3 p va = empty_space (tramp_pa s) (p_trapframe (procs s i)) va"
    using s3(5) s2(6) s1(4) f1 f2 by (simp add: empty_space_def)
  ultimately show ?thesis using s1(2) s3(3) by blast
qed

lemma kinv_proc_upd [simp]: "kinv kend fl (proc_upd i f s) = kinv kend fl s"
  by (simp add: kinv_def refs_def)

lemma vinv_proc_upd [simp]: "vinv kend fl pt (proc_upd i f s) = vinv kend fl pt s"
  by (simp add: vinv_def)

lemma pte_at_proc_upd [simp]: "pte_at (proc_upd i f s) pt va = pte_at s pt va"
  by (simp add: pte_at_def)

lemma allocproc_ok:
  assumes k: "kinv kend fl s" and len: "6 \<le> length fl" and i: "proc_find (\<lambda>p. p_state p = UNUSED) s = Some i"
    and np: "0 \<le> nextpid s" "nextpid s + 1 < 2 ^ 31"
  shows "\<exists>s' used fl'. allocproc s = Inr (Some i, s') \<and> fl = used @ fl' \<and>
    vinv kend fl' (p_pagetable (procs s' i)) s' \<and>
    tables s' (p_pagetable (procs s' i)) \<union> {p_trapframe (procs s' i)} = set used \<and>
    (\<forall>va < MAXVA. pte_at s' (p_pagetable (procs s' i)) va = empty_space (tramp_pa s) (p_trapframe (procs s' i)) va)"
proof -
  define s0 where "s0 = proc_upd i (\<lambda>p. alloc_fields (ticks s) (p\<lparr>p_pid := nextpid s, p_state := USED\<rparr>)) (s\<lparr>nextpid := nextpid s + 1\<rparr>)"
  obtain tf fl1 where fl: "fl = tf # fl1" using len by (cases fl) auto
  have k0: "kinv kend (tf # fl1) s0" using k fl by (simp add: s0_def kinv_def refs_def)
  obtain s1 where s1: "kalloc s0 = Inr (tf, s1)" "kinv kend fl1 s1" using kalloc_cons [OF k0] by blast
  have tf: "tf \<noteq> 0" using k0 page_ok_nonzero by (auto simp: kinv_def)
  note f1 = more_proc [OF kalloc_more [OF s1(1)]]
  define s2 where "s2 = proc_upd i (\<lambda>p. p\<lparr>p_trapframe := tf\<rparr>) s1"
  have k2: "kinv kend fl1 s2" using s1(2) by (simp add: s2_def)
  have l1: "5 \<le> length fl1" using len fl by simp
  obtain pt s3 u fl' where s3: "proc_pagetable s2 i = Inr (pt, s3)" "fl1 = u @ fl'" "pt \<noteq> 0" "vinv kend fl' pt s3"
    "tables s3 pt = set u"
    "\<forall>va < MAXVA. pte_at s3 pt va = empty_space (tramp_pa s2) (p_trapframe (procs s2 i)) va"
    using proc_pagetable_ok [OF k2 l1, of i] by blast
  note f3 = more_proc [OF proc_pagetable_more [OF s3(1)]]
  define s4 where "s4 = proc_upd i (\<lambda>p. p\<lparr>p_pagetable := pt\<rparr>) s3"
  define s' where "s' = proc_upd i (\<lambda>p. alloc_fields (ticks s3) (p\<lparr>p_ctx_ra := forkret_pc s3,
    p_ctx_sp := p_kstack p + PGSIZE, p_rtime := 0, p_etime := 0, p_ctime := ticks s3\<rparr>)) s4"
  have ci: "c_int (nextpid s + 1) = Inr (nextpid s + 1)" using np by (simp add: c_int_def)
  have run: "allocproc s = Inr (Some i, s')"
    using i s1(1) tf s3(1,3)
    by (simp add: allocproc_def allocpid_def ci Let_def s0_def [symmetric] s2_def [symmetric] s4_def [symmetric] s'_def [symmetric])
  have p: "p_pagetable (procs s' i) = pt" "p_trapframe (procs s' i) = tf" "p_trapframe (procs s2 i) = tf" "tramp_pa s2 = tramp_pa s"
    using f3 f1 by (simp_all add: s'_def s4_def alloc_fields_def s2_def s0_def)
  have t: "tables s' pt = tables s3 pt" by (simp add: s'_def s4_def)
  show ?thesis
    by (rule exI [of _ s'], rule exI [of _ "tf # u"], rule exI [of _ fl'])
      (use run s3 p t fl in \<open>auto simp: s'_def s4_def\<close>)
qed

section \<open>What the table operations promise\<close>

text \<open>A machine that has just booted, with sixteen free pages, and a table with a parent and its dead child.\<close>

definition idle_proc :: proc where
  "idle_proc = \<lparr>p_state = UNUSED, p_chan = None, p_killed = 0, p_xstate = 0, p_pid = 0, p_parent = None,
     p_kstack = 0, p_sz = 0, p_pagetable = 0, p_trapframe = 0, p_ctx_ra = 0, p_ctx_sp = 0,
     p_ofile = (\<lambda>_. None), p_cwd = None, p_name = [], p_rtime = 0, p_ctime = 0, p_etime = 0, p_ticks = 0,
     p_current_ticks = 0, p_sigalarm = 0, p_handler = 0, p_interval = 0, p_curr_queue = 0, p_prev_queue = 0,
     p_time_wait = 0, p_time_run_queue = 0, p_tick_ctr = 0, p_queue_level = 0, p_last_exec = 0, p_in_time = 0,
     p_run_time = 0, p_wait_time = 0, p_sleep_time = 0, p_priority = 0, p_dynamic_priority = 0, p_num_shed = 0\<rparr>"

definition raw_machine :: kproc where
  "raw_machine = \<lparr>mem = \<lambda>_. 0, freelist = 0, nump_using = \<lambda>_. 0, console = [], procs = \<lambda>_. idle_proc,
     ticks = 0, nextpid = 1, initproc = None, tramp_pa = 0x80007000, forkret_pc = 0x80001a00\<rparr>"

definition booted :: kproc where
  "booted = (case kinit 0x87ff0000 raw_machine of Inr s \<Rightarrow> procinit s | Inl e \<Rightarrow> raw_machine)"

definition family :: kproc where
  "family = raw_machine\<lparr>nextpid := 3, procs := (\<lambda>_. idle_proc)
     (0 := idle_proc\<lparr>p_state := RUNNING, p_pid := 1\<rparr>,
      1 := idle_proc\<lparr>p_state := ZOMBIE, p_pid := 2, p_parent := Some 0, p_xstate := 7\<rparr>)\<rparr>"

lemma freerange_loop_more: "freerange_loop n s p e = Inr s' \<Longrightarrow> kmem.more s' = kmem.more s"
proof (induction n arbitrary: s p)
  case 0
  then show ?case by (simp add: freerange_loop.simps [of 0] split: if_splits)
next
  case (Suc n)
  then show ?case
    by (simp add: freerange_loop.simps [of "Suc n"] bind_res_Inr_iff split: if_splits) (metis kfree_more)
qed

lemma kinit_more [kframe]: "kinit kend s = Inr s' \<Longrightarrow> kmem.more s' = kmem.more s"
  by (auto simp: kinit_def freerange_def Let_def dest!: freerange_loop_more)

lemma kinv_procinit [simp]: "kinv kend fl (procinit s) = kinv kend fl s"
proof -
  have "kinv kend fl (fold (\<lambda>i. proc_upd i (g i)) xs s) = kinv kend fl s" for xs and g :: "nat \<Rightarrow> proc \<Rightarrow> proc"
    by (induction xs arbitrary: s) auto
  then show ?thesis by (simp add: procinit_def)
qed

lemma procinit_tramp [simp]: "tramp_pa (procinit s) = tramp_pa s"
proof -
  have "tramp_pa (fold (\<lambda>i. proc_upd i (g i)) xs s) = tramp_pa s" for xs and g :: "nat \<Rightarrow> proc \<Rightarrow> proc"
    by (induction xs arbitrary: s) auto
  then show ?thesis by (simp add: procinit_def)
qed

lemma booted_ok: "\<exists>fl. kinv 0x87ff0000 fl booted \<and> 6 \<le> length fl"
proof -
  obtain s fl where s: "kinit 0x87ff0000 raw_machine = Inr s" "kinv 0x87ff0000 fl s" "set fl = {p. page_ok 0x87ff0000 p}"
    using kinit_ok [of "0x87ff0000" raw_machine] by (auto simp: layout_defs raw_machine_def)
  let ?six = "{0x87ff0000, 0x87ff1000, 0x87ff2000, 0x87ff3000, 0x87ff4000, 0x87ff5000} :: uint64 set"
  have "?six \<subseteq> set fl" unfolding s(3) by (simp add: page_ok_def page_aligned_def layout_defs)
  then have "card ?six \<le> length fl" by (rule order_trans [OF card_mono [OF List.finite_set] card_length])
  moreover have "kinv 0x87ff0000 fl booted" using s(1,2) by (simp add: booted_def)
  moreover have "card ?six = 6" by simp
  ultimately show ?thesis by (metis)
qed

lemma booted_procs: "p_state (procs booted i) = UNUSED" "p_pid (procs booted i) = 0" "nextpid booted = 1"
  "tramp_pa booted = 0x80007000"
proof -
  obtain s where s: "kinit 0x87ff0000 raw_machine = Inr s"
    using kinit_ok [of "0x87ff0000" raw_machine] by (auto simp: layout_defs raw_machine_def)
  have m: "kmem.more s = kmem.more raw_machine" using s by (rule kinit_more)
  show "p_state (procs booted i) = UNUSED" "p_pid (procs booted i) = 0" "nextpid booted = 1" "tramp_pa booted = 0x80007000"
    using s more_proc [OF m] by (simp_all add: booted_def procinit_procs raw_machine_def idle_proc_def)
qed


lemma family_slots:
  "p_pid (procs family j) = (if j = 0 then 1 else if j = 1 then 2 else 0)"
  "p_state (procs family j) = (if j = 0 then RUNNING else if j = 1 then ZOMBIE else UNUSED)"
  "p_parent (procs family j) = (if j = 1 then Some 0 else None)"
  "p_killed (procs family j) = 0" "nextpid family = 3"
  by (simp_all add: family_def raw_machine_def idle_proc_def)

lemma proc_find_first:
  assumes "i < NPROC" "P (procs s i)" "\<forall>j < i. \<not> P (procs s j)"
  shows "proc_find P s = Some i"
proof (cases "proc_find P s")
  case None
  then show ?thesis using assms by (simp add: proc_find_None)
next
  case (Some k)
  then show ?thesis using proc_find_Some [OF Some] assms by (metis linorder_neqE_nat)
qed

text \<open>C23: with at least six free pages and process ids left, \<open>allocproc\<close> takes the first UNUSED slot. It returns a USED process with
  a fresh process id, a trapframe page, and a page table that maps the trampoline and the trapframe
  and nothing else; the pages it took are exactly those of the table and the trapframe, and no
  other slot changes.\<close>

theorem allocproc_builds:
  assumes "kinv kend fl s" "6 \<le> length fl" "i < NPROC" "p_state (procs s i) = UNUSED"
    "\<forall>j < i. p_state (procs s j) \<noteq> UNUSED" "0 \<le> nextpid s" "nextpid s + 1 < 2 ^ 31"
  shows "\<exists>s' used fl'. allocproc s = Inr (Some i, s') \<and> fl = used @ fl' \<and> fresh_slot s (procs s' i) \<and>
    (\<forall>j. j \<noteq> i \<longrightarrow> procs s' j = procs s j) \<and> nextpid s' = nextpid s + 1 \<and>
    vinv kend fl' (p_pagetable (procs s' i)) s' \<and>
    tables s' (p_pagetable (procs s' i)) \<union> {p_trapframe (procs s' i)} = set used \<and>
    (\<forall>va < MAXVA. pte_at s' (p_pagetable (procs s' i)) va = empty_space (tramp_pa s) (p_trapframe (procs s' i)) va)"
proof -
  have f: "proc_find (\<lambda>p. p_state p = UNUSED) s = Some i" using assms by (intro proc_find_first) auto
  obtain s' used fl' where s': "allocproc s = Inr (Some i, s')" "fl = used @ fl'"
    "vinv kend fl' (p_pagetable (procs s' i)) s'"
    "tables s' (p_pagetable (procs s' i)) \<union> {p_trapframe (procs s' i)} = set used"
    "\<forall>va < MAXVA. pte_at s' (p_pagetable (procs s' i)) va = empty_space (tramp_pa s) (p_trapframe (procs s' i)) va"
    using allocproc_ok [OF assms(1,2) f assms(6,7)] by blast
  have "fresh_slot s (procs s' i)" "\<forall>j. j \<noteq> i \<longrightarrow> procs s' j = procs s j" "nextpid s' = nextpid s + 1"
    using allocproc_cases [OF s'(1)] f by auto
  with s' show ?thesis by blast
qed

theorem allocproc_builds_witness:
  "\<exists>s'. allocproc booted = Inr (Some 0, s') \<and> p_pid (procs s' 0) = 1 \<and> p_trapframe (procs s' 0) \<noteq> 0 \<and>
     pte_at s' (p_pagetable (procs s' 0)) TRAPFRAME =
       PA2PTE (p_trapframe (procs s' 0)) OR (PTE_R OR PTE_W) OR PTE_V \<and>
     pte_at s' (p_pagetable (procs s' 0)) 0 = 0"
proof -
  obtain fl where fl: "kinv 0x87ff0000 fl booted" "6 \<le> length fl" using booted_ok by blast
  have z: "PGROUNDDOWN 0 = 0" "(0::uint64) < MAXVA" "TRAPFRAME \<noteq> 0" "TRAMPOLINE \<noteq> 0"
    by (simp_all add: layout_defs PGROUNDDOWN_def)
  have t: "PGROUNDDOWN TRAPFRAME = TRAPFRAME" using page_consts(2) by (simp add: page_aligned_alt)
  obtain s' where s': "allocproc booted = Inr (Some 0, s')" "fresh_slot booted (procs s' 0)"
    "\<forall>va < MAXVA. pte_at s' (p_pagetable (procs s' 0)) va = empty_space (tramp_pa booted) (p_trapframe (procs s' 0)) va"
    using allocproc_builds [OF fl, of 0] booted_procs(1,3) by (auto simp: NPROC_def)
  have "p_pid (procs s' 0) = 1" "p_trapframe (procs s' 0) \<noteq> 0" using s'(2) booted_procs(3) by (simp_all add: fresh_slot_def)
  then show ?thesis using s'(1,3) z t page_consts(4) by (intro exI [of _ s']) (simp add: empty_space_def)
qed

text \<open>C22: process ids stay unique. In every state that the table operations reach from \<open>procinit\<close>, in any
  order and on behalf of any process, slots in use have positive ids below \<open>nextpid\<close>, no two of them
  share one, and free slots have id 0. The counter is a C \<open>int\<close>: the allocation that would overflow it is undefined and ends the run.\<close>

theorem pids_unique:
  assumes "\<forall>i < NPROC. p_pid (procs s0 i) = 0" "0 < nextpid s0" "nextpid s0 < 2 ^ 31" "table_step\<^sup>*\<^sup>* (procinit s0) s"
  shows "pid_inv s"
  using assms(4)
proof (induction rule: rtranclp_induct)
  case base
  show ?case using assms(1-3) by (rule pid_inv_procinit)
next
  case (step y z)
  then show ?case using pid_inv_step by blast
qed

theorem pids_unique_witness:
  "\<exists>s s' s''. kinit 0x87ff0000 raw_machine = Inr s \<and> allocproc (procinit s) = Inr (Some 0, s') \<and>
     s'' = snd (kill (wakeup s' None ChTicks) 1) \<and> p_killed (procs s'' 0) = 1 \<and> pid_inv s''"
proof -
  obtain fl where fl: "kinv 0x87ff0000 fl booted" "6 \<le> length fl" using booted_ok by blast
  obtain s where s: "kinit 0x87ff0000 raw_machine = Inr s"
    using kinit_ok [of "0x87ff0000" raw_machine] by (auto simp: layout_defs raw_machine_def)
  then have b: "booted = procinit s" by (simp add: booted_def)
  have f: "proc_find (\<lambda>p. p_state p = UNUSED) booted = Some 0"
    by (rule proc_find_first) (simp_all add: NPROC_def booted_procs)
  obtain s' where s': "allocproc (procinit s) = Inr (Some 0, s')"
    using allocproc_ok [OF fl f] b booted_procs(3) by auto
  have p: "p_pid (procs s' 0) = 1" using allocproc_cases [OF s'] f b booted_procs(3) by (auto simp: fresh_slot_def)
  have k: "proc_find (\<lambda>p. p_pid p = 1) (wakeup s' None ChTicks) = Some 0"
    by (rule proc_find_first) (simp_all add: NPROC_def wakeup_procs p wake_fields_def)
  define s'' where "s'' = snd (kill (wakeup s' None ChTicks) 1)"
  have "table_step\<^sup>*\<^sup>* (procinit s) s''"
    unfolding s''_def
    by (rule rtranclp.rtrancl_into_rtrancl, rule rtranclp.rtrancl_into_rtrancl, rule r_into_rtranclp,
        rule ts_alloc, rule s', rule ts_wakeup, rule ts_kill)
  moreover have killed: "p_killed (procs s'' 0) = 1" by (simp add: s''_def kill_def k wake_fields_def Let_def)
  moreover have "p_pid (procs s i) = 0" "nextpid s = 1" for i
    using more_proc [OF kinit_more [OF s]] by (simp_all add: raw_machine_def idle_proc_def)
  ultimately have "pid_inv s''" by (intro pids_unique [of s s'']) simp_all
  with killed s s' show ?thesis unfolding s''_def by blast
qed

text \<open>C24: one round of \<open>wait(addr)\<close>. If there is a zombie child, the first one in the table is taken: unless \<open>addr\<close> is 0 its exit status is
  copied to \<open>addr\<close> first; if that fails the call returns -1 and the zombie stays, otherwise it returns the
  child's id and frees the slot, changing no other slot. Without a zombie child it returns -1 exactly when there is no child
  or the caller was killed, without effect; otherwise the caller goes to sleep on its own
  channel.\<close>

theorem wait_reaps:
  assumes "wait_step s me addr = Inr (out, s')"
  shows "(\<exists>pp < NPROC. zombie_child s me pp \<and> (\<forall>j < pp. \<not> zombie_child s me j) \<and>
      (\<exists>c s1. (if addr = 0 then c = 0 \<and> s1 = s
          else copyout s (p_pagetable (procs s me)) addr (bytes32 (of_int (p_xstate (procs s pp)))) = Inr (c, s1)) \<and>
        (if c < 0 then out = Return (-1) \<and> s' = s1 \<and> procs s' = procs s
         else out = Return (p_pid (procs s pp)) \<and> freeproc s1 pp = Inr s' \<and> p_state (procs s' pp) = UNUSED \<and>
           p_pid (procs s' pp) = 0 \<and> (\<forall>j. j \<noteq> pp \<longrightarrow> procs s' j = procs s j)))) \<or>
    ((\<forall>pp < NPROC. \<not> zombie_child s me pp) \<and>
      (if (\<forall>pp < NPROC. p_parent (procs s pp) \<noteq> Some me) \<or> killed s me then out = Return (-1) \<and> s' = s
       else out = Sleeps \<and> s' = sleep_begin s me (ChProc me)))"
proof -
  obtain r hk s1 where w: "wait_scan s me addr False [0..<NPROC] = Inr (r, hk, s1)"
    and o: "(case r of Some v \<Rightarrow> Inr (Return v, s1)
       | None \<Rightarrow> if \<not> hk \<or> killed s1 me then Inr (Return (-1), s1)
           else Inr (Sleeps, sleep_begin s1 me (ChProc me))) = (Inr (out, s') :: _ res)"
    using assms unfolding wait_step_def by (auto simp: bind_res_Inr_iff)
  note c = wait_scan_cases [OF w]
  show ?thesis
  proof (cases r)
    case None
    then have "s1 = s" "hk \<longleftrightarrow> (\<exists>pp < NPROC. p_parent (procs s pp) = Some me)" "\<forall>pp < NPROC. \<not> zombie_child s me pp"
      using c by auto
    then show ?thesis using o None by (intro disjI2) (auto split: if_splits)
  next
    case (Some v)
    obtain as pp bs x t where q: "[0..<NPROC] = as @ pp # bs" "zombie_child s me pp" "\<forall>j \<in> set as. \<not> zombie_child s me j"
      "status_copy s me addr pp = Inr (x, t)" "kmem.more t = kmem.more s"
      "if x < 0 then v = -1 \<and> s1 = t else v = p_pid (procs s pp) \<and> freeproc t pp = Inr s1"
      using c unfolding Some option.case by metis
    have n: "length as < NPROC" using arg_cong [OF q(1), of length] by simp
    have "pp = [0..<NPROC] ! length as" "as = take (length as) [0..<NPROC]" unfolding q(1) by simp_all
    then have pp: "pp < NPROC" "as = [0..<pp]" using n by (simp_all add: take_upt)
    have os: "out = Return v" "s' = s1" using o Some by simp_all
    have t: "procs t = procs s" using more_proc [OF q(5)] by simp
    show ?thesis
    proof (rule disjI1, rule exI [of _ pp], intro conjI exI [of _ x] exI [of _ t])
      show "\<forall>j < pp. \<not> zombie_child s me j" using q(3) pp(2) by simp
      show "if addr = 0 then x = 0 \<and> t = s
          else copyout s (p_pagetable (procs s me)) addr (bytes32 (of_int (p_xstate (procs s pp)))) = Inr (x, t)"
        using q(4) by (auto split: if_splits)
      show "if x < 0 then out = Return (-1) \<and> s' = t \<and> procs s' = procs s
         else out = Return (p_pid (procs s pp)) \<and> freeproc t pp = Inr s' \<and> p_state (procs s' pp) = UNUSED \<and>
           p_pid (procs s' pp) = 0 \<and> (\<forall>j. j \<noteq> pp \<longrightarrow> procs s' j = procs s j)"
        using q(6) os t freeproc_procs(1) [of t pp s1] by (auto simp: freeproc_fields_def split: if_splits)
    qed (use pp(1) q(2) in simp_all)
  qed
qed

theorem wait_reaps_witness:
  "\<exists>s' s''. wait_step family 0 0 = Inr (Return 2, s') \<and> p_state (procs s' 1) = UNUSED \<and> procs s' 0 = procs family 0 \<and>
     wait_step family 0 MAXVA = Inr (Return (-1), s'') \<and> p_state (procs s'' 1) = ZOMBIE"
proof -
  have "\<exists>s'. wait_step family 0 0 = Inr (Return 2, s')"
    by (simp add: wait_step_def NPROC_def upt_conv_Cons family_def raw_machine_def idle_proc_def freeproc_def)
  then obtain s' where s': "wait_step family 0 0 = Inr (Return 2, s')" ..
  have w: "walkaddr family pt (PGROUNDDOWN MAXVA) = Inr 0" for pt by (simp add: walkaddr_def PGROUNDDOWN_def layout_defs)
  have "copyout family pt MAXVA (bytes32 x) = Inr (-1, family)" for pt x
  proof -
    have "bytes32 x \<noteq> []" by (simp add: bytes32_def)
    then show ?thesis by (simp add: copyout_def w)
  qed
  then have "\<exists>s''. wait_step family 0 MAXVA = Inr (Return (-1), s'')"
    by (simp add: wait_step_def NPROC_def upt_conv_Cons family_slots MAXVA_def)
  then obtain s'' where s'': "wait_step family 0 MAXVA = Inr (Return (-1), s'')" ..
  have "p_state (procs s' 1) = UNUSED" "procs s' 0 = procs family 0"
    using wait_reaps [OF s'] by (auto simp: family_slots split: if_splits)
  moreover have "p_state (procs s'' 1) = ZOMBIE"
    using wait_reaps [OF s''] by (auto simp: family_slots split: if_splits)
  ultimately show ?thesis using s' s'' by blast
qed

text \<open>For a positive id, \<open>kill\<close> returns 0 exactly when a process in use has it; it then marks that process and
  no other, and wakes it if it sleeps. With an unknown id nothing changes.\<close>

theorem kill_marks:
  assumes "pid_inv s" "0 < pid"
  shows "(\<exists>i < NPROC. p_state (procs s i) \<noteq> UNUSED \<and> p_pid (procs s i) = pid \<and> fst (kill s pid) = 0 \<and>
      killed (snd (kill s pid)) i \<and> p_state (procs (snd (kill s pid)) i) \<noteq> SLEEPING \<and>
      (\<forall>j. j \<noteq> i \<longrightarrow> procs (snd (kill s pid)) j = procs s j)) \<or>
    ((\<forall>i < NPROC. p_state (procs s i) \<noteq> UNUSED \<longrightarrow> p_pid (procs s i) \<noteq> pid) \<and> kill s pid = (-1, s))"
proof (cases "proc_find (\<lambda>p. p_pid p = pid) s")
  case None
  then have "kill s pid = (-1, s)" by (simp add: kill_def)
  then show ?thesis by (intro disjI2) (use None in \<open>auto simp: proc_find_None\<close>)
next
  case (Some i)
  note i = proc_find_Some [OF Some]
  have "p_state (procs s i) \<noteq> UNUSED" using assms i(1,2) by (auto simp: pid_inv_def)
  then show ?thesis
    by (intro disjI1 exI [of _ i]) (use i Some in \<open>auto simp: kill_def killed_def wake_fields_def Let_def\<close>)
qed

theorem kill_marks_witness:
  "pid_inv family \<and> killed (snd (kill family 2)) 1 \<and> \<not> killed (snd (kill family 2)) 0"
proof -
  have inv: "pid_inv family" by (auto simp: pid_inv_def family_slots)
  have one: "\<not> (\<forall>i < NPROC. p_state (procs family i) \<noteq> UNUSED \<longrightarrow> p_pid (procs family i) \<noteq> 2)"
    by (simp add: family_slots NPROC_def exI [of _ 1])
  obtain i where i: "p_pid (procs family i) = 2" "killed (snd (kill family 2)) i"
    "\<forall>j. j \<noteq> i \<longrightarrow> procs (snd (kill family 2)) j = procs family j"
    using kill_marks [OF inv, of 2] one by auto
  then have "i = 1" by (simp add: family_slots split: if_splits)
  with i inv show ?thesis by (simp add: killed_def family_slots)
qed

text \<open>C25: \<open>kill(0)\<close> succeeds whenever a slot is free, and marks that free slot; since \<open>allocproc\<close> does not
  reset the mark, the next process created there starts out killed.\<close>

theorem kill_zero_marks_next:
  assumes "pid_inv s" "proc_find (\<lambda>p. p_state p = UNUSED) s = Some i"
    "allocproc (snd (kill s 0)) = Inr (Some j, s')"
  shows "fst (kill s 0) = 0 \<and> j = i \<and> p_state (procs s' i) = USED \<and> killed s' i"
proof -
  note i = proc_find_Some [OF assms(2)]
  have z: "proc_find (\<lambda>p. p_pid p = 0) s = Some i"
  proof (rule proc_find_first [OF i(1)])
    show "p_pid (procs s i) = 0" using assms(1) i by (auto simp: pid_inv_def)
    have "p_pid (procs s j) \<noteq> 0" if "j < i" for j
      using assms(1) i(1,3) that unfolding pid_inv_def by (metis less_irrefl less_trans)
    then show "\<forall>j < i. p_pid (procs s j) \<noteq> 0" by blast
  qed
  define t where "t = snd (kill s 0)"
  have t: "fst (kill s 0) = 0" "killed t i" "\<forall>j. p_state (procs t j) = p_state (procs s j)"
    using i(2) by (auto simp: t_def kill_def z killed_def)
  have "proc_find (\<lambda>p. p_state p = UNUSED) t = Some i" using t(3) i by (intro proc_find_first) auto
  then show ?thesis using allocproc_cases [OF assms(3)] t(1,2) by (auto simp: t_def killed_def fresh_slot_def)
qed

theorem kill_zero_marks_next_witness:
  "\<exists>s'. allocproc (snd (kill booted 0)) = Inr (Some 0, s') \<and> fst (kill booted 0) = 0 \<and> killed s' 0"
proof -
  obtain fl where fl: "kinv 0x87ff0000 fl booted" "6 \<le> length fl" using booted_ok by blast
  have f: "proc_find (\<lambda>p. p_state p = UNUSED) booted = Some 0"
    by (rule proc_find_first) (simp_all add: NPROC_def booted_procs)
  have z: "proc_find (\<lambda>p. p_pid p = 0) booted = Some 0"
    by (rule proc_find_first) (simp_all add: NPROC_def booted_procs)
  have inv: "pid_inv booted" by (simp add: pid_inv_def booted_procs)
  define t where "t = snd (kill booted 0)"
  have t: "kinv 0x87ff0000 fl t" "proc_find (\<lambda>p. p_state p = UNUSED) t = Some 0" "nextpid t = 1"
    using fl(1) by (simp_all add: t_def kill_def z booted_procs proc_find_first NPROC_def)
  obtain s' where s': "allocproc t = Inr (Some 0, s')" using allocproc_ok [OF t(1) fl(2) t(2)] t(3) by auto
  show ?thesis using kill_zero_marks_next [OF inv f] s' unfolding t_def by blast
qed

text \<open>\<open>wakeup\<close> makes exactly the other processes that sleep on the channel RUNNABLE, in no order that
  matters, and leaves every other process as it was.\<close>

theorem wakeup_wakes:
  "procs (wakeup s me ch) i =
     (if i < NPROC \<and> Some i \<noteq> me \<and> p_state (procs s i) = SLEEPING \<and> p_chan (procs s i) = Some ch
      then (procs s i)\<lparr>p_state := RUNNABLE, p_last_exec := ticks s, p_tick_ctr := 0, p_in_time := ticks s\<rparr>
      else procs s i)"
  by (simp add: wakeup_procs wake_fields_def)

end
