(* ===== verification/Sleeplock.thy ===== *)
theory Sleeplock
  imports Proc
begin

text \<open>
  Sleep locks, \<open>kernel/sleeplock.c\<close>. The spin lock inside makes each function atomic up to
  its call of \<open>sleep\<close>. \<open>acquiresleep_step\<close> is one round of the loop; \<open>acquiresleep\<close> is the
  call as the file system makes it, by one process alone.
\<close>

section \<open>The operations\<close>

record sleeplock =
  sl_locked :: bool
  sl_name :: string
  sl_pid :: int

definition initsleeplock :: "string \<Rightarrow> sleeplock" where
  "initsleeplock name = \<lparr>sl_locked = False, sl_name = name, sl_pid = 0\<rparr>"

definition acquiresleep_step :: "'z kproc_scheme \<Rightarrow> nat \<Rightarrow> nat \<Rightarrow> sleeplock \<Rightarrow>
    unit outcome \<times> sleeplock \<times> 'z kproc_scheme" where
  "acquiresleep_step s me lid lk =
     (if sl_locked lk then (Sleeps, lk, sleep_begin s me (ChSleeplock lid))
      else (Return (), lk\<lparr>sl_locked := True, sl_pid := p_pid (procs s me)\<rparr>, s))"

definition acquiresleep :: "'z kproc_scheme \<Rightarrow> nat \<Rightarrow> nat \<Rightarrow> sleeplock \<Rightarrow> sleeplock res" where
  "acquiresleep s me lid lk =
     (case acquiresleep_step s me lid lk of
        (Return _, lk, s) \<Rightarrow> Inr lk
      | (Sleeps, lk, s) \<Rightarrow> Inl Blocked)"

definition releasesleep :: "'z kproc_scheme \<Rightarrow> nat \<Rightarrow> nat \<Rightarrow> sleeplock \<Rightarrow> sleeplock \<times> 'z kproc_scheme" where
  "releasesleep s me lid lk = (lk\<lparr>sl_locked := False, sl_pid := 0\<rparr>, wakeup s (Some me) (ChSleeplock lid))"

definition holdingsleep :: "'z kproc_scheme \<Rightarrow> nat \<Rightarrow> sleeplock \<Rightarrow> bool" where
  "holdingsleep s me lk \<longleftrightarrow> sl_locked lk \<and> sl_pid lk = p_pid (procs s me)"

lemma acquiresleep_alt:
  "acquiresleep s me lid lk =
     (if sl_locked lk then Inl Blocked else Inr (lk\<lparr>sl_locked := True, sl_pid := p_pid (procs s me)\<rparr>))"
  by (simp add: acquiresleep_def acquiresleep_step_def)


section \<open>Processes contending for one lock\<close>

abbreviation sleeping_on :: "'z kproc_scheme \<Rightarrow> nat \<Rightarrow> nat \<Rightarrow> bool" where
  "sleeping_on s lid i \<equiv> i < NPROC \<and> p_state (procs s i) = SLEEPING \<and> p_chan (procs s i) = Some (ChSleeplock lid)"

text \<open>
  \<open>H\<close> is the set of processes between \<open>acquiresleep\<close> and \<open>releasesleep\<close>. Everything else the
  kernel does (scheduling, kill, other wakeups, other sleeps) may end a sleep on the lock, but
  only \<open>acquiresleep\<close> starts one.
\<close>

inductive sl_step :: "nat \<Rightarrow> sleeplock \<times> 'z kproc_scheme \<times> nat set \<Rightarrow> sleeplock \<times> 'z kproc_scheme \<times> nat set \<Rightarrow> bool"
  for lid :: nat where
  sl_acquire: "p_state (procs s me) = RUNNING \<Longrightarrow> acquiresleep_step s me lid lk = (Return u, lk', s') \<Longrightarrow>
    sl_step lid (lk, s, H) (lk', s', insert me H)"
| sl_wait: "p_state (procs s me) = RUNNING \<Longrightarrow> acquiresleep_step s me lid lk = (Sleeps, lk', s') \<Longrightarrow>
    sl_step lid (lk, s, H) (lk', s', H)"
| sl_release: "p_state (procs s me) = RUNNING \<Longrightarrow> me \<in> H \<Longrightarrow> releasesleep s me lid lk = (lk', s') \<Longrightarrow>
    sl_step lid (lk, s, H) (lk', s', H - {me})"
| sl_other: "(\<And>i. sleeping_on s' lid i \<Longrightarrow> sleeping_on s lid i) \<Longrightarrow> sl_step lid (lk, s, H) (lk, s', H)"

definition sl_inv :: "nat \<Rightarrow> sleeplock \<times> 'z kproc_scheme \<times> nat set \<Rightarrow> bool" where
  "sl_inv lid x \<longleftrightarrow> (case x of (lk, s, H) \<Rightarrow>
     (if sl_locked lk then \<exists>me. H = {me} else H = {}) \<and> (\<forall>i. sleeping_on s lid i \<longrightarrow> sl_locked lk))"

lemma sl_inv_step: "sl_step lid x y \<Longrightarrow> sl_inv lid x \<Longrightarrow> sl_inv lid y"
proof (induction rule: sl_step.induct)
  case (sl_acquire s me lk u lk' s' H)
  then show ?case by (auto simp: sl_inv_def acquiresleep_step_def split: if_splits)
next
  case (sl_wait s me lk lk' s' H)
  then show ?case by (auto simp: sl_inv_def acquiresleep_step_def split: if_splits)
next
  case (sl_release s me H lk lk' s')
  have st: "p_state (procs s' i) = p_state (if sleeping_on s lid i \<and> i \<noteq> me then wake_fields (ticks s) (procs s i) else procs s i)" for i
    using sl_release.hyps(3) by (auto simp: releasesleep_def wakeup_procs)
  have "\<not> sleeping_on s' lid i" for i
    using st [of i] sl_release.hyps(1) sl_release.hyps(3)
    by (cases "i = me") (auto simp: wake_fields_def releasesleep_def wakeup_procs split: if_splits)
  moreover have "\<not> sl_locked lk'" using sl_release.hyps(3) by (auto simp: releasesleep_def)
  moreover have "H - {me} = {}" using sl_release by (auto simp: sl_inv_def split: if_splits)
  ultimately show ?case by (simp add: sl_inv_def)
next
  case (sl_other s' s lk H)
  then show ?case by (auto simp: sl_inv_def)
qed

text \<open>C34: a sleep lock is held by at most one process, and no wakeup on it is lost: in every state that processes
  contending for it reach, it is free exactly when nobody is between \<open>acquiresleep\<close> and
  \<open>releasesleep\<close>, and whenever it is free no process sleeps on it.\<close>

theorem sleeplock_excludes:
  assumes "\<forall>i. \<not> sleeping_on s0 lid i" "(sl_step lid)\<^sup>*\<^sup>* (initsleeplock name, s0, {}) (lk, s, H)"
  shows "(if sl_locked lk then \<exists>me. H = {me} else H = {}) \<and> (sl_locked lk \<or> (\<forall>i. \<not> sleeping_on s lid i))"
proof -
  have "sl_inv lid (lk, s, H)"
    using assms(2)
  proof (induction rule: rtranclp_induct)
    case base
    show ?case using assms(1) by (simp add: sl_inv_def initsleeplock_def)
  next
    case (step y z)
    then show ?case using sl_inv_step by blast
  qed
  then show ?thesis by (auto simp: sl_inv_def)
qed

theorem sleeplock_excludes_witness:
  "\<exists>lk s. (sl_step 9)\<^sup>*\<^sup>* (initsleeplock ''inode'', family, {}) (lk, s, {0}) \<and> sl_locked lk \<and> sl_pid lk = 1"
proof -
  define lk where "lk = \<lparr>sl_locked = True, sl_name = ''inode'', sl_pid = 1\<rparr>"
  have "sl_step 9 (initsleeplock ''inode'', family, {}) (lk, family, insert 0 {})"
    by (rule sl_acquire) (simp_all add: family_slots acquiresleep_step_def initsleeplock_def lk_def)
  then have r: "(sl_step 9)\<^sup>*\<^sup>* (initsleeplock ''inode'', family, {}) (lk, family, {0})" by simp
  have "\<forall>i. \<not> sleeping_on family 9 i" by (simp add: family_slots)
  from sleeplock_excludes [OF this r] r show ?thesis by (auto simp: lk_def intro!: exI)
qed

end
