(* ===== verification/Bytes.thy ===== *)
theory Bytes
  imports Prelude
begin

text \<open>
  Little-endian integers in byte lists, for the structures the kernel keeps in disk blocks,
  and the overwriting of a part of a byte list, which is what \<open>memmove\<close> into a buffer does.
\<close>

definition nat_of_le :: "uint8 list \<Rightarrow> nat" where
  "nat_of_le bs = foldr (\<lambda>b acc. unat b + 256 * acc) bs 0"

definition le_of_nat :: "nat \<Rightarrow> nat \<Rightarrow> uint8 list" where
  "le_of_nat n v = map (\<lambda>i. of_nat (v div 256 ^ i)) [0..<n]"

definition slice :: "'a list \<Rightarrow> nat \<Rightarrow> nat \<Rightarrow> 'a list" where
  "slice xs off n = take n (drop off xs)"

definition overwrite :: "'a list \<Rightarrow> nat \<Rightarrow> 'a list \<Rightarrow> 'a list" where
  "overwrite xs off ys = take off xs @ ys @ drop (off + length ys) xs"

definition get16 :: "uint8 list \<Rightarrow> nat \<Rightarrow> uint16" where
  "get16 bs off = of_nat (nat_of_le (slice bs off 2))"

definition get32 :: "uint8 list \<Rightarrow> nat \<Rightarrow> uint" where
  "get32 bs off = of_nat (nat_of_le (slice bs off 4))"

definition get64 :: "uint8 list \<Rightarrow> nat \<Rightarrow> uint64" where
  "get64 bs off = of_nat (nat_of_le (slice bs off 8))"

definition put16 :: "uint8 list \<Rightarrow> nat \<Rightarrow> uint16 \<Rightarrow> uint8 list" where
  "put16 bs off v = overwrite bs off (le_of_nat 2 (unat v))"

definition put32 :: "uint8 list \<Rightarrow> nat \<Rightarrow> uint \<Rightarrow> uint8 list" where
  "put32 bs off v = overwrite bs off (le_of_nat 4 (unat v))"

lemma length_le_of_nat [simp]: "length (le_of_nat n v) = n"
  by (simp add: le_of_nat_def)

lemma le_of_nat_Suc: "le_of_nat (Suc n) v = of_nat v # le_of_nat n (v div 256)"
proof -
  have "map (\<lambda>i. of_nat (v div 256 ^ i) :: uint8) [0..<Suc n] =
      of_nat v # map (\<lambda>i. of_nat (v div 256 ^ Suc i)) [0..<n]"
    unfolding upt_conv_Cons [OF zero_less_Suc] by (simp add: map_Suc_upt [symmetric] comp_def del: upt_Suc)
  then show ?thesis by (simp add: le_of_nat_def div_mult2_eq)
qed

lemma nat_of_le_le_of_nat: "nat_of_le (le_of_nat n v) = v mod 256 ^ n"
proof (induction n arbitrary: v)
  case 0
  then show ?case by (simp add: le_of_nat_def nat_of_le_def)
next
  case (Suc n)
  have "nat_of_le (le_of_nat (Suc n) v) = v mod 256 + 256 * nat_of_le (le_of_nat n (v div 256))"
    by (simp add: le_of_nat_Suc nat_of_le_def unat_of_nat)
  also have "\<dots> = v mod (256 * 256 ^ n)" by (simp add: Suc mod_mult2_eq)
  finally show ?case by simp
qed

lemma length_overwrite [simp]: "off + length ys \<le> length xs \<Longrightarrow> length (overwrite xs off ys) = length xs"
  by (simp add: overwrite_def)

lemma length_slice [simp]: "off + n \<le> length xs \<Longrightarrow> length (slice xs off n) = n"
  by (simp add: slice_def)

lemma slice_overwrite_same [simp]:
  "off + length ys \<le> length xs \<Longrightarrow> n = length ys \<Longrightarrow> slice (overwrite xs off ys) off n = ys"
  by (simp add: slice_def overwrite_def)

lemma slice_overwrite_other:
  assumes "off + length ys \<le> length xs" "off' + n \<le> off \<or> off + length ys \<le> off'" "off' + n \<le> length xs"
  shows "slice (overwrite xs off ys) off' n = slice xs off' n"
proof (rule nth_equalityI)
  show "length (slice (overwrite xs off ys) off' n) = length (slice xs off' n)" using assms by simp
  fix i assume "i < length (slice (overwrite xs off ys) off' n)"
  then have "i < n" using assms by simp
  then show "slice (overwrite xs off ys) off' n ! i = slice xs off' n ! i"
    using assms by (auto simp: slice_def overwrite_def nth_append)
qed

lemma get_put [simp]:
  "off + 2 \<le> length bs \<Longrightarrow> get16 (put16 bs off v) off = v"
  "off + 4 \<le> length bs \<Longrightarrow> get32 (put32 bs off w) off = w"
  using unsigned_less [where 'a = nat, of v] unsigned_less [where 'a = nat, of w]
  by (simp_all add: get16_def put16_def get32_def put32_def nat_of_le_le_of_nat)

lemma get32_put32_other:
  "off + 4 \<le> length bs \<Longrightarrow> off' + 4 \<le> length bs \<Longrightarrow> off' + 4 \<le> off \<or> off + 4 \<le> off' \<Longrightarrow>
    get32 (put32 bs off v) off' = get32 bs off'"
  by (simp add: get32_def put32_def slice_overwrite_other)

lemma length_put [simp]:
  "off + 2 \<le> length bs \<Longrightarrow> length (put16 bs off v) = length bs"
  "off + 4 \<le> length bs \<Longrightarrow> length (put32 bs off w) = length bs"
  by (simp_all add: put16_def put32_def)

end
