(* ===== verification/Bio.thy ===== *)
theory Bio
  imports Sleeplock Bytes
begin

text \<open>
  The buffer cache, \<open>kernel/bio.c\<close>. The cache's doubly linked list is kept as the code has
  it, as \<open>prev\<close> and \<open>next\<close> pointers (indices of \<open>bufs\<close>, with the list head at \<open>NBUF\<close>).
  The disk is a map from block numbers to blocks; \<open>virtio_disk_rw\<close> is modelled by the
  effect of a completed request, and every write is also recorded, in order, in
  \<open>disk_log\<close>, so that a crash between two writes can be described.
\<close>

section \<open>The operations\<close>

definition BSIZE :: nat where [layout_defs]: "BSIZE = 1024"

record buf =
  b_valid :: bool
  b_dev :: uint
  b_blockno :: uint
  b_lock :: sleeplock
  b_refcnt :: int
  b_prev :: nat
  b_next :: nat
  b_data :: "uint8 list"

record kbio = kproc +
  bufs :: "nat \<Rightarrow> buf"
  disk :: "uint \<Rightarrow> uint8 list"
  disk_log :: "(uint \<times> uint8 list) list"

definition buf_upd :: "nat \<Rightarrow> (buf \<Rightarrow> buf) \<Rightarrow> 'z kbio_scheme \<Rightarrow> 'z kbio_scheme" where
  "buf_upd b f s = s\<lparr>bufs := (bufs s)(b := f (bufs s b))\<rparr>"

text \<open>Insertion at the front of the list, and removal, as pointer updates.\<close>

definition link_front :: "nat \<Rightarrow> 'z kbio_scheme \<Rightarrow> 'z kbio_scheme" where
  "link_front b s =
     (let s = buf_upd b (\<lambda>x. x\<lparr>b_next := b_next (bufs s NBUF)\<rparr>) s;
          s = buf_upd b (\<lambda>x. x\<lparr>b_prev := NBUF\<rparr>) s;
          s = buf_upd (b_next (bufs s NBUF)) (\<lambda>x. x\<lparr>b_prev := b\<rparr>) s
      in buf_upd NBUF (\<lambda>x. x\<lparr>b_next := b\<rparr>) s)"

definition unlink :: "nat \<Rightarrow> 'z kbio_scheme \<Rightarrow> 'z kbio_scheme" where
  "unlink b s =
     (let s = buf_upd (b_next (bufs s b)) (\<lambda>x. x\<lparr>b_prev := b_prev (bufs s b)\<rparr>) s
      in buf_upd (b_prev (bufs s b)) (\<lambda>x. x\<lparr>b_next := b_next (bufs s b)\<rparr>) s)"

definition binit :: "'z kbio_scheme \<Rightarrow> 'z kbio_scheme" where
  "binit s =
     (let s = buf_upd NBUF (\<lambda>x. x\<lparr>b_prev := NBUF, b_next := NBUF\<rparr>) s
      in fold (\<lambda>b s. link_front b (buf_upd b (\<lambda>x. x\<lparr>b_lock := initsleeplock ''buffer''\<rparr>) s)) [0..<NBUF] s)"

text \<open>The two loops of \<open>bget\<close>; the list has \<open>NBUF\<close> elements, which bounds them.\<close>

primrec bget_cached :: "nat \<Rightarrow> 'z kbio_scheme \<Rightarrow> uint \<Rightarrow> uint \<Rightarrow> nat \<Rightarrow> nat option res" where
  "bget_cached 0 s dev blockno b = Inl OutOfFuel"
| "bget_cached (Suc fuel) s dev blockno b =
     (if b = NBUF then Inr None
      else if b_dev (bufs s b) = dev \<and> b_blockno (bufs s b) = blockno then Inr (Some b)
      else bget_cached fuel s dev blockno (b_next (bufs s b)))"

primrec bget_unused :: "nat \<Rightarrow> 'z kbio_scheme \<Rightarrow> nat \<Rightarrow> nat option res" where
  "bget_unused 0 s b = Inl OutOfFuel"
| "bget_unused (Suc fuel) s b =
     (if b = NBUF then Inr None
      else if b_refcnt (bufs s b) = 0 then Inr (Some b)
      else bget_unused fuel s (b_prev (bufs s b)))"

definition lock_buf :: "'z kbio_scheme \<Rightarrow> nat \<Rightarrow> nat \<Rightarrow> 'z kbio_scheme res" where
  "lock_buf s me b =
     bind_res (acquiresleep s me b (b_lock (bufs s b))) (\<lambda>lk.
       Inr (buf_upd b (\<lambda>x. x\<lparr>b_lock := lk\<rparr>) s))"

definition bget :: "'z kbio_scheme \<Rightarrow> nat \<Rightarrow> uint \<Rightarrow> uint \<Rightarrow> (nat \<times> 'z kbio_scheme) res" where
  "bget s me dev blockno =
     bind_res (bget_cached (Suc NBUF) s dev blockno (b_next (bufs s NBUF))) (\<lambda>r.
       case r of
         Some b \<Rightarrow>
           let s = buf_upd b (\<lambda>x. x\<lparr>b_refcnt := b_refcnt x + 1\<rparr>) s
           in bind_res (lock_buf s me b) (\<lambda>s. Inr (b, s))
       | None \<Rightarrow>
           bind_res (bget_unused (Suc NBUF) s (b_prev (bufs s NBUF))) (\<lambda>r.
             case r of
               Some b \<Rightarrow>
                 let s = buf_upd b (\<lambda>x. x\<lparr>b_dev := dev, b_blockno := blockno, b_valid := False, b_refcnt := 1\<rparr>) s
                 in bind_res (lock_buf s me b) (\<lambda>s. Inr (b, s))
             | None \<Rightarrow> Inl (Panic ''bget: no buffers'')))"

definition virtio_disk_rw :: "'z kbio_scheme \<Rightarrow> nat \<Rightarrow> bool \<Rightarrow> 'z kbio_scheme" where
  "virtio_disk_rw s b write =
     (let x = bufs s b
      in if write then s\<lparr>disk := (disk s)(b_blockno x := b_data x), disk_log := disk_log s @ [(b_blockno x, b_data x)]\<rparr>
         else buf_upd b (\<lambda>x. x\<lparr>b_data := disk s (b_blockno x)\<rparr>) s)"

definition bread :: "'z kbio_scheme \<Rightarrow> nat \<Rightarrow> uint \<Rightarrow> uint \<Rightarrow> (nat \<times> 'z kbio_scheme) res" where
  "bread s me dev blockno =
     bind_res (bget s me dev blockno) (\<lambda>(b, s).
       let s = (if \<not> b_valid (bufs s b)
                then buf_upd b (\<lambda>x. x\<lparr>b_valid := True\<rparr>) (virtio_disk_rw s b False) else s)
       in Inr (b, s))"

definition bwrite :: "'z kbio_scheme \<Rightarrow> nat \<Rightarrow> nat \<Rightarrow> 'z kbio_scheme res" where
  "bwrite s me b =
     (if \<not> holdingsleep s me (b_lock (bufs s b)) then Inl (Panic ''bwrite'')
      else Inr (virtio_disk_rw s b True))"

definition brelse :: "'z kbio_scheme \<Rightarrow> nat \<Rightarrow> nat \<Rightarrow> 'z kbio_scheme res" where
  "brelse s me b =
     (if \<not> holdingsleep s me (b_lock (bufs s b)) then Inl (Panic ''brelse'')
      else
        case releasesleep s me b (b_lock (bufs s b)) of
          (lk, s) \<Rightarrow>
            let s = buf_upd b (\<lambda>x. x\<lparr>b_lock := lk\<rparr>) s;
                s = buf_upd b (\<lambda>x. x\<lparr>b_refcnt := b_refcnt x - 1\<rparr>) s
            in Inr (if b_refcnt (bufs s b) = 0 then link_front b (unlink b s) else s))"

definition bpin :: "nat \<Rightarrow> 'z kbio_scheme \<Rightarrow> 'z kbio_scheme" where
  "bpin b s = buf_upd b (\<lambda>x. x\<lparr>b_refcnt := b_refcnt x + 1\<rparr>) s"

definition bunpin :: "nat \<Rightarrow> 'z kbio_scheme \<Rightarrow> 'z kbio_scheme" where
  "bunpin b s = buf_upd b (\<lambda>x. x\<lparr>b_refcnt := b_refcnt x - 1\<rparr>) s"

end
