(* ===== verification/Log.thy ===== *)
theory Log
  imports Bio
begin

text \<open>
  The write-ahead log, \<open>kernel/log.c\<close>: a transaction's blocks stay in the cache until the
  last operation ends; \<open>commit\<close> writes them to the log, then the header, which is the
  commit point, then to their home locations, and clears the header. \<open>struct log\<close> is part
  of the state; block numbers in the header are 32-bit words.
\<close>

section \<open>The operations\<close>

record loghdr =
  lh_n :: int
  lh_block :: "uint list"

record klog = kbio +
  log_start :: int
  log_size :: int
  outstanding :: int
  committing :: bool
  log_dev :: uint
  lh :: loghdr

abbreviation buf_data :: "nat \<Rightarrow> 'z kbio_scheme \<Rightarrow> uint8 list" where
  "buf_data b s \<equiv> b_data (bufs s b)"

definition set_data :: "nat \<Rightarrow> uint8 list \<Rightarrow> 'z kbio_scheme \<Rightarrow> 'z kbio_scheme" where
  "set_data b d s = buf_upd b (\<lambda>x. x\<lparr>b_data := d\<rparr>) s"

text \<open>\<open>log.lh.block[i]\<close>, read and written; the array has \<open>LOGSIZE\<close> elements.\<close>

definition lh_get :: "'z klog_scheme \<Rightarrow> nat \<Rightarrow> uint res" where
  "lh_get s i = (if i < length (lh_block (lh s)) then Inr (lh_block (lh s) ! i) else Inl OutOfBounds)"

definition lh_set :: "nat \<Rightarrow> uint \<Rightarrow> 'z klog_scheme \<Rightarrow> 'z klog_scheme res" where
  "lh_set i v s =
     (if i < length (lh_block (lh s))
      then Inr (s\<lparr>lh := (lh s)\<lparr>lh_block := (lh_block (lh s))[i := v]\<rparr>\<rparr>)
      else Inl OutOfBounds)"

definition install_one :: "bool \<Rightarrow> nat \<Rightarrow> nat \<Rightarrow> 'z klog_scheme \<Rightarrow> 'z klog_scheme res" where
  "install_one recovering me tail s =
     bind_res (bread s me (log_dev s) (of_int (log_start s + int tail + 1))) (\<lambda>(lbuf, s).
     bind_res (lh_get s tail) (\<lambda>home.
     bind_res (bread s me (log_dev s) home) (\<lambda>(dbuf, s).
       let s = set_data dbuf (buf_data lbuf s) s
       in bind_res (bwrite s me dbuf) (\<lambda>s.
            let s = (if \<not> recovering then bunpin dbuf s else s)
            in bind_res (brelse s me lbuf) (\<lambda>s. brelse s me dbuf)))))"

definition install_trans :: "'z klog_scheme \<Rightarrow> nat \<Rightarrow> bool \<Rightarrow> 'z klog_scheme res" where
  "install_trans s me recovering = fold_res (install_one recovering me) [0..<nat (lh_n (lh s))] s"

definition read_head :: "'z klog_scheme \<Rightarrow> nat \<Rightarrow> 'z klog_scheme res" where
  "read_head s me =
     bind_res (bread s me (log_dev s) (of_int (log_start s))) (\<lambda>(b, s).
       let s = s\<lparr>lh := (lh s)\<lparr>lh_n := sint (get32 (buf_data b s) 0)\<rparr>\<rparr>
       in bind_res (fold_res (\<lambda>i s. lh_set i (get32 (buf_data b s) (4 + 4 * i)) s) [0..<nat (lh_n (lh s))] s) (\<lambda>s.
            brelse s me b))"

definition write_head :: "'z klog_scheme \<Rightarrow> nat \<Rightarrow> 'z klog_scheme res" where
  "write_head s me =
     bind_res (bread s me (log_dev s) (of_int (log_start s))) (\<lambda>(b, s).
       let s = set_data b (put32 (buf_data b s) 0 (of_int (lh_n (lh s)))) s
       in bind_res (fold_res (\<lambda>i s.
              bind_res (lh_get s i) (\<lambda>v. Inr (set_data b (put32 (buf_data b s) (4 + 4 * i) v) s)))
              [0..<nat (lh_n (lh s))] s) (\<lambda>s.
            bind_res (bwrite s me b) (\<lambda>s. brelse s me b)))"

definition clear_lh :: "'z klog_scheme \<Rightarrow> 'z klog_scheme" where
  "clear_lh s = s\<lparr>lh := (lh s)\<lparr>lh_n := 0\<rparr>\<rparr>"

definition recover_from_log :: "'z klog_scheme \<Rightarrow> nat \<Rightarrow> 'z klog_scheme res" where
  "recover_from_log s me =
     bind_res (read_head s me) (\<lambda>s.
     bind_res (install_trans s me True) (\<lambda>s.
     write_head (clear_lh s) me))"

definition initlog :: "'z klog_scheme \<Rightarrow> nat \<Rightarrow> uint \<Rightarrow> uint \<Rightarrow> uint \<Rightarrow> 'z klog_scheme res" where
  "initlog s me dev sb_logstart sb_nlog =
     recover_from_log (s\<lparr>log_start := sint sb_logstart, log_size := sint sb_nlog, log_dev := dev\<rparr>) me"

text \<open>One round of the loop in \<open>begin_op\<close>, and the call by a process alone.\<close>

definition begin_op_step :: "'z klog_scheme \<Rightarrow> nat \<Rightarrow> unit outcome \<times> 'z klog_scheme" where
  "begin_op_step s me =
     (if committing s then (Sleeps, sleep_begin s me ChLog)
      else if lh_n (lh s) + (outstanding s + 1) * MAXOPBLOCKS > LOGSIZE then (Sleeps, sleep_begin s me ChLog)
      else (Return (), s\<lparr>outstanding := outstanding s + 1\<rparr>))"

definition begin_op :: "'z klog_scheme \<Rightarrow> nat \<Rightarrow> 'z klog_scheme res" where
  "begin_op s me = (case begin_op_step s me of (Return _, s) \<Rightarrow> Inr s | (Sleeps, s) \<Rightarrow> Inl Blocked)"

definition write_log_one :: "nat \<Rightarrow> nat \<Rightarrow> 'z klog_scheme \<Rightarrow> 'z klog_scheme res" where
  "write_log_one me tail s =
     bind_res (bread s me (log_dev s) (of_int (log_start s + int tail + 1))) (\<lambda>(to, s).
     bind_res (lh_get s tail) (\<lambda>home.
     bind_res (bread s me (log_dev s) home) (\<lambda>(from, s).
       let s = set_data to (buf_data from s) s
       in bind_res (bwrite s me to) (\<lambda>s.
          bind_res (brelse s me from) (\<lambda>s. brelse s me to)))))"

definition write_log :: "'z klog_scheme \<Rightarrow> nat \<Rightarrow> 'z klog_scheme res" where
  "write_log s me = fold_res (write_log_one me) [0..<nat (lh_n (lh s))] s"

definition commit :: "'z klog_scheme \<Rightarrow> nat \<Rightarrow> 'z klog_scheme res" where
  "commit s me =
     (if 0 < lh_n (lh s) then
        bind_res (write_log s me) (\<lambda>s.
        bind_res (write_head s me) (\<lambda>s.
        bind_res (install_trans s me False) (\<lambda>s.
        write_head (clear_lh s) me)))
      else Inr s)"

text \<open>\<open>end_op\<close> up to the release of the log lock, and the whole call.\<close>

definition end_op_enter :: "'z klog_scheme \<Rightarrow> nat \<Rightarrow> (bool \<times> 'z klog_scheme) res" where
  "end_op_enter s me =
     (let s = s\<lparr>outstanding := outstanding s - 1\<rparr>
      in if committing s then Inl (Panic ''log.committing'')
         else if outstanding s = 0 then Inr (True, s\<lparr>committing := True\<rparr>)
         else Inr (False, wakeup s (Some me) ChLog))"

definition end_op :: "'z klog_scheme \<Rightarrow> nat \<Rightarrow> 'z klog_scheme res" where
  "end_op s me =
     bind_res (end_op_enter s me) (\<lambda>(do_commit, s).
       if do_commit then
         bind_res (commit s me) (\<lambda>s. Inr (wakeup (s\<lparr>committing := False\<rparr>) (Some me) ChLog))
       else Inr s)"

definition log_write :: "nat \<Rightarrow> 'z klog_scheme \<Rightarrow> 'z klog_scheme res" where
  "log_write b s =
     (if LOGSIZE \<le> lh_n (lh s) \<or> log_size s - 1 \<le> lh_n (lh s) then Inl (Panic ''too big a transaction'')
      else if outstanding s < 1 then Inl (Panic ''log_write outside of trans'')
      else
        let n = nat (lh_n (lh s));
            blockno = b_blockno (bufs s b);
            i = (case find (\<lambda>i. lh_block (lh s) ! i = blockno) [0..<n] of Some i \<Rightarrow> i | None \<Rightarrow> n)
        in bind_res (lh_set i blockno s) (\<lambda>s.
             Inr (if int i = lh_n (lh s)
                  then (bpin b s)\<lparr>lh := (lh s)\<lparr>lh_n := lh_n (lh s) + 1\<rparr>\<rparr> else s)))"

end
