(* ===== verification/Fs.thy ===== *)
theory Fs
  imports Log Cstring
begin

text \<open>
  The file system, \<open>kernel/fs.c\<close> with the disk format of \<open>kernel/fs.h\<close>: block allocation,
  inodes, file contents, directories and path names. Pointers into the inode table are
  indices, the null pointer is \<open>None\<close>. A process runs these functions alone; sleeping is
  \<open>Blocked\<close>. Blocks are byte lists of \<open>BSIZE\<close> bytes, on which the on-disk structures are
  read and written at their offsets.
\<close>

section \<open>Format\<close>

record superblock =
  sb_magic :: uint
  sb_size :: uint
  sb_nblocks :: uint
  sb_ninodes :: uint
  sb_nlog :: uint
  sb_logstart :: uint
  sb_inodestart :: uint
  sb_bmapstart :: uint

record inode =
  i_dev :: uint
  i_inum :: uint
  i_ref :: int
  i_lock :: sleeplock
  i_valid :: bool
  i_type :: uint16
  i_major :: uint16
  i_minor :: uint16
  i_nlink :: uint16
  i_size :: uint
  i_addrs :: "uint list"

record kfs = klog +
  sb :: superblock
  inodes :: "nat \<Rightarrow> inode"

definition ROOTINO :: uint where "ROOTINO = 1"
definition FSMAGIC :: uint where "FSMAGIC = 0x10203040"
definition NDIRECT :: nat where "NDIRECT = 12"
definition NINDIRECT :: nat where "NINDIRECT = 256"
definition MAXFILE :: nat where "MAXFILE = NDIRECT + NINDIRECT"
definition IPB :: uint where "IPB = 16"
definition BPB :: uint where "BPB = 8192"
definition DIRSIZ :: nat where "DIRSIZ = 14"
definition T_DIR :: uint16 where "T_DIR = 1"
definition T_FILE :: uint16 where "T_FILE = 2"
definition T_DEVICE :: uint16 where "T_DEVICE = 3"
definition DINODE_SIZE :: nat where "DINODE_SIZE = 64"
definition DIRENT_SIZE :: nat where "DIRENT_SIZE = 16"

definition IBLOCK :: "uint \<Rightarrow> superblock \<Rightarrow> uint" where
  "IBLOCK i su = i div IPB + sb_inodestart su"

definition BBLOCK :: "uint \<Rightarrow> superblock \<Rightarrow> uint" where
  "BBLOCK b su = b div BPB + sb_bmapstart su"

definition inode_lock_id :: "nat \<Rightarrow> nat" where
  "inode_lock_id ip = Suc NBUF + ip"

definition inode_upd :: "nat \<Rightarrow> (inode \<Rightarrow> inode) \<Rightarrow> 'z kfs_scheme \<Rightarrow> 'z kfs_scheme" where
  "inode_upd ip f s = s\<lparr>inodes := (inodes s)(ip := f (inodes s ip))\<rparr>"

text \<open>The superblock as it lies in block 1.\<close>

definition decode_sb :: "uint8 list \<Rightarrow> superblock" where
  "decode_sb d = \<lparr>sb_magic = get32 d 0, sb_size = get32 d 4, sb_nblocks = get32 d 8, sb_ninodes = get32 d 12,
     sb_nlog = get32 d 16, sb_logstart = get32 d 20, sb_inodestart = get32 d 24, sb_bmapstart = get32 d 28\<rparr>"

definition dinode_off :: "uint \<Rightarrow> nat" where
  "dinode_off inum = DINODE_SIZE * unat (inum mod IPB)"

text \<open>The on-disk inode at an offset: its fields into the in-memory inode and back.\<close>

definition load_dinode :: "uint8 list \<Rightarrow> nat \<Rightarrow> inode \<Rightarrow> inode" where
  "load_dinode d off ip = ip\<lparr>i_type := get16 d off, i_major := get16 d (off + 2), i_minor := get16 d (off + 4),
     i_nlink := get16 d (off + 6), i_size := get32 d (off + 8),
     i_addrs := map (\<lambda>k. get32 d (off + 12 + 4 * k)) [0..<Suc NDIRECT]\<rparr>"

definition store_dinode :: "uint8 list \<Rightarrow> nat \<Rightarrow> inode \<Rightarrow> uint8 list" where
  "store_dinode d off ip =
     (let d = put16 d off (i_type ip);
          d = put16 d (off + 2) (i_major ip);
          d = put16 d (off + 4) (i_minor ip);
          d = put16 d (off + 6) (i_nlink ip);
          d = put32 d (off + 8) (i_size ip)
      in fold (\<lambda>k d. put32 d (off + 12 + 4 * k) (i_addrs ip ! k)) [0..<Suc NDIRECT] d)"


section \<open>Blocks\<close>

definition readsb :: "'z kfs_scheme \<Rightarrow> nat \<Rightarrow> uint \<Rightarrow> 'z kfs_scheme res" where
  "readsb s me dev =
     bind_res (bread s me dev 1) (\<lambda>(bp, s).
       brelse (s\<lparr>sb := decode_sb (buf_data bp s)\<rparr>) me bp)"

definition fsinit :: "'z kfs_scheme \<Rightarrow> nat \<Rightarrow> uint \<Rightarrow> 'z kfs_scheme res" where
  "fsinit s me dev =
     bind_res (readsb s me dev) (\<lambda>s.
       if sb_magic (sb s) \<noteq> FSMAGIC then Inl (Panic ''invalid file system'')
       else initlog s me dev (sb_logstart (sb s)) (sb_nlog (sb s)))"

definition bzero :: "'z kfs_scheme \<Rightarrow> nat \<Rightarrow> uint \<Rightarrow> uint \<Rightarrow> 'z kfs_scheme res" where
  "bzero s me dev bno =
     bind_res (bread s me dev bno) (\<lambda>(bp, s).
       let s = set_data bp (replicate BSIZE 0) s
       in bind_res (log_write bp s) (\<lambda>s. brelse s me bp))"

definition bit_mask :: "nat \<Rightarrow> uint8" where
  "bit_mask bi = push_bit (bi mod 8) 1"

fun balloc_loop :: "'z kfs_scheme \<Rightarrow> nat \<Rightarrow> uint \<Rightarrow> nat list \<Rightarrow> (uint \<times> 'z kfs_scheme) res" where
  "balloc_loop s me dev [] = Inr (0, kprint ''balloc: out of blocks\<newline>'' s)"
| "balloc_loop s me dev (b # bs) =
     bind_res (bread s me dev (BBLOCK (of_nat b) (sb s))) (\<lambda>(bp, s).
       case find (\<lambda>bi. b + bi < unat (sb_size (sb s)) \<and> buf_data bp s ! (bi div 8) AND bit_mask bi = 0) [0..<unat BPB] of
         Some bi \<Rightarrow>
           let d = buf_data bp s;
               s = set_data bp (d[bi div 8 := d ! (bi div 8) OR bit_mask bi]) s
           in bind_res (log_write bp s) (\<lambda>s.
              bind_res (brelse s me bp) (\<lambda>s.
              bind_res (bzero s me dev (of_nat (b + bi))) (\<lambda>s.
              Inr (of_nat (b + bi), s))))
       | None \<Rightarrow> bind_res (brelse s me bp) (\<lambda>s. balloc_loop s me dev bs))"

definition balloc :: "'z kfs_scheme \<Rightarrow> nat \<Rightarrow> uint \<Rightarrow> (uint \<times> 'z kfs_scheme) res" where
  "balloc s me dev =
     balloc_loop s me dev (map (\<lambda>k. k * unat BPB) [0..<(unat (sb_size (sb s)) + unat BPB - 1) div unat BPB])"

definition bfree :: "'z kfs_scheme \<Rightarrow> nat \<Rightarrow> uint \<Rightarrow> uint \<Rightarrow> 'z kfs_scheme res" where
  "bfree s me dev b =
     bind_res (bread s me dev (BBLOCK b (sb s))) (\<lambda>(bp, s).
       let bi = unat (b mod BPB);
           d = buf_data bp s
       in if d ! (bi div 8) AND bit_mask bi = 0 then Inl (Panic ''freeing free block'')
          else
            let s = set_data bp (d[bi div 8 := d ! (bi div 8) AND NOT (bit_mask bi)]) s
            in bind_res (log_write bp s) (\<lambda>s. brelse s me bp))"


section \<open>Inodes\<close>

definition iinit :: "'z kfs_scheme \<Rightarrow> 'z kfs_scheme" where
  "iinit s = fold (\<lambda>i. inode_upd i (\<lambda>ip. ip\<lparr>i_lock := initsleeplock ''inode''\<rparr>)) [0..<NINODE] s"

definition iget :: "'z kfs_scheme \<Rightarrow> uint \<Rightarrow> uint \<Rightarrow> (nat \<times> 'z kfs_scheme) res" where
  "iget s dev inum =
     (case find (\<lambda>i. 0 < i_ref (inodes s i) \<and> i_dev (inodes s i) = dev \<and> i_inum (inodes s i) = inum) [0..<NINODE] of
        Some i \<Rightarrow> Inr (i, inode_upd i (\<lambda>ip. ip\<lparr>i_ref := i_ref ip + 1\<rparr>) s)
      | None \<Rightarrow>
          (case find (\<lambda>i. i_ref (inodes s i) = 0) [0..<NINODE] of
             None \<Rightarrow> Inl (Panic ''iget: no inodes'')
           | Some i \<Rightarrow> Inr (i, inode_upd i (\<lambda>ip. ip\<lparr>i_dev := dev, i_inum := inum, i_ref := 1, i_valid := False\<rparr>) s)))"

fun ialloc_loop :: "'z kfs_scheme \<Rightarrow> nat \<Rightarrow> uint \<Rightarrow> uint16 \<Rightarrow> nat list \<Rightarrow> (nat option \<times> 'z kfs_scheme) res" where
  "ialloc_loop s me dev type [] = Inr (None, kprint ''ialloc: no inodes\<newline>'' s)"
| "ialloc_loop s me dev type (inum # inums) =
     bind_res (bread s me dev (IBLOCK (of_nat inum) (sb s))) (\<lambda>(bp, s).
       let off = dinode_off (of_nat inum);
           d = buf_data bp s
       in if get16 d off = 0 then
            let d = overwrite d off (replicate DINODE_SIZE 0);
                s = set_data bp (put16 d off type) s
            in bind_res (log_write bp s) (\<lambda>s.
               bind_res (brelse s me bp) (\<lambda>s.
               bind_res (iget s dev (of_nat inum)) (\<lambda>(ip, s). Inr (Some ip, s))))
          else bind_res (brelse s me bp) (\<lambda>s. ialloc_loop s me dev type inums))"

definition ialloc :: "'z kfs_scheme \<Rightarrow> nat \<Rightarrow> uint \<Rightarrow> uint16 \<Rightarrow> (nat option \<times> 'z kfs_scheme) res" where
  "ialloc s me dev type = ialloc_loop s me dev type [1..<unat (sb_ninodes (sb s))]"

definition iupdate :: "'z kfs_scheme \<Rightarrow> nat \<Rightarrow> nat \<Rightarrow> 'z kfs_scheme res" where
  "iupdate s me ip =
     bind_res (bread s me (i_dev (inodes s ip)) (IBLOCK (i_inum (inodes s ip)) (sb s))) (\<lambda>(bp, s).
       let s = set_data bp (store_dinode (buf_data bp s) (dinode_off (i_inum (inodes s ip))) (inodes s ip)) s
       in bind_res (log_write bp s) (\<lambda>s. brelse s me bp))"

definition idup :: "nat \<Rightarrow> 'z kfs_scheme \<Rightarrow> 'z kfs_scheme" where
  "idup ip s = inode_upd ip (\<lambda>x. x\<lparr>i_ref := i_ref x + 1\<rparr>) s"

definition ilock :: "'z kfs_scheme \<Rightarrow> nat \<Rightarrow> nat option \<Rightarrow> 'z kfs_scheme res" where
  "ilock s me p =
     (case p of
        None \<Rightarrow> Inl (Panic ''ilock'')
      | Some ip \<Rightarrow>
          if i_ref (inodes s ip) < 1 then Inl (Panic ''ilock'')
          else
            bind_res (acquiresleep s me (inode_lock_id ip) (i_lock (inodes s ip))) (\<lambda>lk.
              let s = inode_upd ip (\<lambda>x. x\<lparr>i_lock := lk\<rparr>) s
              in if \<not> i_valid (inodes s ip) then
                   bind_res (bread s me (i_dev (inodes s ip)) (IBLOCK (i_inum (inodes s ip)) (sb s))) (\<lambda>(bp, s).
                     let s = inode_upd ip (load_dinode (buf_data bp s) (dinode_off (i_inum (inodes s ip)))) s
                     in bind_res (brelse s me bp) (\<lambda>s.
                          let s = inode_upd ip (\<lambda>x. x\<lparr>i_valid := True\<rparr>) s
                          in if i_type (inodes s ip) = 0 then Inl (Panic ''ilock: no type'') else Inr s))
                 else Inr s))"

definition iunlock :: "'z kfs_scheme \<Rightarrow> nat \<Rightarrow> nat option \<Rightarrow> 'z kfs_scheme res" where
  "iunlock s me p =
     (case p of
        None \<Rightarrow> Inl (Panic ''iunlock'')
      | Some ip \<Rightarrow>
          if \<not> holdingsleep s me (i_lock (inodes s ip)) \<or> i_ref (inodes s ip) < 1 then Inl (Panic ''iunlock'')
          else
            case releasesleep s me (inode_lock_id ip) (i_lock (inodes s ip)) of
              (lk, s) \<Rightarrow> Inr (inode_upd ip (\<lambda>x. x\<lparr>i_lock := lk\<rparr>) s))"

text \<open>\<open>itrunc\<close> frees the direct blocks, the blocks named in the indirect block, and that block.\<close>

definition itrunc_direct :: "nat \<Rightarrow> nat \<Rightarrow> nat \<Rightarrow> 'z kfs_scheme \<Rightarrow> 'z kfs_scheme res" where
  "itrunc_direct me ip i s =
     (if i_addrs (inodes s ip) ! i \<noteq> 0 then
        bind_res (bfree s me (i_dev (inodes s ip)) (i_addrs (inodes s ip) ! i)) (\<lambda>s.
          Inr (inode_upd ip (\<lambda>x. x\<lparr>i_addrs := (i_addrs x)[i := 0]\<rparr>) s))
      else Inr s)"

definition itrunc :: "'z kfs_scheme \<Rightarrow> nat \<Rightarrow> nat \<Rightarrow> 'z kfs_scheme res" where
  "itrunc s me ip =
     bind_res (fold_res (itrunc_direct me ip) [0..<NDIRECT] s) (\<lambda>s.
     bind_res
       (if i_addrs (inodes s ip) ! NDIRECT \<noteq> 0 then
          bind_res (bread s me (i_dev (inodes s ip)) (i_addrs (inodes s ip) ! NDIRECT)) (\<lambda>(bp, s).
          bind_res (fold_res (\<lambda>j s.
              let a = get32 (buf_data bp s) (4 * j)
              in if a \<noteq> 0 then bfree s me (i_dev (inodes s ip)) a else Inr s) [0..<NINDIRECT] s) (\<lambda>s.
          bind_res (brelse s me bp) (\<lambda>s.
          bind_res (bfree s me (i_dev (inodes s ip)) (i_addrs (inodes s ip) ! NDIRECT)) (\<lambda>s.
          Inr (inode_upd ip (\<lambda>x. x\<lparr>i_addrs := (i_addrs x)[NDIRECT := 0]\<rparr>) s)))))
        else Inr s) (\<lambda>s.
     iupdate (inode_upd ip (\<lambda>x. x\<lparr>i_size := 0\<rparr>) s) me ip))"

definition iput :: "'z kfs_scheme \<Rightarrow> nat \<Rightarrow> nat \<Rightarrow> 'z kfs_scheme res" where
  "iput s me ip =
     bind_res
       (if i_ref (inodes s ip) = 1 \<and> i_valid (inodes s ip) \<and> i_nlink (inodes s ip) = 0 then
          bind_res (acquiresleep s me (inode_lock_id ip) (i_lock (inodes s ip))) (\<lambda>lk.
          bind_res (itrunc (inode_upd ip (\<lambda>x. x\<lparr>i_lock := lk\<rparr>) s) me ip) (\<lambda>s.
          bind_res (iupdate (inode_upd ip (\<lambda>x. x\<lparr>i_type := 0\<rparr>) s) me ip) (\<lambda>s.
          let s = inode_upd ip (\<lambda>x. x\<lparr>i_valid := False\<rparr>) s
          in case releasesleep s me (inode_lock_id ip) (i_lock (inodes s ip)) of
               (lk, s) \<Rightarrow> Inr (inode_upd ip (\<lambda>x. x\<lparr>i_lock := lk\<rparr>) s))))
        else Inr s) (\<lambda>s.
     Inr (inode_upd ip (\<lambda>x. x\<lparr>i_ref := i_ref x - 1\<rparr>) s))"

definition iunlockput :: "'z kfs_scheme \<Rightarrow> nat \<Rightarrow> nat \<Rightarrow> 'z kfs_scheme res" where
  "iunlockput s me ip = bind_res (iunlock s me (Some ip)) (\<lambda>s. iput s me ip)"


section \<open>Contents\<close>

definition bmap :: "'z kfs_scheme \<Rightarrow> nat \<Rightarrow> nat \<Rightarrow> uint \<Rightarrow> (uint \<times> 'z kfs_scheme) res" where
  "bmap s me ip bn =
     (if unat bn < NDIRECT then
        let addr = i_addrs (inodes s ip) ! unat bn
        in if addr = 0 then
             bind_res (balloc s me (i_dev (inodes s ip))) (\<lambda>(addr, s).
               if addr = 0 then Inr (0, s)
               else Inr (addr, inode_upd ip (\<lambda>x. x\<lparr>i_addrs := (i_addrs x)[unat bn := addr]\<rparr>) s))
           else Inr (addr, s)
      else
        let bn = bn - of_nat NDIRECT
        in if unat bn < NINDIRECT then
             let addr = i_addrs (inodes s ip) ! NDIRECT
             in bind_res
                  (if addr = 0 then
                     bind_res (balloc s me (i_dev (inodes s ip))) (\<lambda>(addr, s).
                       if addr = 0 then Inr (0, s)
                       else Inr (addr, inode_upd ip (\<lambda>x. x\<lparr>i_addrs := (i_addrs x)[NDIRECT := addr]\<rparr>) s))
                   else Inr (addr, s)) (\<lambda>(addr, s).
                  if addr = 0 then Inr (0, s)
                  else
                    bind_res (bread s me (i_dev (inodes s ip)) addr) (\<lambda>(bp, s).
                      let addr = get32 (buf_data bp s) (4 * unat bn)
                      in bind_res
                           (if addr = 0 then
                              bind_res (balloc s me (i_dev (inodes s ip))) (\<lambda>(addr, s).
                                if addr \<noteq> 0 then
                                  bind_res (log_write bp (set_data bp (put32 (buf_data bp s) (4 * unat bn) addr) s)) (\<lambda>s.
                                    Inr (addr, s))
                                else Inr (addr, s))
                            else Inr (addr, s)) (\<lambda>(addr, s).
                           bind_res (brelse s me bp) (\<lambda>s. Inr (addr, s)))))
           else Inl (Panic ''bmap: out of range''))"

record stat =
  st_dev :: uint
  st_ino :: uint
  st_type :: uint16
  st_nlink :: uint16
  st_size :: uint64

definition stati :: "'z kfs_scheme \<Rightarrow> nat \<Rightarrow> stat" where
  "stati s ip =
     (let x = inodes s ip
      in \<lparr>st_dev = i_dev x, st_ino = i_inum x, st_type = i_type x, st_nlink = i_nlink x, st_size = ucast (i_size x)\<rparr>)"

text \<open>
  Where \<open>readi\<close> puts the bytes: a user address, a physical address, or a local variable of the
  kernel function that calls it, whose new contents are the returned byte list.
\<close>

datatype dst = UserDst uint64 | KernelDst uint64 | LocalDst

definition dst_copy :: "'z kfs_scheme \<Rightarrow> nat \<Rightarrow> dst \<Rightarrow> uint \<Rightarrow> uint8 list \<Rightarrow> (int \<times> 'z kfs_scheme) res" where
  "dst_copy s me d tot bytes =
     (case d of
        UserDst a \<Rightarrow> either_copyout s me True (a + ucast tot) bytes
      | KernelDst a \<Rightarrow> either_copyout s me False (a + ucast tot) bytes
      | LocalDst \<Rightarrow> Inr (0, s))"

primrec readi_loop :: "nat \<Rightarrow> 'z kfs_scheme \<Rightarrow> nat \<Rightarrow> nat \<Rightarrow> dst \<Rightarrow> uint \<Rightarrow> uint \<Rightarrow> uint \<Rightarrow> uint8 list \<Rightarrow>
    (int \<times> uint8 list \<times> 'z kfs_scheme) res" where
  "readi_loop 0 s me ip d off n tot acc = Inl OutOfFuel"
| "readi_loop (Suc fuel) s me ip d off n tot acc =
     (if tot < n then
        bind_res (bmap s me ip (off div of_nat BSIZE)) (\<lambda>(addr, s).
          if addr = 0 then Inr (sint tot, acc, s)
          else
            bind_res (bread s me (i_dev (inodes s ip)) addr) (\<lambda>(bp, s).
              let m = min (n - tot) (of_nat BSIZE - off mod of_nat BSIZE);
                  bytes = slice (buf_data bp s) (unat (off mod of_nat BSIZE)) (unat m)
              in bind_res (dst_copy s me d tot bytes) (\<lambda>(r, s).
                   bind_res (brelse s me bp) (\<lambda>s.
                     if r = -1 then Inr (-1, acc, s)
                     else readi_loop fuel s me ip d (off + m) n (tot + m) (acc @ bytes)))))
      else Inr (sint tot, acc, s))"

definition readi :: "'z kfs_scheme \<Rightarrow> nat \<Rightarrow> nat \<Rightarrow> dst \<Rightarrow> uint \<Rightarrow> uint \<Rightarrow>
    (int \<times> uint8 list \<times> 'z kfs_scheme) res" where
  "readi s me ip d off n =
     (if i_size (inodes s ip) < off \<or> off + n < off then Inr (0, [], s)
      else
        let n = (if i_size (inodes s ip) < off + n then i_size (inodes s ip) - off else n)
        in readi_loop (Suc (unat n)) s me ip d off n 0 [])"

text \<open>Where \<open>writei\<close> takes the bytes from; a failed \<open>copyin\<close> has copied some of them.\<close>

datatype src = UserSrc uint64 | KernelSrc uint64 | LocalSrc "uint8 list"

definition src_copy :: "'z kfs_scheme \<Rightarrow> nat \<Rightarrow> src \<Rightarrow> uint \<Rightarrow> nat \<Rightarrow> (int \<times> uint8 list) res" where
  "src_copy s me r tot m =
     (case r of
        UserSrc a \<Rightarrow> either_copyin s me True (a + ucast tot) m
      | KernelSrc a \<Rightarrow> either_copyin s me False (a + ucast tot) m
      | LocalSrc bs \<Rightarrow> Inr (0, slice bs (unat tot) m))"

primrec writei_loop :: "nat \<Rightarrow> 'z kfs_scheme \<Rightarrow> nat \<Rightarrow> nat \<Rightarrow> src \<Rightarrow> uint \<Rightarrow> uint \<Rightarrow> uint \<Rightarrow>
    (uint \<times> uint \<times> 'z kfs_scheme) res" where
  "writei_loop 0 s me ip r off n tot = Inl OutOfFuel"
| "writei_loop (Suc fuel) s me ip r off n tot =
     (if tot < n then
        bind_res (bmap s me ip (off div of_nat BSIZE)) (\<lambda>(addr, s).
          if addr = 0 then Inr (tot, off, s)
          else
            bind_res (bread s me (i_dev (inodes s ip)) addr) (\<lambda>(bp, s).
              let m = min (n - tot) (of_nat BSIZE - off mod of_nat BSIZE)
              in bind_res (src_copy s me r tot (unat m)) (\<lambda>(c, bytes).
                   let s = set_data bp (overwrite (buf_data bp s) (unat (off mod of_nat BSIZE)) bytes) s
                   in if c = -1 then bind_res (brelse s me bp) (\<lambda>s. Inr (tot, off, s))
                      else
                        bind_res (log_write bp s) (\<lambda>s.
                        bind_res (brelse s me bp) (\<lambda>s.
                        writei_loop fuel s me ip r (off + m) n (tot + m))))))
      else Inr (tot, off, s))"

definition writei :: "'z kfs_scheme \<Rightarrow> nat \<Rightarrow> nat \<Rightarrow> src \<Rightarrow> uint \<Rightarrow> uint \<Rightarrow> (int \<times> 'z kfs_scheme) res" where
  "writei s me ip r off n =
     (if i_size (inodes s ip) < off \<or> off + n < off then Inr (-1, s)
      else if MAXFILE * BSIZE < unat (off + n) then Inr (-1, s)
      else
        bind_res (writei_loop (Suc (unat n)) s me ip r off n 0) (\<lambda>(tot, off, s).
          let s = (if i_size (inodes s ip) < off then inode_upd ip (\<lambda>x. x\<lparr>i_size := off\<rparr>) s else s)
          in bind_res (iupdate s me ip) (\<lambda>s. Inr (sint tot, s))))"


section \<open>Directories and paths\<close>

definition namecmp :: "uint8 list \<Rightarrow> uint8 list \<Rightarrow> int res" where
  "namecmp s t = strncmp s t DIRSIZ"

text \<open>The loop of \<open>dirlookup\<close> over the entry offsets; \<open>0 < sizeof(de)\<close> bounds it by the size.\<close>

primrec dirlookup_loop :: "nat \<Rightarrow> 'z kfs_scheme \<Rightarrow> nat \<Rightarrow> nat \<Rightarrow> uint8 list \<Rightarrow> uint \<Rightarrow>
    ((uint \<times> nat) option \<times> 'z kfs_scheme) res" where
  "dirlookup_loop 0 s me dp name off = Inl OutOfFuel"
| "dirlookup_loop (Suc fuel) s me dp name off =
     (if off < i_size (inodes s dp) then
        bind_res (readi s me dp LocalDst off (of_nat DIRENT_SIZE)) (\<lambda>(r, de, s).
          if r \<noteq> int DIRENT_SIZE then Inl (Panic ''dirlookup read'')
          else if get16 de 0 = 0 then dirlookup_loop fuel s me dp name (off + of_nat DIRENT_SIZE)
          else
            bind_res (namecmp name (drop 2 de)) (\<lambda>c.
              if c = 0 then
                bind_res (iget s (i_dev (inodes s dp)) (ucast (get16 de 0))) (\<lambda>(ip, s). Inr (Some (off, ip), s))
              else dirlookup_loop fuel s me dp name (off + of_nat DIRENT_SIZE)))
      else Inr (None, s))"

definition dirlookup :: "'z kfs_scheme \<Rightarrow> nat \<Rightarrow> nat \<Rightarrow> uint8 list \<Rightarrow> ((uint \<times> nat) option \<times> 'z kfs_scheme) res" where
  "dirlookup s me dp name =
     (if i_type (inodes s dp) \<noteq> T_DIR then Inl (Panic ''dirlookup not DIR'')
      else dirlookup_loop (Suc (unat (i_size (inodes s dp)))) s me dp name 0)"

primrec dirlink_slot :: "nat \<Rightarrow> 'z kfs_scheme \<Rightarrow> nat \<Rightarrow> nat \<Rightarrow> uint \<Rightarrow> (uint \<times> 'z kfs_scheme) res" where
  "dirlink_slot 0 s me dp off = Inl OutOfFuel"
| "dirlink_slot (Suc fuel) s me dp off =
     (if off < i_size (inodes s dp) then
        bind_res (readi s me dp LocalDst off (of_nat DIRENT_SIZE)) (\<lambda>(r, de, s).
          if r \<noteq> int DIRENT_SIZE then Inl (Panic ''dirlink read'')
          else if get16 de 0 = 0 then Inr (off, s)
          else dirlink_slot fuel s me dp (off + of_nat DIRENT_SIZE))
      else Inr (off, s))"

definition dirlink :: "'z kfs_scheme \<Rightarrow> nat \<Rightarrow> nat \<Rightarrow> uint8 list \<Rightarrow> uint \<Rightarrow> (int \<times> 'z kfs_scheme) res" where
  "dirlink s me dp name inum =
     bind_res (dirlookup s me dp name) (\<lambda>(r, s).
       case r of
         Some (off, ip) \<Rightarrow> bind_res (iput s me ip) (\<lambda>s. Inr (-1, s))
       | None \<Rightarrow>
           bind_res (dirlink_slot (Suc (unat (i_size (inodes s dp)))) s me dp 0) (\<lambda>(off, s).
           bind_res (strncpy name DIRSIZ) (\<lambda>nm.
             let de = le_of_nat 2 (unat (ucast inum :: uint16)) @ nm
             in bind_res (writei s me dp (LocalSrc de) off (of_nat DIRENT_SIZE)) (\<lambda>(r, s).
                  Inr (if r \<noteq> int DIRENT_SIZE then -1 else 0, s)))))"

text \<open>
  \<open>skipelem\<close> on the bytes of the path, the terminating 0 included: the element and the rest of the
  path, or \<open>None\<close>. The element is what a reader of \<open>name\<close> sees: at most \<open>DIRSIZ\<close> bytes, with a 0 after
  a shorter one.
\<close>

definition SLASH :: uint8 where "SLASH = 47"

definition skipelem :: "uint8 list \<Rightarrow> (uint8 list \<times> uint8 list) option" where
  "skipelem path =
     (let path = dropWhile (\<lambda>c. c = SLASH) path
      in if path = [] \<or> hd path = 0 then None
         else
           let elem = takeWhile (\<lambda>c. c \<noteq> SLASH \<and> c \<noteq> 0) path;
               rest = dropWhile (\<lambda>c. c \<noteq> SLASH \<and> c \<noteq> 0) path;
               name = (if DIRSIZ \<le> length elem then take DIRSIZ elem else elem @ [0])
           in Some (name, dropWhile (\<lambda>c. c = SLASH) rest))"

primrec namex_loop :: "nat \<Rightarrow> 'z kfs_scheme \<Rightarrow> nat \<Rightarrow> nat \<Rightarrow> uint8 list \<Rightarrow> bool \<Rightarrow> uint8 list \<Rightarrow>
    (nat option \<times> uint8 list \<times> 'z kfs_scheme) res" where
  "namex_loop 0 s me ip path nameiparent name = Inl OutOfFuel"
| "namex_loop (Suc fuel) s me ip path nameiparent name =
     (case skipelem path of
        None \<Rightarrow>
          if nameiparent then bind_res (iput s me ip) (\<lambda>s. Inr (None, name, s))
          else Inr (Some ip, name, s)
      | Some (name, path) \<Rightarrow>
          bind_res (ilock s me (Some ip)) (\<lambda>s.
            if i_type (inodes s ip) \<noteq> T_DIR then bind_res (iunlockput s me ip) (\<lambda>s. Inr (None, name, s))
            else if nameiparent \<and> path \<noteq> [] \<and> hd path = 0 then
              bind_res (iunlock s me (Some ip)) (\<lambda>s. Inr (Some ip, name, s))
            else
              bind_res (dirlookup s me ip name) (\<lambda>(r, s).
                case r of
                  None \<Rightarrow> bind_res (iunlockput s me ip) (\<lambda>s. Inr (None, name, s))
                | Some (off, next) \<Rightarrow>
                    bind_res (iunlockput s me ip) (\<lambda>s.
                      namex_loop fuel s me next path nameiparent name))))"

definition namex :: "'z kfs_scheme \<Rightarrow> nat \<Rightarrow> uint8 list \<Rightarrow> bool \<Rightarrow> (nat option \<times> uint8 list \<times> 'z kfs_scheme) res" where
  "namex s me path nameiparent =
     bind_res
       (if path \<noteq> [] \<and> hd path = SLASH then iget s ROOTDEV ROOTINO
        else case p_cwd (procs s me) of
               None \<Rightarrow> Inl NullDeref
             | Some ip \<Rightarrow> Inr (ip, idup ip s)) (\<lambda>(ip, s).
     namex_loop (Suc (length path)) s me ip path nameiparent [])"

definition namei :: "'z kfs_scheme \<Rightarrow> nat \<Rightarrow> uint8 list \<Rightarrow> (nat option \<times> 'z kfs_scheme) res" where
  "namei s me path = bind_res (namex s me path False) (\<lambda>(ip, name, s). Inr (ip, s))"

definition nameiparent :: "'z kfs_scheme \<Rightarrow> nat \<Rightarrow> uint8 list \<Rightarrow> (nat option \<times> uint8 list \<times> 'z kfs_scheme) res" where
  "nameiparent s me path = namex s me path True"

end
