(* ===== verification/Console.thy ===== *)
theory Console
  imports Fs
begin

text \<open>
  The console, \<open>kernel/console.c\<close>, and the UART driver below it, \<open>kernel/uart.c\<close>. Bytes
  written to the transmit register go to the machine's output stream \<open>console\<close>. The device
  is a parameter of the state: \<open>uart_rx\<close> holds the received bytes not yet read and \<open>uart_room\<close>
  the number of bytes the transmit register takes before it reports full. A call that may
  sleep is one run up to the sleep, with the arguments to go on with.
\<close>

text \<open>The result of a run: finished with a value, or waiting, to be entered again.\<close>

datatype ('a, 'b) progress = Done 'a | Waits 'b

definition INPUT_BUF_SIZE :: nat where "INPUT_BUF_SIZE = 128"
definition UART_TX_BUF_SIZE :: nat where "UART_TX_BUF_SIZE = 32"

record kcons = kfs +
  cons_buf :: "nat \<Rightarrow> uint8"
  cons_r :: uint
  cons_w :: uint
  cons_e :: uint
  uart_tx_buf :: "nat \<Rightarrow> uint8"
  uart_tx_w :: uint64
  uart_tx_r :: uint64
  uart_rx :: "uint8 list"
  uart_room :: nat


section \<open>UART\<close>

definition emit :: "uint8 \<Rightarrow> 'z kmem_scheme \<Rightarrow> 'z kmem_scheme" where
  "emit c s = kprint [char_of (unat c)] s"

text \<open>\<open>uartputc_sync\<close> waits for the device and sends.\<close>

definition uartputc_sync :: "uint8 \<Rightarrow> 'z kmem_scheme \<Rightarrow> 'z kmem_scheme" where
  "uartputc_sync c s = emit c s"

primrec uartstart_loop :: "nat \<Rightarrow> nat option \<Rightarrow> 'z kcons_scheme \<Rightarrow> 'z kcons_scheme" where
  "uartstart_loop 0 me s = s"
| "uartstart_loop (Suc room) me s =
     (if uart_tx_w s = uart_tx_r s then s
      else
        let c = uart_tx_buf s (unat (uart_tx_r s) mod UART_TX_BUF_SIZE);
            s = s\<lparr>uart_tx_r := uart_tx_r s + 1\<rparr>;
            s = wakeup s me ChUart;
            s = emit c (s\<lparr>uart_room := room\<rparr>)
        in uartstart_loop room me s)"

definition uartstart :: "nat option \<Rightarrow> 'z kcons_scheme \<Rightarrow> 'z kcons_scheme" where
  "uartstart me s = uartstart_loop (uart_room s) me s"

definition uartputc_step :: "'z kcons_scheme \<Rightarrow> nat \<Rightarrow> uint8 \<Rightarrow> unit outcome \<times> 'z kcons_scheme" where
  "uartputc_step s me c =
     (if uart_tx_w s = uart_tx_r s + of_nat UART_TX_BUF_SIZE then (Sleeps, sleep_begin s me ChUart)
      else
        let s = s\<lparr>uart_tx_buf := (uart_tx_buf s)(unat (uart_tx_w s) mod UART_TX_BUF_SIZE := c)\<rparr>;
            s = s\<lparr>uart_tx_w := uart_tx_w s + 1\<rparr>
        in (Return (), uartstart (Some me) s))"

definition uartgetc :: "'z kcons_scheme \<Rightarrow> int \<times> 'z kcons_scheme" where
  "uartgetc s =
     (case uart_rx s of
        [] \<Rightarrow> (-1, s)
      | c # cs \<Rightarrow> (uint c, s\<lparr>uart_rx := cs\<rparr>))"


section \<open>Console\<close>

definition BACKSPACE :: int where "BACKSPACE = 0x100"

definition consputc :: "int \<Rightarrow> 'z kmem_scheme \<Rightarrow> 'z kmem_scheme" where
  "consputc c s =
     (if c = BACKSPACE then uartputc_sync 8 (uartputc_sync 32 (uartputc_sync 8 s))
      else uartputc_sync (of_int c) s)"

text \<open>\<open>consolewrite\<close> from position \<open>i\<close> on; it waits at the position it has reached.\<close>

primrec consolewrite_loop :: "nat \<Rightarrow> 'z kcons_scheme \<Rightarrow> nat \<Rightarrow> bool \<Rightarrow> uint64 \<Rightarrow> int \<Rightarrow> int \<Rightarrow>
    ((int, int) progress \<times> 'z kcons_scheme) res" where
  "consolewrite_loop 0 s me user_src src n i = Inl OutOfFuel"
| "consolewrite_loop (Suc fuel) s me user_src src n i =
     (if i < n then
        bind_res (either_copyin s me user_src (src + of_int i) 1) (\<lambda>(r, bs).
          if r = -1 then Inr (Done i, s)
          else
            case uartputc_step s me (hd bs) of
              (Sleeps, s) \<Rightarrow> Inr (Waits i, s)
            | (Return _, s) \<Rightarrow> consolewrite_loop fuel s me user_src src n (i + 1))
      else Inr (Done i, s))"

definition consolewrite :: "'z kcons_scheme \<Rightarrow> nat \<Rightarrow> bool \<Rightarrow> uint64 \<Rightarrow> int \<Rightarrow> int \<Rightarrow>
    ((int, int) progress \<times> 'z kcons_scheme) res" where
  "consolewrite s me user_src src n i = consolewrite_loop (Suc (nat (n - i))) s me user_src src n i"

definition ctrl :: "char \<Rightarrow> int" where
  "ctrl c = int (of_char c) - int (of_char (CHR ''@''))"

text \<open>\<open>consoleread\<close> with \<open>n\<close> bytes to go of \<open>target\<close>.\<close>

primrec consoleread_loop :: "nat \<Rightarrow> 'z kcons_scheme \<Rightarrow> nat \<Rightarrow> bool \<Rightarrow> int \<Rightarrow> uint64 \<Rightarrow> int \<Rightarrow>
    ((int, uint64 \<times> int) progress \<times> 'z kcons_scheme) res" where
  "consoleread_loop 0 s me user_dst target dst n = Inl OutOfFuel"
| "consoleread_loop (Suc fuel) s me user_dst target dst n =
     (if 0 < n then
        if cons_r s = cons_w s then
          if killed s me then Inr (Done (-1), s)
          else Inr (Waits (dst, n), sleep_begin s me ChCons)
        else
          let c = cons_buf s (unat (cons_r s) mod INPUT_BUF_SIZE);
              s = s\<lparr>cons_r := cons_r s + 1\<rparr>
          in if uint c = ctrl (CHR ''D'') then
               Inr (Done (target - n), if n < target then s\<lparr>cons_r := cons_r s - 1\<rparr> else s)
             else
               bind_res (either_copyout s me user_dst dst [c]) (\<lambda>(r, s).
                 if r = -1 then Inr (Done (target - n), s)
                 else if c = 10 then Inr (Done (target - (n - 1)), s)
                 else consoleread_loop fuel s me user_dst target (dst + 1) (n - 1))
      else Inr (Done (target - n), s))"

definition consoleread :: "'z kcons_scheme \<Rightarrow> nat \<Rightarrow> bool \<Rightarrow> int \<Rightarrow> uint64 \<Rightarrow> int \<Rightarrow>
    ((int, uint64 \<times> int) progress \<times> 'z kcons_scheme) res" where
  "consoleread s me user_dst target dst n = consoleread_loop (Suc (nat n)) s me user_dst target dst n"

text \<open>The erase loop of Control-U: at most the \<open>INPUT_BUF_SIZE\<close> bytes of the line being edited.\<close>

primrec kill_line :: "nat \<Rightarrow> 'z kcons_scheme \<Rightarrow> 'z kcons_scheme res" where
  "kill_line 0 s = Inl OutOfFuel"
| "kill_line (Suc fuel) s =
     (if cons_e s \<noteq> cons_w s \<and> cons_buf s (unat (cons_e s - 1) mod INPUT_BUF_SIZE) \<noteq> 10
      then kill_line fuel (consputc BACKSPACE (s\<lparr>cons_e := cons_e s - 1\<rparr>))
      else Inr s)"

definition consoleintr :: "'z kcons_scheme \<Rightarrow> nat option \<Rightarrow> int \<Rightarrow> 'z kcons_scheme res" where
  "consoleintr s me c =
     (if c = ctrl (CHR ''P'') then procdump s
      else if c = ctrl (CHR ''U'') then kill_line (Suc INPUT_BUF_SIZE) s
      else if c = ctrl (CHR ''H'') \<or> c = 0x7f then
        Inr (if cons_e s \<noteq> cons_w s then consputc BACKSPACE (s\<lparr>cons_e := cons_e s - 1\<rparr>) else s)
      else if c \<noteq> 0 \<and> unat (cons_e s - cons_r s) < INPUT_BUF_SIZE then
        let c = (if c = 13 then 10 else c);
            s = consputc c s;
            s = s\<lparr>cons_buf := (cons_buf s)(unat (cons_e s) mod INPUT_BUF_SIZE := of_int c)\<rparr>;
            s = s\<lparr>cons_e := cons_e s + 1\<rparr>
        in Inr (if c = 10 \<or> c = ctrl (CHR ''D'') \<or> unat (cons_e s - cons_r s) = INPUT_BUF_SIZE
                then wakeup (s\<lparr>cons_w := cons_e s\<rparr>) me ChCons else s)
      else Inr s)"

text \<open>The interrupt handler reads all received bytes, then sends what waits.\<close>

primrec uartintr_loop :: "nat \<Rightarrow> 'z kcons_scheme \<Rightarrow> nat option \<Rightarrow> 'z kcons_scheme res" where
  "uartintr_loop 0 s me = Inl OutOfFuel"
| "uartintr_loop (Suc fuel) s me =
     (case uartgetc s of
        (c, s) \<Rightarrow> if c = -1 then Inr s else bind_res (consoleintr s me c) (\<lambda>s. uartintr_loop fuel s me))"

definition uartintr :: "'z kcons_scheme \<Rightarrow> nat option \<Rightarrow> 'z kcons_scheme res" where
  "uartintr s me =
     bind_res (uartintr_loop (Suc (length (uart_rx s))) s me) (\<lambda>s. Inr (uartstart me s))"

end
