(* ===== verification/Fifo.thy ===== *)
theory Fifo
  imports Prelude
begin

text \<open>
  Ring buffers with free-running read and write counters, as the pipe and the UART driver
  have them, and the contract of a bounded queue they satisfy.
\<close>

section \<open>Rings\<close>

text \<open>The bytes between the counters, oldest first.\<close>

definition ring_contents :: "nat \<Rightarrow> (nat \<Rightarrow> 'a) \<Rightarrow> 'l::len word \<Rightarrow> 'l word \<Rightarrow> 'a list" where
  "ring_contents n d r w = map (\<lambda>k. d ((unat r + k) mod n)) [0..<unat (w - r)]"

lemma length_ring_contents [simp]: "length (ring_contents n d r w) = unat (w - r)"
  by (simp add: ring_contents_def)

lemma unat_add_mod:
  fixes x y :: "'l::len word"
  assumes "n dvd 2 ^ LENGTH('l)"
  shows "unat (x + y) mod n = (unat x + unat y) mod n"
  using assms by (simp add: unat_word_ariths mod_mod_cancel)

lemma ring_contents_put:
  fixes r w :: "'l::len word"
  assumes n: "n dvd 2 ^ LENGTH('l)" "n < 2 ^ LENGTH('l)" and room: "unat (w - r) < n"
  shows "ring_contents n (d(unat w mod n := c)) r (w + 1) = ring_contents n d r w @ [c]"
    and "unat (w + 1 - r) = Suc (unat (w - r))"
proof -
  let ?k = "unat (w - r)"
  have "w + 1 - r = w - r + 1" by simp
  moreover have "unat (w - r + 1) = Suc ?k"
    using room n(2) by (simp add: unat_word_ariths(1))
  ultimately show len: "unat (w + 1 - r) = Suc ?k" by (simp only:)
  have w: "unat w mod n = (unat r + ?k) mod n" using unat_add_mod [OF n(1), of r "w - r"] by simp
  have "(unat r + k) mod n \<noteq> (unat r + ?k) mod n" if "k < ?k" for k
  proof
    assume eq: "(unat r + k) mod n = (unat r + ?k) mod n"
    have le: "unat r + k \<le> unat r + ?k" using that by simp
    from eq [symmetric] have "n dvd (unat r + ?k) - (unat r + k)" by (simp only: mod_eq_dvd_iff_nat [OF le])
    then have "n \<le> ?k - k" using that by (intro dvd_imp_le) auto
    then show False using room by linarith
  qed
  then show "ring_contents n (d(unat w mod n := c)) r (w + 1) = ring_contents n d r w @ [c]"
    unfolding ring_contents_def len by (simp add: w)
qed

lemma ring_contents_get:
  fixes r w :: "'l::len word"
  assumes n: "n dvd 2 ^ LENGTH('l)" and some: "r \<noteq> w"
  shows "ring_contents n d r w = d (unat r mod n) # ring_contents n d (r + 1) w"
    and "unat (w - (r + 1)) = unat (w - r) - 1"
proof -
  have pos: "0 < unat (w - r)" using some by (simp add: unat_gt_0)
  have "w - (r + 1) = w - r - 1" by simp
  then show len: "unat (w - (r + 1)) = unat (w - r) - 1"
    using pos unat_minus_one [of "w - r"] by (metis unat_gt_0 diff_diff_add)
  have "d ((unat (r + 1) + k) mod n) = d ((unat r + Suc k) mod n)" for k
    using unat_add_mod [OF n, of r "1"] by (metis Suc_eq_plus1_left add.assoc mod_add_left_eq unat_1)
  moreover have "[0..<unat (w - r)] = 0 # map Suc [0..<unat (w - r) - 1]"
    using pos by (simp add: upt_conv_Cons map_Suc_upt)
  ultimately show "ring_contents n d r w = d (unat r mod n) # ring_contents n d (r + 1) w"
    unfolding ring_contents_def len by (simp add: comp_def)
qed


section \<open>The queue contract\<close>

text \<open>A client's sequence of attempts; an attempt to put into a full queue or to get from an empty one has no effect.\<close>

datatype 'a attempt = Put 'a | Get

fun fifo_run :: "('a \<Rightarrow> 's \<Rightarrow> 's) \<Rightarrow> ('s \<Rightarrow> 'a \<times> 's) \<Rightarrow> ('s \<Rightarrow> bool) \<Rightarrow> ('s \<Rightarrow> bool) \<Rightarrow> 'a attempt list \<Rightarrow> 's \<Rightarrow>
    'a list \<times> 'a list \<times> 's" where
  "fifo_run put get full isempty [] q = ([], [], q)"
| "fifo_run put get full isempty (Put x # ops) q =
     (if full q then fifo_run put get full isempty ops q
      else case fifo_run put get full isempty ops (put x q) of (ins, outs, q') \<Rightarrow> (x # ins, outs, q'))"
| "fifo_run put get full isempty (Get # ops) q =
     (if isempty q then fifo_run put get full isempty ops q
      else case get q of (x, q1) \<Rightarrow>
             (case fifo_run put get full isempty ops q1 of (ins, outs, q') \<Rightarrow> (ins, x # outs, q')))"

locale bounded_queue =
  fixes put :: "'a \<Rightarrow> 's \<Rightarrow> 's"
    and get :: "'s \<Rightarrow> 'a \<times> 's"
    and full :: "'s \<Rightarrow> bool"
    and isempty :: "'s \<Rightarrow> bool"
    and contents :: "'s \<Rightarrow> 'a list"
    and ok :: "'s \<Rightarrow> bool"
  assumes put_ok: "ok q \<Longrightarrow> \<not> full q \<Longrightarrow> ok (put x q) \<and> contents (put x q) = contents q @ [x]"
    and get_ok: "ok q \<Longrightarrow> \<not> isempty q \<Longrightarrow> ok (snd (get q)) \<and> contents q = fst (get q) # contents (snd (get q))"
    and empty_ok: "ok q \<Longrightarrow> isempty q \<longleftrightarrow> contents q = []"
begin

lemma in_order:
  assumes "ok q" "fifo_run put get full isempty ops q = (ins, outs, q')"
  shows "ok q' \<and> outs @ contents q' = contents q @ ins"
  using assms
proof (induction ops arbitrary: q ins outs)
  case (Cons op ops)
  show ?case
  proof (cases op)
    case (Put x)
    then show ?thesis using Cons put_ok [OF Cons.prems(1), of x] by (auto split: if_splits prod.splits)
  next
    case Get
    then show ?thesis using Cons get_ok [OF Cons.prems(1)] by (fastforce split: if_splits prod.splits)
  qed
qed simp

end

end
