(* ===== verification/Pipe.thy ===== *)
theory Pipe
  imports Console Fifo
begin

text \<open>
  Pipes, \<open>kernel/pipe.c\<close>, and the file table's data of \<open>kernel/file.h\<close>. A pipe is an object
  named by the address of the page it was allocated in. A reader or writer runs until it
  returns or waits; \<open>pipewrite\<close> then goes on at the position it has reached.
\<close>

section \<open>State\<close>

datatype fdtype = FD_NONE | FD_PIPE | FD_INODE | FD_DEVICE

record file_t =
  f_type :: fdtype
  f_ref :: int
  f_readable :: bool
  f_writable :: bool
  f_pipe :: uint64
  f_ip :: "nat option"
  f_off :: uint
  f_major :: uint16

record pipe =
  pi_data :: "nat \<Rightarrow> uint8"
  pi_nread :: uint
  pi_nwrite :: uint
  pi_readopen :: bool
  pi_writeopen :: bool

text \<open>\<open>devsw d\<close>: the device has the console's functions.\<close>

record kfile = kcons +
  ftable :: "nat \<Rightarrow> file_t"
  pipes :: "uint64 \<Rightarrow> pipe"
  devsw :: "nat \<Rightarrow> bool"

definition PIPESIZE :: nat where "PIPESIZE = 512"
definition CONSOLE :: nat where "CONSOLE = 1"

definition pipe_upd :: "uint64 \<Rightarrow> (pipe \<Rightarrow> pipe) \<Rightarrow> 'z kfile_scheme \<Rightarrow> 'z kfile_scheme" where
  "pipe_upd pi f s = s\<lparr>pipes := (pipes s)(pi := f (pipes s pi))\<rparr>"

definition consoleinit :: "'z kfile_scheme \<Rightarrow> 'z kfile_scheme" where
  "consoleinit s = s\<lparr>devsw := (devsw s)(CONSOLE := True)\<rparr>"


section \<open>The operations\<close>

text \<open>The two ring buffer accesses.\<close>

definition pipe_put :: "uint8 \<Rightarrow> pipe \<Rightarrow> pipe" where
  "pipe_put ch pi = pi\<lparr>pi_data := (pi_data pi)(unat (pi_nwrite pi) mod PIPESIZE := ch), pi_nwrite := pi_nwrite pi + 1\<rparr>"

definition pipe_get :: "pipe \<Rightarrow> uint8 \<times> pipe" where
  "pipe_get pi = (pi_data pi (unat (pi_nread pi) mod PIPESIZE), pi\<lparr>pi_nread := pi_nread pi + 1\<rparr>)"

definition pipe_full :: "pipe \<Rightarrow> bool" where
  "pipe_full pi \<longleftrightarrow> pi_nwrite pi = pi_nread pi + of_nat PIPESIZE"

definition pipe_empty :: "pipe \<Rightarrow> bool" where
  "pipe_empty pi \<longleftrightarrow> pi_nread pi = pi_nwrite pi"

definition pipeclose :: "'z kfile_scheme \<Rightarrow> nat \<Rightarrow> uint64 \<Rightarrow> bool \<Rightarrow> 'z kfile_scheme res" where
  "pipeclose s me pi writable =
     (let s = (if writable then wakeup (pipe_upd pi (\<lambda>x. x\<lparr>pi_writeopen := False\<rparr>) s) (Some me) (ChNread (unat pi))
               else wakeup (pipe_upd pi (\<lambda>x. x\<lparr>pi_readopen := False\<rparr>) s) (Some me) (ChNwrite (unat pi)))
      in if \<not> pi_readopen (pipes s pi) \<and> \<not> pi_writeopen (pipes s pi) then kfree s pi else Inr s)"

primrec pipewrite_loop :: "nat \<Rightarrow> 'z kfile_scheme \<Rightarrow> nat \<Rightarrow> uint64 \<Rightarrow> uint64 \<Rightarrow> int \<Rightarrow> int \<Rightarrow>
    ((int, int) progress \<times> 'z kfile_scheme) res" where
  "pipewrite_loop 0 s me pi addr n i = Inl OutOfFuel"
| "pipewrite_loop (Suc fuel) s me pi addr n i =
     (if i < n then
        if \<not> pi_readopen (pipes s pi) \<or> killed s me then Inr (Done (-1), s)
        else if pipe_full (pipes s pi) then
          Inr (Waits i, sleep_begin (wakeup s (Some me) (ChNread (unat pi))) me (ChNwrite (unat pi)))
        else
          bind_res (copyin s (p_pagetable (procs s me)) (addr + of_int i) 1) (\<lambda>(r, bs).
            if r = -1 then Inr (Done i, wakeup s (Some me) (ChNread (unat pi)))
            else pipewrite_loop fuel (pipe_upd pi (pipe_put (hd bs)) s) me pi addr n (i + 1))
      else Inr (Done i, wakeup s (Some me) (ChNread (unat pi))))"

definition pipewrite :: "'z kfile_scheme \<Rightarrow> nat \<Rightarrow> uint64 \<Rightarrow> uint64 \<Rightarrow> int \<Rightarrow> int \<Rightarrow>
    ((int, int) progress \<times> 'z kfile_scheme) res" where
  "pipewrite s me pi addr n i = pipewrite_loop (Suc (nat (n - i))) s me pi addr n i"

primrec piperead_loop :: "nat \<Rightarrow> 'z kfile_scheme \<Rightarrow> nat \<Rightarrow> uint64 \<Rightarrow> uint64 \<Rightarrow> int \<Rightarrow> int \<Rightarrow>
    (int \<times> 'z kfile_scheme) res" where
  "piperead_loop 0 s me pi addr n i = Inl OutOfFuel"
| "piperead_loop (Suc fuel) s me pi addr n i =
     (if i < n \<and> \<not> pipe_empty (pipes s pi) then
        case pipe_get (pipes s pi) of
          (ch, x) \<Rightarrow>
            bind_res (copyout (pipe_upd pi (\<lambda>_. x) s) (p_pagetable (procs s me)) (addr + of_int i) [ch]) (\<lambda>(r, s).
              if r = -1 then Inr (i, s)
              else piperead_loop fuel s me pi addr n (i + 1))
      else Inr (i, s))"

definition piperead :: "'z kfile_scheme \<Rightarrow> nat \<Rightarrow> uint64 \<Rightarrow> uint64 \<Rightarrow> int \<Rightarrow>
    ((int, unit) progress \<times> 'z kfile_scheme) res" where
  "piperead s me pi addr n =
     (if pipe_empty (pipes s pi) \<and> pi_writeopen (pipes s pi) then
        if killed s me then Inr (Done (-1), s)
        else Inr (Waits (), sleep_begin s me (ChNread (unat pi)))
      else
        bind_res (piperead_loop (Suc (nat n)) s me pi addr n 0) (\<lambda>(i, s).
          Inr (Done i, wakeup s (Some me) (ChNwrite (unat pi)))))"

section \<open>Reading user memory depends on memory only\<close>

lemma walk_levels_mem:
  fixes s :: "'z kmem_scheme" and t :: "'y kmem_scheme"
  assumes "mem s = mem t"
  shows "\<exists>a. walk_levels l s pt va False = Inr (a, s) \<and> walk_levels l t pt va False = Inr (a, t)"
  using assms by (induction l arbitrary: pt) (auto simp: Let_def)

lemma walkaddr_mem:
  fixes s :: "'z kmem_scheme" and t :: "'y kmem_scheme"
  assumes "mem s = mem t"
  shows "walkaddr s pt va = walkaddr t pt va"
  using walk_levels_mem [OF assms, of 2 pt va] assms by (auto simp: walkaddr_def walk_def Let_def)

lemma copyin_mem:
  fixes s :: "'z kmem_scheme" and t :: "'y kmem_scheme"
  assumes "mem s = mem t"
  shows "copyin s pt va n = copyin t pt va n"
proof -
  have "copyin_loop k s pt va n = copyin_loop k t pt va n" for k va n
    by (induction k arbitrary: va n) (simp_all add: walkaddr_mem [OF assms] assms Let_def cong: if_cong)
  then show ?thesis by (simp add: copyin_def)
qed

lemma mem_wakeup [simp]: "mem (wakeup s me ch) = mem s"
  by (simp add: wakeup_procs)

lemma pipes_wakeup [simp]: "pipes (wakeup s me ch) = pipes s"
  by (simp add: wakeup_procs)

lemma pipe_upd_simps [simp]:
  "pipes (pipe_upd pi f s) q = (if q = pi then f (pipes s pi) else pipes s q)"
  "mem (pipe_upd pi f s) = mem s" "procs (pipe_upd pi f s) = procs s"
  by (simp_all add: pipe_upd_def)


section \<open>A pipe is a queue\<close>

definition pipe_contents :: "pipe \<Rightarrow> uint8 list" where
  "pipe_contents pi = ring_contents PIPESIZE (pi_data pi) (pi_nread pi) (pi_nwrite pi)"

definition pipe_ok :: "pipe \<Rightarrow> bool" where
  "pipe_ok pi \<longleftrightarrow> unat (pi_nwrite pi - pi_nread pi) \<le> PIPESIZE"

lemma pipe_full_iff: "pipe_full pi \<longleftrightarrow> unat (pi_nwrite pi - pi_nread pi) = PIPESIZE"
proof -
  have "pipe_full pi \<longleftrightarrow> pi_nwrite pi - pi_nread pi = of_nat PIPESIZE" by (auto simp: pipe_full_def algebra_simps)
  also have "\<dots> \<longleftrightarrow> unat (pi_nwrite pi - pi_nread pi) = unat (of_nat PIPESIZE :: uint)" by (rule word_unat_eq_iff)
  finally show ?thesis by (simp add: PIPESIZE_def)
qed

interpretation pq: bounded_queue pipe_put pipe_get pipe_full pipe_empty pipe_contents pipe_ok
proof unfold_locales
  fix q x assume q: "pipe_ok q" "\<not> pipe_full q"
  then have room: "unat (pi_nwrite q - pi_nread q) < PIPESIZE" by (simp add: pipe_ok_def pipe_full_iff)
  show "pipe_ok (pipe_put x q) \<and> pipe_contents (pipe_put x q) = pipe_contents q @ [x]"
    using ring_contents_put(1) [OF _ _ room, where d = "pi_data q" and c = x] ring_contents_put(2) [OF _ _ room] room
    by (simp add: pipe_ok_def pipe_contents_def pipe_put_def PIPESIZE_def)
next
  fix q assume q: "pipe_ok q" "\<not> pipe_empty q"
  then have "pi_nread q \<noteq> pi_nwrite q" by (simp add: pipe_empty_def)
  then show "pipe_ok (snd (pipe_get q)) \<and> pipe_contents q = fst (pipe_get q) # pipe_contents (snd (pipe_get q))"
    using ring_contents_get(1) [of PIPESIZE "pi_nread q" "pi_nwrite q" "pi_data q"]
      ring_contents_get(2) [of PIPESIZE "pi_nread q" "pi_nwrite q"] q(1)
    by (simp add: pipe_ok_def pipe_contents_def pipe_get_def PIPESIZE_def)
next
  fix q show "pipe_empty q \<longleftrightarrow> pipe_contents q = []"
    by (auto simp: pipe_empty_def pipe_contents_def ring_contents_def unat_eq_0 eq_diff_eq)
qed

abbreviation pipe_gone :: "'z kfile_scheme \<Rightarrow> nat \<Rightarrow> uint64 \<Rightarrow> bool" where
  "pipe_gone s me pi \<equiv> \<not> pi_readopen (pipes s pi) \<or> killed s me"

abbreviation user_byte :: "'z kfile_scheme \<Rightarrow> nat \<Rightarrow> uint64 \<Rightarrow> uint8 \<Rightarrow> bool" where
  "user_byte s me va c \<equiv> \<exists>r cs. copyin s (p_pagetable (procs s me)) va 1 = Inr (r, cs) \<and> r \<noteq> -1 \<and> hd cs = c"

abbreviation no_user_byte :: "'z kfile_scheme \<Rightarrow> nat \<Rightarrow> uint64 \<Rightarrow> bool" where
  "no_user_byte s me va \<equiv> \<exists>cs. copyin s (p_pagetable (procs s me)) va 1 = Inr (-1, cs)"

lemma pipe_put_step:
  "killed (pipe_upd pi (pipe_put c) s) me = killed s me"
  "pi_readopen (pipes (pipe_upd pi (pipe_put c) s) pi) = pi_readopen (pipes s pi)"
  "copyin (pipe_upd pi (pipe_put c) s) pt va 1 = copyin s pt va 1" "procs (pipe_upd pi (pipe_put c) s) = procs s"
  using copyin_mem [of "pipe_upd pi (pipe_put c) s" s] by (simp_all add: killed_def pipe_put_def)

lemma pipewrite_loop_appends:
  assumes "pipewrite_loop fuel s me pi addr n i = Inr (out, s')" "pipe_ok (pipes s pi)"
  shows "\<exists>bs. pipe_contents (pipes s' pi) = pipe_contents (pipes s pi) @ bs \<and> pipe_ok (pipes s' pi) \<and>
    (\<forall>k < length bs. user_byte s me (addr + of_int (i + int k)) (bs ! k)) \<and>
    (case out of
       Waits j \<Rightarrow> j = i + int (length bs) \<and> j < n \<and> pipe_full (pipes s' pi) \<and> \<not> pipe_gone s me pi
     | Done r \<Rightarrow> if i < n \<and> pipe_gone s me pi then r = -1 \<and> bs = []
         else r = i + int (length bs) \<and> (r = max i n \<or> r < n \<and> no_user_byte s me (addr + of_int r)))"
  using assms
proof (induction fuel arbitrary: s i)
  case (Suc fuel)
  show ?case
  proof (cases "i < n \<and> \<not> pipe_gone s me pi \<and> \<not> pipe_full (pipes s pi)")
    case False
    then have "pipes s' pi = pipes s pi"
      "(case out of Waits j \<Rightarrow> j = i \<and> j < n \<and> pipe_full (pipes s' pi) \<and> \<not> pipe_gone s me pi
        | Done r \<Rightarrow> if i < n \<and> pipe_gone s me pi then r = -1 else r = i \<and> n \<le> i)"
      using Suc.prems(1) by (auto simp: sleep_begin_def proc_upd_def split: if_splits)
    then show ?thesis using Suc.prems(2) by (intro exI [of _ "[]"]) (auto split: progress.splits if_splits)
  next
    case True
    then obtain r c where rc: "copyin s (p_pagetable (procs s me)) (addr + of_int i) 1 = Inr (r, c)"
      using Suc.prems(1) by (auto simp: bind_res_Inr_iff)
    show ?thesis
    proof (cases "r = -1")
      case stop: True
      then have "pipes s' pi = pipes s pi" "out = Done i" using Suc.prems(1) True rc by auto
      then show ?thesis using Suc.prems(2) True rc stop by (intro exI [of _ "[]"]) auto
    next
      case False
      define t where "t = pipe_upd pi (pipe_put (hd c)) s"
      note ts = pipe_put_step [where pi = pi and c = "hd c" and s = s, folded t_def]
      have t: "pipe_ok (pipes t pi)" "pipe_contents (pipes t pi) = pipe_contents (pipes s pi) @ [hd c]"
        using pq.put_ok [OF Suc.prems(2)] True by (auto simp: t_def)
      have "pipewrite_loop fuel t me pi addr n (i + 1) = Inr (out, s')"
        using Suc.prems(1) True rc False by (simp add: t_def)
      from Suc.IH [OF this t(1)] obtain bs where
        bs: "pipe_contents (pipes s' pi) = pipe_contents (pipes t pi) @ bs" "pipe_ok (pipes s' pi)"
        "\<And>k. k < length bs \<Longrightarrow> user_byte s me (addr + of_int (i + 1 + int k)) (bs ! k)"
        "case out of Waits j \<Rightarrow> j = i + 1 + int (length bs) \<and> j < n \<and> pipe_full (pipes s' pi) \<and> \<not> pipe_gone s me pi
          | Done r \<Rightarrow> if i + 1 < n \<and> pipe_gone s me pi then r = -1 \<and> bs = []
             else r = i + 1 + int (length bs) \<and> (r = max (i + 1) n \<or> r < n \<and> no_user_byte s me (addr + of_int r))"
        unfolding ts by blast
      have "user_byte s me (addr + of_int (i + int k)) ((hd c # bs) ! k)" if "k < Suc (length bs)" for k
      proof (cases k)
        case (Suc k')
        then have "i + 1 + int k' = i + int k" by simp
        then show ?thesis using bs(3) [of k'] that Suc by (simp add: add.assoc)
      qed (use rc False in simp)
      moreover have "case out of Waits j \<Rightarrow> j = i + int (length (hd c # bs)) \<and> j < n \<and> pipe_full (pipes s' pi) \<and> \<not> pipe_gone s me pi
          | Done r \<Rightarrow> r = i + int (length (hd c # bs)) \<and> (r = max i n \<or> r < n \<and> no_user_byte s me (addr + of_int r))"
        using bs(4) True by (auto split: progress.splits)
      ultimately show ?thesis using bs(1,2) t(2) True
        by (intro exI [of _ "hd c # bs"]) (auto split: progress.splits)
    qed
  qed
qed simp

lemma copyout_same:
  assumes "copyout s pt va bs = Inr (r, s')"
  shows "pipes s' = pipes s" "procs s' = procs s"
  using copyout_more [OF assms] by (cases s, cases s', simp)+

lemma piperead_loop_takes:
  assumes "piperead_loop fuel s me pi addr n i = Inr (r, s')" "pipe_ok (pipes s pi)"
  shows "\<exists>bs. pipe_contents (pipes s pi) = bs @ pipe_contents (pipes s' pi) \<and> pipe_ok (pipes s' pi) \<and>
    (r = i + int (length bs) \<and> (r = max i n \<or> r < n \<and> pipe_empty (pipes s' pi)) \<or>
     r + 1 = i + int (length bs) \<and> bs \<noteq> [] \<and> r < n \<and> (\<exists>u. copyout u (p_pagetable (procs s me)) (addr + of_int r) [last bs] = Inr (-1, s')))"
  using assms
proof (induction fuel arbitrary: s i)
  case (Suc fuel)
  show ?case
  proof (cases "i < n \<and> \<not> pipe_empty (pipes s pi)")
    case False
    then have "r = i" "s' = s" using Suc.prems(1) by auto
    then show ?thesis using Suc.prems(2) False by (intro exI [of _ "[]"]) auto
  next
    case True
    obtain ch x where g: "pipe_get (pipes s pi) = (ch, x)" by (cases "pipe_get (pipes s pi)")
    have x: "pipe_ok x" "pipe_contents (pipes s pi) = ch # pipe_contents x"
      using pq.get_ok [OF Suc.prems(2)] True g by auto
    obtain c t where t: "copyout (pipe_upd pi (\<lambda>_. x) s) (p_pagetable (procs s me)) (addr + of_int i) [ch] = Inr (c, t)"
      using Suc.prems(1) True g by (auto simp: bind_res_Inr_iff)
    have tp: "pipes t pi = x" "procs t = procs s" using copyout_same [OF t] by simp_all
    show ?thesis
    proof (cases "c = -1")
      case stop: True
      then have "r = i" "s' = t" using Suc.prems(1) True g t by auto
      then show ?thesis using x tp(1) t stop True by (intro exI [of _ "[ch]"]) auto
    next
      case False
      then have "piperead_loop fuel t me pi addr n (i + 1) = Inr (r, s')" using Suc.prems(1) True g t by simp
      from Suc.IH [OF this] tp x(1) obtain bs where bs: "pipe_contents x = bs @ pipe_contents (pipes s' pi)" "pipe_ok (pipes s' pi)"
        "r = i + 1 + int (length bs) \<and> (r = max (i + 1) n \<or> r < n \<and> pipe_empty (pipes s' pi)) \<or>
         r + 1 = i + 1 + int (length bs) \<and> bs \<noteq> [] \<and> r < n \<and> (\<exists>u. copyout u (p_pagetable (procs s me)) (addr + of_int r) [last bs] = Inr (-1, s'))"
        by auto
      then show ?thesis using x(2) True by (intro exI [of _ "ch # bs"]) auto
    qed
  qed
qed simp

text \<open>Into a good buffer every byte arrives: the loop cannot fail, and it writes nothing else.\<close>

lemma piperead_loop_fills:
  assumes "piperead_loop fuel s me pi addr n i = Inr (r, s')" "pipe_ok (pipes s pi)"
    "user_buf s (p_pagetable (procs s me)) (addr + of_int i) (nat (n - i))"
  shows "\<exists>bs. pipe_contents (pipes s pi) = bs @ pipe_contents (pipes s' pi) \<and> r = i + int (length bs) \<and>
    (\<forall>k < length bs. mem s' (uaddr s (p_pagetable (procs s me)) (addr + of_int i + of_nat k)) = bs ! k) \<and>
    (\<forall>va. uaddr s' (p_pagetable (procs s me)) va = uaddr s (p_pagetable (procs s me)) va) \<and>
    (\<forall>x. (\<forall>k < length bs. x \<noteq> uaddr s (p_pagetable (procs s me)) (addr + of_int i + of_nat k)) \<longrightarrow> mem s' x = mem s x) \<and>
    length bs \<le> nat (n - i)"
  using assms
proof (induction fuel arbitrary: s i)
  case (Suc fuel)
  let ?pt = "p_pagetable (procs s me)" and ?a = "addr + of_int i"
  show ?case
  proof (cases "i < n \<and> \<not> pipe_empty (pipes s pi)")
    case False
    then have "r = i" "s' = s" using Suc.prems(1) by auto
    then show ?thesis by (intro exI [of _ "[]"]) auto
  next
    case True
    obtain ch x where g: "pipe_get (pipes s pi) = (ch, x)" by (cases "pipe_get (pipes s pi)")
    have x: "pipe_ok x" "pipe_contents (pipes s pi) = ch # pipe_contents x"
      using pq.get_ok [OF Suc.prems(2)] True g by auto
    let ?s = "pipe_upd pi (\<lambda>_. x) s"
    have sm: "mem ?s = mem s" by simp
    note um = user_buf_mem [OF sm]
    have n: "nat (n - i) = Suc (nat (n - (i + 1)))" and a1: "?a + 1 = addr + of_int (i + 1)" using True by auto
    from user_buf_step [of ?s ?pt ?a "nat (n - (i + 1))" ch] Suc.prems(3) obtain t where
      t: "copyout ?s ?pt ?a [ch] = Inr (0, t)" "mem t = (mem s)(uaddr s ?pt ?a := ch)"
      "user_buf t ?pt (?a + 1) (nat (n - (i + 1)))" "\<And>va. uaddr t ?pt va = uaddr s ?pt va"
      "\<And>k. k < nat (n - (i + 1)) \<Longrightarrow> uaddr s ?pt (?a + 1 + of_nat k) \<noteq> uaddr s ?pt ?a"
      unfolding um sm n by blast
    have tp: "pipes t pi = x" "procs t = procs s" using copyout_same [OF t(1)] by simp_all
    have "piperead_loop fuel t me pi addr n (i + 1) = Inr (r, s')" using Suc.prems(1) True g t(1) by simp
    from Suc.IH [OF this] x(1) t(3) obtain bs where bs: "pipe_contents x = bs @ pipe_contents (pipes s' pi)"
      "r = i + 1 + int (length bs)" "\<And>k. k < length bs \<Longrightarrow> mem s' (uaddr s ?pt (?a + 1 + of_nat k)) = bs ! k"
      "\<And>va. uaddr s' ?pt va = uaddr s ?pt va"
      "\<And>x. \<forall>k < length bs. x \<noteq> uaddr s ?pt (?a + 1 + of_nat k) \<Longrightarrow> mem s' x = mem t x" "length bs \<le> nat (n - (i + 1))"
      unfolding tp t(4) a1 by blast
    have sh: "?a + 1 + of_nat k = ?a + of_nat (Suc k)" for k by simp
    have "mem s' (uaddr s ?pt (?a + of_nat k)) = (ch # bs) ! k" if "k < Suc (length bs)" for k
    proof (cases k)
      case 0
      have "\<forall>k < length bs. uaddr s ?pt ?a \<noteq> uaddr s ?pt (?a + 1 + of_nat k)"
        using t(5) [symmetric] order.strict_trans2 [OF _ bs(6)] by blast
      then show ?thesis using bs(5) t(2) 0 by simp
    next
      case (Suc k')
      then show ?thesis using bs(3) [of k'] that unfolding sh by simp
    qed
    moreover have "mem s' y = mem s y" if "\<forall>k < Suc (length bs). y \<noteq> uaddr s ?pt (?a + of_nat k)" for y
    proof -
      have "\<forall>k < length bs. y \<noteq> uaddr s ?pt (?a + 1 + of_nat k)" using that unfolding sh by blast
      moreover have "y \<noteq> uaddr s ?pt ?a" using that [rule_format, of 0] by simp
      ultimately show ?thesis using bs(5) t(2) by simp
    qed
    ultimately show ?thesis using x(2) bs(1,2,4,6) n by (intro exI [of _ "ch # bs"]) auto
  qed
qed simp


section \<open>What a pipe promises\<close>

text \<open>C35: a pipe delivers the bytes in order, across any interleaving of writes and reads and any wrap-around of its two
  32-bit counters: what was read, followed by what the pipe still holds, is what it held at first
  followed by what was written.\<close>

theorem pipe_in_order:
  assumes "pipe_ok q" "fifo_run pipe_put pipe_get pipe_full pipe_empty ops q = (ins, outs, q')"
  shows "outs @ pipe_contents q' = pipe_contents q @ ins \<and> pipe_ok q'"
  using pq.in_order [OF assms] by simp

theorem pipe_in_order_witness:
  "\<exists>q'. fifo_run pipe_put pipe_get pipe_full pipe_empty [Put 104, Put 105, Get, Get, Get]
     \<lparr>pi_data = \<lambda>_. 0, pi_nread = 0xffffffff, pi_nwrite = 0xffffffff, pi_readopen = True, pi_writeopen = True\<rparr>
     = ([104, 105], [104, 105], q') \<and> pipe_contents q' = []"
proof -
  let ?q = "\<lparr>pi_data = \<lambda>_. 0, pi_nread = 0xffffffff, pi_nwrite = 0xffffffff, pi_readopen = True, pi_writeopen = True\<rparr>"
  obtain q' where r: "fifo_run pipe_put pipe_get pipe_full pipe_empty [Put 104, Put 105, Get, Get, Get] ?q = ([104, 105], [104, 105], q')"
    by (simp add: pipe_put_def pipe_get_def pipe_full_def pipe_empty_def PIPESIZE_def)
  from pipe_in_order [OF _ r] r show ?thesis
    by (auto simp: pipe_ok_def pipe_contents_def ring_contents_def)
qed

text \<open>C36: \<open>pipewrite\<close> appends to the pipe the user's bytes from position \<open>i\<close> on, in order. It waits only when the pipe is
  full, has a reader and the process is not killed, and then it has appended exactly the bytes before the position at
  which it goes on. With bytes left to write and the reader gone or the process killed it returns -1 and has appended
  nothing (in this round). In every other case it returns the position it reached, which is \<open>n\<close> unless the
  user's byte there cannot be read.\<close>

theorem pipewrite_appends:
  assumes "pipe_ok (pipes s pi)" "pipewrite s me pi addr n i = Inr (out, s')"
  shows "\<exists>bs. pipe_contents (pipes s' pi) = pipe_contents (pipes s pi) @ bs \<and> pipe_ok (pipes s' pi) \<and>
    (\<forall>k < length bs. \<exists>r c. copyin s (p_pagetable (procs s me)) (addr + of_int (i + int k)) 1 = Inr (r, c) \<and> r \<noteq> -1 \<and> hd c = bs ! k) \<and>
    (case out of
       Waits j \<Rightarrow> j = i + int (length bs) \<and> j < n \<and> pipe_full (pipes s' pi) \<and> pi_readopen (pipes s pi) \<and> \<not> killed s me
     | Done r \<Rightarrow> if i < n \<and> (\<not> pi_readopen (pipes s pi) \<or> killed s me) then r = -1 \<and> bs = []
         else r = i + int (length bs) \<and>
           (r = max i n \<or> r < n \<and> (\<exists>c. copyin s (p_pagetable (procs s me)) (addr + of_int r) 1 = Inr (-1, c))))"
  using pipewrite_loop_appends [OF assms(2) [unfolded pipewrite_def] assms(1)] unfolding de_Morgan_disj not_not .

text \<open>C37: \<open>piperead\<close> waits exactly on an empty pipe that still has a writer, unless the process is killed, when it returns -1
  and changes nothing. Otherwise it returns a count: it has removed that many bytes from the front of the pipe, and
  it stops short of \<open>n\<close> only when the pipe is empty or the user's buffer is bad (then one byte more is removed).
  If the user's buffer is good (\<open>user_buf\<close>: mapped for the user, not shared, no two bytes the same memory), the user
  finds the removed bytes in it, in order, and no other byte of memory has changed.\<close>

theorem piperead_takes:
  fixes s :: "'z kfile_scheme"
  assumes "pipe_ok (pipes s pi)" "piperead s me pi addr n = Inr (out, s')"
  defines "pt \<equiv> p_pagetable (procs s me)"
  shows "case out of
      Waits _ \<Rightarrow> pipe_empty (pipes s pi) \<and> pi_writeopen (pipes s pi) \<and> \<not> killed s me \<and>
        s' = sleep_begin s me (ChNread (unat pi))
    | Done r \<Rightarrow> if pipe_empty (pipes s pi) \<and> pi_writeopen (pipes s pi) then r = -1 \<and> killed s me \<and> s' = s
        else \<exists>bs. pipe_contents (pipes s pi) = bs @ pipe_contents (pipes s' pi) \<and> pipe_ok (pipes s' pi) \<and>
          (r = int (length bs) \<and> (r = max 0 n \<or> r < n \<and> pipe_empty (pipes s' pi)) \<or>
           r + 1 = int (length bs) \<and> r < n \<and> (\<exists>(u :: 'z kfile_scheme) v. copyout u pt (addr + of_int r) [last bs] = Inr (-1, v))) \<and>
          (user_buf s pt addr (nat n) \<longrightarrow> r = int (length bs) \<and>
             (\<forall>k < length bs. vread s' pt (addr + of_nat k) = bs ! k) \<and>
             (\<forall>x. (\<forall>k < length bs. x \<noteq> uaddr s pt (addr + of_nat k)) \<longrightarrow> mem s' x = mem s x))"
proof (cases "pipe_empty (pipes s pi) \<and> pi_writeopen (pipes s pi)")
  case True
  then show ?thesis using assms(2) by (auto simp: piperead_def split: if_splits)
next
  case False
  then obtain i t where t: "piperead_loop (Suc (nat n)) s me pi addr n 0 = Inr (i, t)"
    "out = Done i" "s' = wakeup t (Some me) (ChNwrite (unat pi))"
    using assms(2) by (auto simp: piperead_def bind_res_Inr_iff)
  obtain bs where bs: "pipe_contents (pipes s pi) = bs @ pipe_contents (pipes s' pi)" "pipe_ok (pipes s' pi)"
    "i = int (length bs) \<and> (i = max 0 n \<or> i < n \<and> pipe_empty (pipes s' pi)) \<or>
     i + 1 = int (length bs) \<and> i < n \<and> (\<exists>(u :: 'z kfile_scheme) v. copyout u pt (addr + of_int i) [last bs] = Inr (-1, v))"
    using piperead_loop_takes [OF t(1) assms(1)] t(3) unfolding pt_def by auto
  have "i = int (length bs) \<and> (\<forall>k < length bs. vread s' pt (addr + of_nat k) = bs ! k) \<and>
      (\<forall>x. (\<forall>k < length bs. x \<noteq> uaddr s pt (addr + of_nat k)) \<longrightarrow> mem s' x = mem s x)" if u: "user_buf s pt addr (nat n)"
  proof -
    obtain cs where cs: "pipe_contents (pipes s pi) = cs @ pipe_contents (pipes t pi)" "i = int (length cs)"
      "\<forall>k < length cs. mem t (uaddr s pt (addr + of_nat k)) = cs ! k" "\<And>va. uaddr t pt va = uaddr s pt va"
      "\<forall>x. (\<forall>k < length cs. x \<noteq> uaddr s pt (addr + of_nat k)) \<longrightarrow> mem t x = mem s x"
      using piperead_loop_fills [OF t(1) assms(1)] u unfolding pt_def by auto
    have "cs = bs" using cs(1) bs(1) t(3) by simp
    moreover have "uaddr s' pt va = uaddr t pt va" for va using user_buf_mem(2) [of s' t] t(3) by simp
    ultimately show ?thesis using cs t(3) by (simp add: vread_uaddr)
  qed
  then show ?thesis using bs False t(2) by auto
qed

section \<open>A small kernel\<close>

text \<open>A kernel with everything idle, for concrete runs: process 0 runs, its page table is at \<open>0x87ffe000\<close>.\<close>

definition idle_buf :: buf where
  "idle_buf = \<lparr>b_valid = False, b_dev = 0, b_blockno = 0, b_lock = initsleeplock ''buffer'', b_refcnt = 0,
     b_prev = 0, b_next = 0, b_data = replicate BSIZE 0\<rparr>"

definition idle_inode :: inode where
  "idle_inode = \<lparr>i_dev = 0, i_inum = 0, i_ref = 0, i_lock = initsleeplock ''inode'', i_valid = False, i_type = 0,
     i_major = 0, i_minor = 0, i_nlink = 0, i_size = 0, i_addrs = replicate 13 0\<rparr>"

definition idle_file :: file_t where
  "idle_file = \<lparr>f_type = FD_NONE, f_ref = 0, f_readable = False, f_writable = False, f_pipe = 0, f_ip = None,
     f_off = 0, f_major = 0\<rparr>"

definition idle_pipe :: pipe where
  "idle_pipe = \<lparr>pi_data = \<lambda>_. 0, pi_nread = 0, pi_nwrite = 0, pi_readopen = True, pi_writeopen = True\<rparr>"

definition small_kernel :: "memory \<Rightarrow> kfile" where
  "small_kernel m = \<lparr>mem = m, freelist = 0, nump_using = \<lambda>_. 0, console = [],
     procs = (\<lambda>_. idle_proc)(0 := idle_proc\<lparr>p_state := RUNNING, p_pid := 1, p_pagetable := 0x87ffe000\<rparr>),
     ticks = 0, nextpid = 2, initproc = Some 0, tramp_pa = 0, forkret_pc = 0,
     bufs = \<lambda>_. idle_buf, disk = \<lambda>_. replicate BSIZE 0, disk_log = [],
     log_start = 2, log_size = 30, outstanding = 0, committing = False, log_dev = 1,
     lh = \<lparr>lh_n = 0, lh_block = replicate 30 0\<rparr>,
     sb = \<lparr>sb_magic = FSMAGIC, sb_size = 2000, sb_nblocks = 1954, sb_ninodes = 200, sb_nlog = 30,
       sb_logstart = 2, sb_inodestart = 32, sb_bmapstart = 45\<rparr>,
     inodes = \<lambda>_. idle_inode,
     cons_buf = \<lambda>_. 0, cons_r = 0, cons_w = 0, cons_e = 0, uart_tx_buf = \<lambda>_. 0, uart_tx_w = 0, uart_tx_r = 0,
     uart_rx = [], uart_room = 1,
     ftable = \<lambda>_. idle_file, pipes = \<lambda>_. idle_pipe, devsw = \<lambda>_. False\<rparr>"

lemma small_kernel_simps [simp]:
  "mem (small_kernel m) = m" "pipes (small_kernel m) = (\<lambda>_. idle_pipe)"
  "procs (small_kernel m) = (\<lambda>_. idle_proc)(0 := idle_proc\<lparr>p_state := RUNNING, p_pid := 1, p_pagetable := 0x87ffe000\<rparr>)"
  by (simp_all add: small_kernel_def)

theorem pipewrite_appends_witness:
  "\<exists>s' c. pipewrite (small_kernel (mem (demo_map user_flags))) 0 0x87ff1000 0xff0 1 0 = Inr (Done 1, s') \<and>
     pipe_contents (pipes s' 0x87ff1000) = [c]"
proof -
  let ?s = "small_kernel (mem (demo_map user_flags))"
  have "copyin (demo_map user_flags) 0x87ffe000 0xff0 1 =
      Inr (0, [vread (demo_map user_flags) 0x87ffe000 0xff0])"
    using copyin_loop_spec [OF demo_user(1), of 1 2 "0xff0"] demo_user(2) [of 0]
    by (simp add: copyin_def numeral_2_eq_2 del: copyin_loop.simps)
  then obtain c where c: "copyin ?s 0x87ffe000 0xff0 1 = Inr (0, [c])"
    using copyin_mem [of ?s "demo_map user_flags"] by simp
  have p: "pipe_ok idle_pipe" "\<not> pipe_full idle_pipe" "pipe_contents idle_pipe = []"
    by (simp_all add: pipe_ok_def pipe_full_def idle_pipe_def pipe_contents_def ring_contents_def PIPESIZE_def)
  have "\<exists>s'. pipewrite ?s 0 0x87ff1000 0xff0 1 0 = Inr (Done 1, s')"
    using c p(2) by (simp add: pipewrite_def killed_def idle_proc_def idle_pipe_def numeral_2_eq_2)
  then obtain s' where s': "pipewrite ?s 0 0x87ff1000 0xff0 1 0 = Inr (Done 1, s')" ..
  obtain bs where "pipe_contents (pipes s' 0x87ff1000) = pipe_contents (pipes ?s 0x87ff1000) @ bs" "length bs = 1"
    using pipewrite_appends [OF _ s'] p(1) unfolding progress.case by (auto split: if_splits)
  then show ?thesis using s' p(3) by (auto simp: length_Suc_conv)
qed

theorem piperead_takes_witness:
  "\<exists>s'. piperead (pipe_upd 0x87ff1000 (pipe_put 65) (small_kernel (mem (demo_map user_flags)))) 0 0x87ff1000 0xff0 1 = Inr (Done 1, s') \<and>
     pipe_contents (pipes s' 0x87ff1000) = [] \<and> vread s' 0x87ffe000 0xff0 = 65"
proof -
  let ?s = "pipe_upd 0x87ff1000 (pipe_put 65) (small_kernel (mem (demo_map user_flags)))"
  have p: "pipe_ok idle_pipe" "\<not> pipe_full idle_pipe" "pipe_contents idle_pipe = []"
    by (simp_all add: pipe_ok_def pipe_full_def idle_pipe_def pipe_contents_def ring_contents_def PIPESIZE_def)
  have ok: "pipe_ok (pipes ?s 0x87ff1000)" "pipe_contents (pipes ?s 0x87ff1000) = [65]"
    using pq.put_ok [OF p(1,2), of 65] p(3) by simp_all
  have ne: "\<not> pipe_empty (pipes ?s 0x87ff1000)" using pq.empty_ok [OF ok(1)] ok(2) by simp
  have u: "user_buf ?s 0x87ffe000 0xff0 1" using user_buf_mem(1) [of ?s "demo_map user_flags"] demo_user_buf by simp
  obtain c x where g: "pipe_get (pipes ?s 0x87ff1000) = (c, x)" by (cases "pipe_get (pipes ?s 0x87ff1000)")
  have "\<exists>t. copyout (pipe_upd 0x87ff1000 (\<lambda>_. x) ?s) 0x87ffe000 0xff0 [c] = Inr (0, t)"
    using user_buf_step [of "pipe_upd 0x87ff1000 (\<lambda>_. x) ?s" "0x87ffe000" "0xff0" 0 c] u
      user_buf_mem(1) [of "pipe_upd 0x87ff1000 (\<lambda>_. x) ?s" ?s] by auto
  then have "\<exists>s'. piperead ?s 0 0x87ff1000 0xff0 1 = Inr (Done 1, s')"
    using ne g by (auto simp: piperead_def numeral_2_eq_2)
  then obtain s' where s': "piperead ?s 0 0x87ff1000 0xff0 1 = Inr (Done 1, s')" ..
  obtain bs where "[65] = bs @ pipe_contents (pipes s' 0x87ff1000)" "length bs = 1"
    "\<forall>k < length bs. vread s' 0x87ffe000 (0xff0 + of_nat k) = bs ! k"
    using piperead_takes [OF ok(1) s'] ok(2) u ne by auto
  then show ?thesis using s' by (auto simp: Cons_eq_append_conv)
qed

end
