(* ===== verification/File.thy ===== *)
theory File
  imports Pipe
begin

text \<open>
  The file layer, \<open>kernel/file.c\<close>, and \<open>pipealloc\<close> of \<open>kernel/pipe.c\<close>. A file pointer is an
  index of the table. \<open>fileread\<close> and \<open>filewrite\<close> are runs by one process: where a pipe or
  the console makes it wait, the result is \<open>Blocked\<close>.
\<close>

definition file_upd :: "nat \<Rightarrow> (file_t \<Rightarrow> file_t) \<Rightarrow> 'z kfile_scheme \<Rightarrow> 'z kfile_scheme" where
  "file_upd f g s = s\<lparr>ftable := (ftable s)(f := g (ftable s f))\<rparr>"

definition filealloc :: "'z kfile_scheme \<Rightarrow> nat option \<times> 'z kfile_scheme" where
  "filealloc s =
     (case find (\<lambda>f. f_ref (ftable s f) = 0) [0..<NFILE] of
        Some f \<Rightarrow> (Some f, file_upd f (\<lambda>x. x\<lparr>f_ref := 1\<rparr>) s)
      | None \<Rightarrow> (None, s))"

definition filedup :: "'z kfile_scheme \<Rightarrow> nat \<Rightarrow> 'z kfile_scheme res" where
  "filedup s f =
     (if f_ref (ftable s f) < 1 then Inl (Panic ''filedup'')
      else Inr (file_upd f (\<lambda>x. x\<lparr>f_ref := f_ref x + 1\<rparr>) s))"

definition deref :: "'a option \<Rightarrow> 'a res" where
  "deref p = (case p of None \<Rightarrow> Inl NullDeref | Some x \<Rightarrow> Inr x)"

definition fileclose :: "'z kfile_scheme \<Rightarrow> nat \<Rightarrow> nat \<Rightarrow> 'z kfile_scheme res" where
  "fileclose s me f =
     (if f_ref (ftable s f) < 1 then Inl (Panic ''fileclose'')
      else
        let s = file_upd f (\<lambda>x. x\<lparr>f_ref := f_ref x - 1\<rparr>) s
        in if 0 < f_ref (ftable s f) then Inr s
           else
             let ff = ftable s f;
                 s = file_upd f (\<lambda>x. x\<lparr>f_ref := 0, f_type := FD_NONE\<rparr>) s
             in case f_type ff of
                  FD_PIPE \<Rightarrow> pipeclose s me (f_pipe ff) (f_writable ff)
                | FD_NONE \<Rightarrow> Inr s
                | _ \<Rightarrow>
                    bind_res (begin_op s me) (\<lambda>s.
                    bind_res (deref (f_ip ff)) (\<lambda>ip.
                    bind_res (iput s me ip) (\<lambda>s. end_op s me))))"

text \<open>\<open>struct stat\<close> as \<open>copyout\<close> sends it, with the padding before the 64-bit size.\<close>

definition stat_bytes :: "stat \<Rightarrow> uint8 list" where
  "stat_bytes st =
     le_of_nat 4 (unat (st_dev st)) @ le_of_nat 4 (unat (st_ino st)) @ le_of_nat 2 (unat (st_type st)) @
     le_of_nat 2 (unat (st_nlink st)) @ replicate 4 0 @ le_of_nat 8 (unat (st_size st))"

definition filestat :: "'z kfile_scheme \<Rightarrow> nat \<Rightarrow> nat \<Rightarrow> uint64 \<Rightarrow> (int \<times> 'z kfile_scheme) res" where
  "filestat s me f addr =
     (if f_type (ftable s f) = FD_INODE \<or> f_type (ftable s f) = FD_DEVICE then
        bind_res (deref (f_ip (ftable s f))) (\<lambda>ip.
        bind_res (ilock s me (Some ip)) (\<lambda>s.
          let st = stati s ip
          in bind_res (iunlock s me (Some ip)) (\<lambda>s.
             bind_res (copyout s (p_pagetable (procs s me)) addr (stat_bytes st)) (\<lambda>(r, s).
               Inr (if r < 0 then -1 else 0, s)))))
      else Inr (-1, s))"

definition finish :: "(('a, 'b) progress \<times> 's) res \<Rightarrow> ('a \<times> 's) res" where
  "finish r = bind_res r (\<lambda>(p, s). case p of Done x \<Rightarrow> Inr (x, s) | Waits _ \<Rightarrow> Inl Blocked)"

definition has_device :: "'z kfile_scheme \<Rightarrow> uint16 \<Rightarrow> bool" where
  "has_device s major \<longleftrightarrow> 0 \<le> sint major \<and> sint major < int NDEV \<and> devsw s (nat (sint major))"

definition fileread :: "'z kfile_scheme \<Rightarrow> nat \<Rightarrow> nat \<Rightarrow> uint64 \<Rightarrow> int \<Rightarrow> (int \<times> 'z kfile_scheme) res" where
  "fileread s me f addr n =
     (if \<not> f_readable (ftable s f) then Inr (-1, s)
      else case f_type (ftable s f) of
        FD_PIPE \<Rightarrow> finish (piperead s me (f_pipe (ftable s f)) addr n)
      | FD_DEVICE \<Rightarrow>
          if \<not> has_device s (f_major (ftable s f)) then Inr (-1, s)
          else finish (consoleread s me True n addr n)
      | FD_INODE \<Rightarrow>
          bind_res (deref (f_ip (ftable s f))) (\<lambda>ip.
          bind_res (ilock s me (Some ip)) (\<lambda>s.
          bind_res (readi s me ip (UserDst addr) (f_off (ftable s f)) (of_int n)) (\<lambda>(r, _, s).
            let s = (if 0 < r then file_upd f (\<lambda>x. x\<lparr>f_off := f_off x + of_int r\<rparr>) s else s)
            in bind_res (iunlock s me (Some ip)) (\<lambda>s. Inr (r, s)))))
      | FD_NONE \<Rightarrow> Inl (Panic ''fileread''))"

definition WRITE_MAX :: int where
  "WRITE_MAX = ((MAXOPBLOCKS - 1 - 1 - 2) div 2) * int BSIZE"

primrec filewrite_loop :: "nat \<Rightarrow> 'z kfile_scheme \<Rightarrow> nat \<Rightarrow> nat \<Rightarrow> nat \<Rightarrow> uint64 \<Rightarrow> int \<Rightarrow> int \<Rightarrow>
    (int \<times> 'z kfile_scheme) res" where
  "filewrite_loop 0 s me f ip addr n i = Inl OutOfFuel"
| "filewrite_loop (Suc fuel) s me f ip addr n i =
     (if i < n then
        let n1 = (if n - i > WRITE_MAX then WRITE_MAX else n - i)
        in bind_res (begin_op s me) (\<lambda>s.
           bind_res (ilock s me (Some ip)) (\<lambda>s.
           bind_res (writei s me ip (UserSrc (addr + of_int i)) (f_off (ftable s f)) (of_int n1)) (\<lambda>(r, s).
             let s = (if 0 < r then file_upd f (\<lambda>x. x\<lparr>f_off := f_off x + of_int r\<rparr>) s else s)
             in bind_res (iunlock s me (Some ip)) (\<lambda>s.
                bind_res (end_op s me) (\<lambda>s.
                  if r \<noteq> n1 then Inr (i, s)
                  else filewrite_loop fuel s me f ip addr n (i + r))))))
      else Inr (i, s))"

definition filewrite :: "'z kfile_scheme \<Rightarrow> nat \<Rightarrow> nat \<Rightarrow> uint64 \<Rightarrow> int \<Rightarrow> (int \<times> 'z kfile_scheme) res" where
  "filewrite s me f addr n =
     (if \<not> f_writable (ftable s f) then Inr (-1, s)
      else case f_type (ftable s f) of
        FD_PIPE \<Rightarrow> finish (pipewrite s me (f_pipe (ftable s f)) addr n 0)
      | FD_DEVICE \<Rightarrow>
          if \<not> has_device s (f_major (ftable s f)) then Inr (-1, s)
          else finish (consolewrite s me True addr n 0)
      | FD_INODE \<Rightarrow>
          bind_res (deref (f_ip (ftable s f))) (\<lambda>ip.
          bind_res (filewrite_loop (Suc (nat n)) s me f ip addr n 0) (\<lambda>(i, s).
            Inr (if i = n then n else -1, s)))
      | FD_NONE \<Rightarrow> Inl (Panic ''filewrite''))"

text \<open>\<open>pipealloc\<close>: the label \<open>bad\<close> closes the files it has got; a page is then never allocated.\<close>

definition pipealloc :: "'z kfile_scheme \<Rightarrow> nat \<Rightarrow> (int \<times> nat option \<times> nat option \<times> 'z kfile_scheme) res" where
  "pipealloc s me =
     (let close = (\<lambda>f s. case f of None \<Rightarrow> Inr s | Some f \<Rightarrow> fileclose s me f);
          bad = (\<lambda>f0 f1 s. bind_res (close f0 s) (\<lambda>s. bind_res (close f1 s) (\<lambda>s. Inr (-1, f0, f1, s))))
      in case filealloc s of
           (None, s) \<Rightarrow> bad None None s
         | (Some f0, s) \<Rightarrow>
             (case filealloc s of
                (None, s) \<Rightarrow> bad (Some f0) None s
              | (Some f1, s) \<Rightarrow>
                  bind_res (kalloc s) (\<lambda>(pi, s).
                    if pi = 0 then bad (Some f0) (Some f1) s
                    else
                      let s = pipe_upd pi (\<lambda>x. x\<lparr>pi_readopen := True, pi_writeopen := True, pi_nwrite := 0, pi_nread := 0\<rparr>) s;
                          s = file_upd f0 (\<lambda>x. x\<lparr>f_type := FD_PIPE, f_readable := True, f_writable := False, f_pipe := pi\<rparr>) s;
                          s = file_upd f1 (\<lambda>x. x\<lparr>f_type := FD_PIPE, f_readable := False, f_writable := True, f_pipe := pi\<rparr>) s
                      in Inr (0, Some f0, Some f1, s))))"

end
