(* ===== verification/Syscall.thy ===== *)
theory Syscall
  imports File
begin

text \<open>
  The trapframe (\<open>kernel/proc.h\<close>), the fetching of system call arguments
  (\<open>kernel/syscall.c\<close>) and what the system calls add to the state: the read counter, the
  flag of \<open>forkret\<close>, and in \<open>stack_words\<close> whatever two local variables contain before they
  are assigned. A trapframe is a page of memory; its fields are
  64-bit words at the offsets the header gives.
\<close>

record ksys = kfile +
  read_count :: int
  fork_first :: bool
  stack_words :: "uint \<times> uint"

definition TF_KERNEL_SATP :: uint64 where "TF_KERNEL_SATP = 0"
definition TF_KERNEL_SP :: uint64 where "TF_KERNEL_SP = 8"
definition TF_KERNEL_TRAP :: uint64 where "TF_KERNEL_TRAP = 16"
definition TF_EPC :: uint64 where "TF_EPC = 24"
definition TF_HARTID :: uint64 where "TF_HARTID = 32"
definition TF_SP :: uint64 where "TF_SP = 48"
definition TF_A :: "nat \<Rightarrow> uint64" where "TF_A n = 112 + 8 * of_nat n"
definition TF_SIZE :: nat where "TF_SIZE = 288"

definition tf_get :: "'z kproc_scheme \<Rightarrow> nat \<Rightarrow> uint64 \<Rightarrow> uint64" where
  "tf_get s me off = load64 (mem s) (p_trapframe (procs s me) + off)"

definition tf_set :: "nat \<Rightarrow> uint64 \<Rightarrow> uint64 \<Rightarrow> 'z kproc_scheme \<Rightarrow> 'z kproc_scheme" where
  "tf_set me off v s = s\<lparr>mem := store64 (mem s) (p_trapframe (procs s me) + off) v\<rparr>"

definition fetchaddr :: "'z kproc_scheme \<Rightarrow> nat \<Rightarrow> uint64 \<Rightarrow> (int \<times> uint64) res" where
  "fetchaddr s me addr =
     (let p = procs s me
      in if p_sz p \<le> addr \<or> p_sz p < addr + 8 then Inr (-1, 0)
         else
           bind_res (copyin s (p_pagetable p) addr 8) (\<lambda>(r, bs).
             Inr (if r \<noteq> 0 then (-1, 0) else (0, word64 bs))))"

definition fetchstr :: "'z kproc_scheme \<Rightarrow> nat \<Rightarrow> uint64 \<Rightarrow> nat \<Rightarrow> (int \<times> uint8 list) res" where
  "fetchstr s me addr mx =
     bind_res (copyinstr s (p_pagetable (procs s me)) addr mx) (\<lambda>(r, bs).
       if r < 0 then Inr (-1, bs)
       else bind_res (strlen bs) (\<lambda>n. Inr (int n, bs)))"

definition argraw :: "'z kproc_scheme \<Rightarrow> nat \<Rightarrow> nat \<Rightarrow> uint64 res" where
  "argraw s me n = (if n \<le> 5 then Inr (tf_get s me (TF_A n)) else Inl (Panic ''argraw''))"

definition argint :: "'z kproc_scheme \<Rightarrow> nat \<Rightarrow> nat \<Rightarrow> int res" where
  "argint s me n = bind_res (argraw s me n) (\<lambda>v. Inr (sint (ucast v :: uint32)))"

definition argaddr :: "'z kproc_scheme \<Rightarrow> nat \<Rightarrow> nat \<Rightarrow> uint64 res" where
  "argaddr s me n = argraw s me n"

definition argstr :: "'z kproc_scheme \<Rightarrow> nat \<Rightarrow> nat \<Rightarrow> nat \<Rightarrow> (int \<times> uint8 list) res" where
  "argstr s me n mx = bind_res (argaddr s me n) (\<lambda>addr. fetchstr s me addr mx)"

end
