(* ===== verification/Exec.thy ===== *)
theory Exec
  imports Syscall
begin

text \<open>
  \<open>exec\<close>, \<open>kernel/exec.c\<close>, with the ELF structures of \<open>kernel/elf.h\<close>: a new address space is
  built from the program's segments and the argument strings, and replaces the old one
  only when nothing can fail any more. The jumps to \<open>bad\<close> are the results with \<open>False\<close>.
\<close>

record elfhdr =
  elf_magic :: uint
  elf_entry :: uint64
  elf_phoff :: uint64
  elf_phnum :: uint16

record proghdr =
  ph_type :: uint
  ph_flags :: uint
  ph_off :: uint64
  ph_vaddr :: uint64
  ph_filesz :: uint64
  ph_memsz :: uint64

definition ELF_MAGIC :: uint where "ELF_MAGIC = 0x464C457F"
definition ELF_PROG_LOAD :: uint where "ELF_PROG_LOAD = 1"
definition ELFHDR_SIZE :: nat where "ELFHDR_SIZE = 64"
definition PROGHDR_SIZE :: nat where "PROGHDR_SIZE = 56"

definition decode_elf :: "uint8 list \<Rightarrow> elfhdr" where
  "decode_elf d = \<lparr>elf_magic = get32 d 0, elf_entry = get64 d 24, elf_phoff = get64 d 32, elf_phnum = get16 d 56\<rparr>"

definition decode_ph :: "uint8 list \<Rightarrow> proghdr" where
  "decode_ph d = \<lparr>ph_type = get32 d 0, ph_flags = get32 d 4, ph_off = get64 d 8, ph_vaddr = get64 d 16,
     ph_filesz = get64 d 32, ph_memsz = get64 d 40\<rparr>"

definition flags2perm :: "uint \<Rightarrow> uint64" where
  "flags2perm flags =
     (let perm = (if flags AND 1 \<noteq> 0 then PTE_X else 0)
      in if flags AND 2 \<noteq> 0 then perm OR PTE_W else perm)"

primrec loadseg_loop :: "nat \<Rightarrow> 'z ksys_scheme \<Rightarrow> nat \<Rightarrow> uint64 \<Rightarrow> uint64 \<Rightarrow> nat \<Rightarrow> uint \<Rightarrow> uint \<Rightarrow> uint \<Rightarrow>
    (int \<times> 'z ksys_scheme) res" where
  "loadseg_loop 0 s me pagetable va ip offset sz i = Inl OutOfFuel"
| "loadseg_loop (Suc fuel) s me pagetable va ip offset sz i =
     (if i < sz then
        bind_res (walkaddr s pagetable (va + ucast i)) (\<lambda>pa.
          if pa = 0 then Inl (Panic ''loadseg: address should exist'')
          else
            let n = (if sz - i < 4096 then sz - i else 4096)
            in bind_res (readi s me ip (KernelDst pa) (offset + i) n) (\<lambda>(r, _, s).
                 if r \<noteq> sint n then Inr (-1, s)
                 else loadseg_loop fuel s me pagetable va ip offset sz (i + 4096)))
      else Inr (0, s))"

definition loadseg :: "'z ksys_scheme \<Rightarrow> nat \<Rightarrow> uint64 \<Rightarrow> uint64 \<Rightarrow> nat \<Rightarrow> uint \<Rightarrow> uint \<Rightarrow> (int \<times> 'z ksys_scheme) res" where
  "loadseg s me pagetable va ip offset sz = loadseg_loop (unat sz div 4096 + 2) s me pagetable va ip offset sz 0"

text \<open>The program headers, one after the other; the size reached so far is needed for the cleanup as well.\<close>

fun exec_segments :: "'z ksys_scheme \<Rightarrow> nat \<Rightarrow> nat \<Rightarrow> uint64 \<Rightarrow> uint64 \<Rightarrow> uint \<Rightarrow> nat list \<Rightarrow>
    (bool \<times> uint64 \<times> 'z ksys_scheme) res" where
  "exec_segments s me ip pagetable sz off [] = Inr (True, sz, s)"
| "exec_segments s me ip pagetable sz off (i # is) =
     bind_res (readi s me ip LocalDst off (of_nat PROGHDR_SIZE)) (\<lambda>(r, bs, s).
       if r \<noteq> int PROGHDR_SIZE then Inr (False, sz, s)
       else
         let ph = decode_ph bs;
             off' = off + of_nat PROGHDR_SIZE
         in if ph_type ph \<noteq> ELF_PROG_LOAD then exec_segments s me ip pagetable sz off' is
            else if ph_memsz ph < ph_filesz ph then Inr (False, sz, s)
            else if ph_vaddr ph + ph_memsz ph < ph_vaddr ph then Inr (False, sz, s)
            else if ph_vaddr ph mod PGSIZE \<noteq> 0 then Inr (False, sz, s)
            else
              bind_res (uvmalloc s pagetable sz (ph_vaddr ph + ph_memsz ph) (flags2perm (ph_flags ph))) (\<lambda>(sz1, s).
                if sz1 = 0 then Inr (False, sz, s)
                else
                  bind_res (loadseg s me pagetable (ph_vaddr ph) ip (ucast (ph_off ph)) (ucast (ph_filesz ph))) (\<lambda>(r, s).
                    if r < 0 then Inr (False, sz1, s)
                    else exec_segments s me ip pagetable sz1 off' is)))"

text \<open>The argument strings go below the stack pointer; \<open>ustack\<close> collects their addresses.\<close>

fun exec_args :: "'z ksys_scheme \<Rightarrow> uint64 \<Rightarrow> uint64 \<Rightarrow> uint64 \<Rightarrow> uint64 list \<Rightarrow> uint8 list list \<Rightarrow>
    (bool \<times> uint64 \<times> uint64 list \<times> 'z ksys_scheme) res" where
  "exec_args s pagetable stackbase sp ustack [] = Inr (True, sp, ustack, s)"
| "exec_args s pagetable stackbase sp ustack (arg # args) =
     (if MAXARG \<le> length ustack then Inr (False, sp, ustack, s)
      else
        bind_res (strlen arg) (\<lambda>n.
          let sp = sp - (of_nat n + 1);
              sp = sp - sp mod 16
          in if sp < stackbase then Inr (False, sp, ustack, s)
             else
               bind_res (copyout s pagetable sp (take (n + 1) arg)) (\<lambda>(r, s).
                 if r < 0 then Inr (False, sp, ustack, s)
                 else exec_args s pagetable stackbase sp (ustack @ [sp]) args)))"

definition path_last :: "uint8 list \<Rightarrow> uint8 list" where
  "path_last path =
     (let pre = takeWhile (\<lambda>c. c \<noteq> 0) path
      in rev (takeWhile (\<lambda>c. c \<noteq> SLASH) (rev pre)) @ [0])"

text \<open>The rest of \<open>exec\<close> once the segments are loaded; \<open>False\<close> asks for the cleanup.\<close>

definition exec_stack :: "'z ksys_scheme \<Rightarrow> nat \<Rightarrow> uint64 \<Rightarrow> uint64 \<Rightarrow> uint8 list list \<Rightarrow>
    (bool \<times> uint64 \<times> uint64 \<times> nat \<times> 'z ksys_scheme) res" where
  "exec_stack s me pagetable sz argv =
     (let sz = PGROUNDUP sz
      in bind_res (uvmalloc s pagetable sz (sz + 2 * PGSIZE) PTE_W) (\<lambda>(sz1, s).
           if sz1 = 0 then Inr (False, sz, 0, 0, s)
           else
             let sz = sz1
             in bind_res (uvmclear s pagetable (sz - 2 * PGSIZE)) (\<lambda>s.
                  let stackbase = sz - PGSIZE
                  in bind_res (exec_args s pagetable stackbase sz [] argv) (\<lambda>(ok, sp, ustack, s).
                       if \<not> ok then Inr (False, sz, 0, 0, s)
                       else
                         let argc = length ustack;
                             sp = sp - of_nat ((argc + 1) * 8);
                             sp = sp - sp mod 16
                         in if sp < stackbase then Inr (False, sz, 0, 0, s)
                            else
                              bind_res (copyout s pagetable sp (concat (map bytes64 (ustack @ [0])))) (\<lambda>(r, s).
                                if r < 0 then Inr (False, sz, 0, 0, s)
                                else Inr (True, sz, sp, argc, s))))))"

definition exec_commit :: "'z ksys_scheme \<Rightarrow> nat \<Rightarrow> uint64 \<Rightarrow> uint64 \<Rightarrow> uint64 \<Rightarrow> uint64 \<Rightarrow> uint8 list \<Rightarrow> 'z ksys_scheme res" where
  "exec_commit s me pagetable sz sp entry path =
     (let s = tf_set me (TF_A 1) sp s
      in bind_res (safestrcpy (path_last path) 16) (\<lambda>nm.
           let oldpagetable = p_pagetable (procs s me);
               oldsz = p_sz (procs s me);
               s = proc_upd me (\<lambda>p. p\<lparr>p_name := overwrite (p_name p) 0 nm\<rparr>) s;
               s = proc_upd me (\<lambda>p. p\<lparr>p_pagetable := pagetable, p_sz := sz\<rparr>) s;
               s = tf_set me TF_EPC entry s;
               s = tf_set me TF_SP sp s
           in proc_freepagetable s oldpagetable oldsz))"

definition exec :: "'z ksys_scheme \<Rightarrow> nat \<Rightarrow> uint8 list \<Rightarrow> uint8 list list \<Rightarrow> (int \<times> 'z ksys_scheme) res" where
  "exec s me path argv =
     (let bad = (\<lambda>pagetable sz ip s.
            bind_res (if pagetable \<noteq> 0 then proc_freepagetable s pagetable sz else Inr s) (\<lambda>s.
            case ip of
              None \<Rightarrow> Inr (-1, s)
            | Some ip \<Rightarrow>
                bind_res (iunlockput s me ip) (\<lambda>s.
                bind_res (end_op s me) (\<lambda>s. Inr (-1, s)))))
      in bind_res (begin_op s me) (\<lambda>s.
         bind_res (namei s me path) (\<lambda>(r, s).
         case r of
           None \<Rightarrow> bind_res (end_op s me) (\<lambda>s. Inr (-1, s))
         | Some ip \<Rightarrow>
             bind_res (ilock s me (Some ip)) (\<lambda>s.
             bind_res (readi s me ip LocalDst 0 (of_nat ELFHDR_SIZE)) (\<lambda>(n, bs, s).
               if n \<noteq> int ELFHDR_SIZE then bad 0 0 (Some ip) s
               else if elf_magic (decode_elf bs) \<noteq> ELF_MAGIC then bad 0 0 (Some ip) s
               else
                 bind_res (proc_pagetable s me) (\<lambda>(pagetable, s).
                   if pagetable = 0 then bad 0 0 (Some ip) s
                   else
                     let elf = decode_elf bs
                     in bind_res (exec_segments s me ip pagetable 0 (ucast (elf_phoff elf)) [0..<unat (elf_phnum elf)])
                          (\<lambda>(ok, sz, s).
                          if \<not> ok then bad pagetable sz (Some ip) s
                          else
                            bind_res (iunlockput s me ip) (\<lambda>s.
                            bind_res (end_op s me) (\<lambda>s.
                            bind_res (exec_stack s me pagetable sz argv) (\<lambda>(ok, sz, sp, argc, s).
                              if \<not> ok then bad pagetable sz None s
                              else
                                bind_res (exec_commit s me pagetable sz sp (elf_entry elf) path) (\<lambda>s.
                                  Inr (int argc, s))))))))))))"

end
