(* ===== verification/Forkexit.thy ===== *)
theory Forkexit
  imports Exec
begin

text \<open>
  The life cycle functions of \<open>kernel/proc.c\<close> that need the file system: \<open>userinit\<close>,
  \<open>fork\<close>, \<open>exit\<close> and \<open>forkret\<close>.
\<close>

definition initcode :: "uint8 list" where
  "initcode = [
     0x17, 0x05, 0x00, 0x00, 0x13, 0x05, 0x45, 0x02,
     0x97, 0x05, 0x00, 0x00, 0x93, 0x85, 0x35, 0x02,
     0x93, 0x08, 0x70, 0x00, 0x73, 0x00, 0x00, 0x00,
     0x93, 0x08, 0x20, 0x00, 0x73, 0x00, 0x00, 0x00,
     0xef, 0xf0, 0x9f, 0xff, 0x2f, 0x69, 0x6e, 0x69,
     0x74, 0x00, 0x00, 0x24, 0x00, 0x00, 0x00, 0x00,
     0x00, 0x00, 0x00, 0x00]"

definition cstring :: "string \<Rightarrow> uint8 list" where
  "cstring t = map of_char t @ [0]"

definition set_name :: "nat \<Rightarrow> uint8 list \<Rightarrow> 'z kproc_scheme \<Rightarrow> 'z kproc_scheme res" where
  "set_name i nm s =
     bind_res (safestrcpy nm 16) (\<lambda>bs.
       Inr (proc_upd i (\<lambda>p. p\<lparr>p_name := overwrite (p_name p) 0 bs\<rparr>) s))"

definition userinit :: "'z ksys_scheme \<Rightarrow> 'z ksys_scheme res" where
  "userinit s =
     bind_res (allocproc s) (\<lambda>(r, s).
       case r of
         None \<Rightarrow> Inl NullDeref
       | Some i \<Rightarrow>
           let s = s\<lparr>initproc := Some i\<rparr>
           in bind_res (uvmfirst s (p_pagetable (procs s i)) initcode) (\<lambda>s.
                let s = proc_upd i (\<lambda>p. p\<lparr>p_sz := PGSIZE\<rparr>) s;
                    s = tf_set i TF_EPC 0 s;
                    s = tf_set i TF_SP PGSIZE s
                in bind_res (set_name i (cstring ''initcode'') s) (\<lambda>s.
                   bind_res (namei s i (cstring ''/'')) (\<lambda>(ip, s).
                   Inr (proc_upd i (\<lambda>p. p\<lparr>p_cwd := ip, p_state := RUNNABLE\<rparr>) s)))))"

text \<open>The descriptors, each with one more reference.\<close>

definition fork_files :: "nat \<Rightarrow> nat \<Rightarrow> 'z ksys_scheme \<Rightarrow> 'z ksys_scheme res" where
  "fork_files me np s =
     fold_res (\<lambda>i s.
       case p_ofile (procs s me) i of
         None \<Rightarrow> Inr s
       | Some f \<Rightarrow>
           bind_res (filedup s f) (\<lambda>s.
             Inr (proc_upd np (\<lambda>p. p\<lparr>p_ofile := (p_ofile p)(i := Some f)\<rparr>) s))) [0..<NOFILE] s"

definition fork :: "'z ksys_scheme \<Rightarrow> nat \<Rightarrow> (int \<times> 'z ksys_scheme) res" where
  "fork s me =
     bind_res (allocproc s) (\<lambda>(r, s).
       case r of
         None \<Rightarrow> Inr (-1, s)
       | Some np \<Rightarrow>
           bind_res (uvmcopy s (p_pagetable (procs s me)) (p_pagetable (procs s np)) (p_sz (procs s me))) (\<lambda>(c, s).
             if c < 0 then bind_res (freeproc s np) (\<lambda>s. Inr (-1, s))
             else
               let s = proc_upd np (\<lambda>p. p\<lparr>p_sz := p_sz (procs s me)\<rparr>) s;
                   s = s\<lparr>mem := copy_bytes (mem s) (p_trapframe (procs s np)) (p_trapframe (procs s me)) TF_SIZE\<rparr>;
                   s = tf_set np (TF_A 0) 0 s
               in bind_res (fork_files me np s) (\<lambda>s.
                  bind_res (deref (p_cwd (procs s me))) (\<lambda>cwd.
                    let s = proc_upd np (\<lambda>p. p\<lparr>p_cwd := Some cwd\<rparr>) (idup cwd s)
                    in bind_res (set_name np (p_name (procs s me)) s) (\<lambda>s.
                         let pid = p_pid (procs s np);
                             s = proc_upd np (\<lambda>p. p\<lparr>p_parent := Some me\<rparr>) s;
                             s = proc_upd np (\<lambda>p. p\<lparr>p_state := RUNNABLE\<rparr>) s
                         in Inr (pid, s))))))"

definition exit_files :: "nat \<Rightarrow> 'z ksys_scheme \<Rightarrow> 'z ksys_scheme res" where
  "exit_files me s =
     fold_res (\<lambda>fd s.
       case p_ofile (procs s me) fd of
         None \<Rightarrow> Inr s
       | Some f \<Rightarrow>
           bind_res (fileclose s me f) (\<lambda>s.
             Inr (proc_upd me (\<lambda>p. p\<lparr>p_ofile := (p_ofile p)(fd := None)\<rparr>) s))) [0..<NOFILE] s"

text \<open>
  \<open>exit\<close> up to its switch to the scheduler, from which it never returns. A process without a
  parent would wake the sleepers on the null channel, of which there are none.
\<close>

definition exit :: "'z ksys_scheme \<Rightarrow> nat \<Rightarrow> int \<Rightarrow> 'z ksys_scheme res" where
  "exit s me status =
     (if Some me = initproc s then Inl (Panic ''init exiting'')
      else
        bind_res (exit_files me s) (\<lambda>s.
        bind_res (begin_op s me) (\<lambda>s.
        bind_res (deref (p_cwd (procs s me))) (\<lambda>cwd.
        bind_res (iput s me cwd) (\<lambda>s.
        bind_res (end_op s me) (\<lambda>s.
          let s = proc_upd me (\<lambda>p. p\<lparr>p_cwd := None\<rparr>) s
          in bind_res (reparent s me) (\<lambda>s.
               let s = (case p_parent (procs s me) of None \<Rightarrow> s | Some pp \<Rightarrow> wakeup s (Some me) (ChProc pp))
               in Inr (proc_upd me (\<lambda>p. p\<lparr>p_xstate := status, p_state := ZOMBIE, p_etime := ticks s\<rparr>) s))))))))"

text \<open>The first part of \<open>forkret\<close>; it goes on to user space.\<close>

definition forkret :: "'z ksys_scheme \<Rightarrow> nat \<Rightarrow> 'z ksys_scheme res" where
  "forkret s me = (if fork_first s then fsinit (s\<lparr>fork_first := False\<rparr>) me ROOTDEV else Inr s)"

end
