(* ===== verification/Sysfile.thy ===== *)
theory Sysfile
  imports Forkexit
begin

text \<open>
  The file system calls, \<open>kernel/sysfile.c\<close>: argument checks and the transactions around the
  file and inode operations. A system call returns the 64-bit value that goes to \<open>a0\<close>.
\<close>

definition MINUS1 :: uint64 where "MINUS1 = 0xffffffffffffffff"

definition retv :: "int \<Rightarrow> uint64" where
  "retv r = of_int r"

section \<open>Descriptors\<close>

definition argfd :: "'z ksys_scheme \<Rightarrow> nat \<Rightarrow> nat \<Rightarrow> (nat \<times> nat) option res" where
  "argfd s me n =
     bind_res (argint s me n) (\<lambda>fd.
       if fd < 0 \<or> int NOFILE \<le> fd then Inr None
       else case p_ofile (procs s me) (nat fd) of
              None \<Rightarrow> Inr None
            | Some f \<Rightarrow> Inr (Some (nat fd, f)))"

definition fdalloc :: "'z ksys_scheme \<Rightarrow> nat \<Rightarrow> nat \<Rightarrow> int \<times> 'z ksys_scheme" where
  "fdalloc s me f =
     (case find (\<lambda>fd. p_ofile (procs s me) fd = None) [0..<NOFILE] of
        Some fd \<Rightarrow> (int fd, proc_upd me (\<lambda>p. p\<lparr>p_ofile := (p_ofile p)(fd := Some f)\<rparr>) s)
      | None \<Rightarrow> (-1, s))"

definition sys_dup :: "'z ksys_scheme \<Rightarrow> nat \<Rightarrow> (uint64 \<times> 'z ksys_scheme) res" where
  "sys_dup s me =
     bind_res (argfd s me 0) (\<lambda>r.
       case r of
         None \<Rightarrow> Inr (MINUS1, s)
       | Some (_, f) \<Rightarrow>
           (case fdalloc s me f of
              (fd, s) \<Rightarrow>
                if fd < 0 then Inr (MINUS1, s)
                else bind_res (filedup s f) (\<lambda>s. Inr (retv fd, s))))"

definition sys_getreadcount :: "'z ksys_scheme \<Rightarrow> (uint64 \<times> 'z ksys_scheme) res" where
  "sys_getreadcount s = Inr (retv (read_count s), s)"

definition sys_read :: "'z ksys_scheme \<Rightarrow> nat \<Rightarrow> (uint64 \<times> 'z ksys_scheme) res" where
  "sys_read s me =
     (let s = s\<lparr>read_count := read_count s + 1\<rparr>
      in bind_res (argaddr s me 1) (\<lambda>p.
         bind_res (argint s me 2) (\<lambda>n.
         bind_res (argfd s me 0) (\<lambda>r.
         case r of
           None \<Rightarrow> Inr (MINUS1, s)
         | Some (_, f) \<Rightarrow> bind_res (fileread s me f p n) (\<lambda>(v, s). Inr (retv v, s))))))"

definition sys_write :: "'z ksys_scheme \<Rightarrow> nat \<Rightarrow> (uint64 \<times> 'z ksys_scheme) res" where
  "sys_write s me =
     bind_res (argaddr s me 1) (\<lambda>p.
     bind_res (argint s me 2) (\<lambda>n.
     bind_res (argfd s me 0) (\<lambda>r.
     case r of
       None \<Rightarrow> Inr (MINUS1, s)
     | Some (_, f) \<Rightarrow> bind_res (filewrite s me f p n) (\<lambda>(v, s). Inr (retv v, s)))))"

definition sys_close :: "'z ksys_scheme \<Rightarrow> nat \<Rightarrow> (uint64 \<times> 'z ksys_scheme) res" where
  "sys_close s me =
     bind_res (argfd s me 0) (\<lambda>r.
       case r of
         None \<Rightarrow> Inr (MINUS1, s)
       | Some (fd, f) \<Rightarrow>
           bind_res (fileclose (proc_upd me (\<lambda>p. p\<lparr>p_ofile := (p_ofile p)(fd := None)\<rparr>) s) me f) (\<lambda>s.
             Inr (0, s)))"

definition sys_fstat :: "'z ksys_scheme \<Rightarrow> nat \<Rightarrow> (uint64 \<times> 'z ksys_scheme) res" where
  "sys_fstat s me =
     bind_res (argaddr s me 1) (\<lambda>st.
     bind_res (argfd s me 0) (\<lambda>r.
     case r of
       None \<Rightarrow> Inr (MINUS1, s)
     | Some (_, f) \<Rightarrow> bind_res (filestat s me f st) (\<lambda>(v, s). Inr (retv v, s))))"


section \<open>Links\<close>

text \<open>End the transaction and return -1.\<close>

definition fail_op :: "'z ksys_scheme \<Rightarrow> nat \<Rightarrow> (uint64 \<times> 'z ksys_scheme) res" where
  "fail_op s me = bind_res (end_op s me) (\<lambda>s. Inr (MINUS1, s))"

definition sys_link :: "'z ksys_scheme \<Rightarrow> nat \<Rightarrow> (uint64 \<times> 'z ksys_scheme) res" where
  "sys_link s me =
     bind_res (argstr s me 0 MAXPATH) (\<lambda>(r, old).
     if r < 0 then Inr (MINUS1, s)
     else
     bind_res (argstr s me 1 MAXPATH) (\<lambda>(r, new).
     if r < 0 then Inr (MINUS1, s)
     else
       bind_res (begin_op s me) (\<lambda>s.
       bind_res (namei s me old) (\<lambda>(r, s).
       case r of
         None \<Rightarrow> fail_op s me
       | Some ip \<Rightarrow>
           bind_res (ilock s me (Some ip)) (\<lambda>s.
           if i_type (inodes s ip) = T_DIR then bind_res (iunlockput s me ip) (\<lambda>s. fail_op s me)
           else
             let bad = (\<lambda>s.
                   bind_res (ilock s me (Some ip)) (\<lambda>s.
                   bind_res (iupdate (inode_upd ip (\<lambda>x. x\<lparr>i_nlink := i_nlink x - 1\<rparr>) s) me ip) (\<lambda>s.
                   bind_res (iunlockput s me ip) (\<lambda>s. fail_op s me))))
             in bind_res (iupdate (inode_upd ip (\<lambda>x. x\<lparr>i_nlink := i_nlink x + 1\<rparr>) s) me ip) (\<lambda>s.
                bind_res (iunlock s me (Some ip)) (\<lambda>s.
                bind_res (nameiparent s me new) (\<lambda>(r, name, s).
                case r of
                  None \<Rightarrow> bad s
                | Some dp \<Rightarrow>
                    bind_res (ilock s me (Some dp)) (\<lambda>s.
                    bind_res
                      (if i_dev (inodes s dp) \<noteq> i_dev (inodes s ip) then Inr (-1, s)
                       else dirlink s me dp name (i_inum (inodes s ip))) (\<lambda>(c, s).
                    bind_res (iunlockput s me dp) (\<lambda>s.
                    if c < 0 then bad s
                    else
                      bind_res (iput s me ip) (\<lambda>s.
                      bind_res (end_op s me) (\<lambda>s. Inr (0, s))))))))))))))"

primrec isdirempty_loop :: "nat \<Rightarrow> 'z ksys_scheme \<Rightarrow> nat \<Rightarrow> nat \<Rightarrow> uint \<Rightarrow> (bool \<times> 'z ksys_scheme) res" where
  "isdirempty_loop 0 s me dp off = Inl OutOfFuel"
| "isdirempty_loop (Suc fuel) s me dp off =
     (if off < i_size (inodes s dp) then
        bind_res (readi s me dp LocalDst off (of_nat DIRENT_SIZE)) (\<lambda>(r, de, s).
          if r \<noteq> int DIRENT_SIZE then Inl (Panic ''isdirempty: readi'')
          else if get16 de 0 \<noteq> 0 then Inr (False, s)
          else isdirempty_loop fuel s me dp (off + of_nat DIRENT_SIZE))
      else Inr (True, s))"

definition isdirempty :: "'z ksys_scheme \<Rightarrow> nat \<Rightarrow> nat \<Rightarrow> (bool \<times> 'z ksys_scheme) res" where
  "isdirempty s me dp = isdirempty_loop (Suc (unat (i_size (inodes s dp)))) s me dp (of_nat (2 * DIRENT_SIZE))"

definition DOT :: "uint8 list" where "DOT = [46, 0]"
definition DOTDOT :: "uint8 list" where "DOTDOT = [46, 46, 0]"

text \<open>\<open>sys_unlink\<close> after the parent directory is locked; \<open>False\<close> is the jump to \<open>bad\<close>.\<close>

definition unlink_entry :: "'z ksys_scheme \<Rightarrow> nat \<Rightarrow> nat \<Rightarrow> uint8 list \<Rightarrow> (bool \<times> 'z ksys_scheme) res" where
  "unlink_entry s me dp name =
     bind_res (namecmp name DOT) (\<lambda>c.
     if c = 0 then Inr (False, s)
     else
     bind_res (namecmp name DOTDOT) (\<lambda>c.
     if c = 0 then Inr (False, s)
     else
     bind_res (dirlookup s me dp name) (\<lambda>(r, s).
     case r of
       None \<Rightarrow> Inr (False, s)
     | Some (off, ip) \<Rightarrow>
         bind_res (ilock s me (Some ip)) (\<lambda>s.
         if sint (i_nlink (inodes s ip)) < 1 then Inl (Panic ''unlink: nlink < 1'')
         else
         bind_res (if i_type (inodes s ip) = T_DIR then isdirempty s me ip else Inr (True, s)) (\<lambda>(empty, s).
         if \<not> empty then bind_res (iunlockput s me ip) (\<lambda>s. Inr (False, s))
         else
         bind_res (writei s me dp (LocalSrc (replicate DIRENT_SIZE 0)) off (of_nat DIRENT_SIZE)) (\<lambda>(w, s).
         if w \<noteq> int DIRENT_SIZE then Inl (Panic ''unlink: writei'')
         else
         bind_res
           (if i_type (inodes s ip) = T_DIR
            then iupdate (inode_upd dp (\<lambda>x. x\<lparr>i_nlink := i_nlink x - 1\<rparr>) s) me dp else Inr s) (\<lambda>s.
         bind_res (iunlockput s me dp) (\<lambda>s.
         bind_res (iupdate (inode_upd ip (\<lambda>x. x\<lparr>i_nlink := i_nlink x - 1\<rparr>) s) me ip) (\<lambda>s.
         bind_res (iunlockput s me ip) (\<lambda>s.
         Inr (True, s)))))))))))"

definition sys_unlink :: "'z ksys_scheme \<Rightarrow> nat \<Rightarrow> (uint64 \<times> 'z ksys_scheme) res" where
  "sys_unlink s me =
     bind_res (argstr s me 0 MAXPATH) (\<lambda>(r, path).
     if r < 0 then Inr (MINUS1, s)
     else
       bind_res (begin_op s me) (\<lambda>s.
       bind_res (nameiparent s me path) (\<lambda>(r, name, s).
       case r of
         None \<Rightarrow> fail_op s me
       | Some dp \<Rightarrow>
           bind_res (ilock s me (Some dp)) (\<lambda>s.
           bind_res (unlink_entry s me dp name) (\<lambda>(ok, s).
             if ok then bind_res (end_op s me) (\<lambda>s. Inr (0, s))
             else bind_res (iunlockput s me dp) (\<lambda>s. fail_op s me))))))"


section \<open>Creation\<close>

definition create :: "'z ksys_scheme \<Rightarrow> nat \<Rightarrow> uint8 list \<Rightarrow> uint16 \<Rightarrow> uint16 \<Rightarrow> uint16 \<Rightarrow>
    (nat option \<times> 'z ksys_scheme) res" where
  "create s me path type major minor =
     bind_res (nameiparent s me path) (\<lambda>(r, name, s).
     case r of
       None \<Rightarrow> Inr (None, s)
     | Some dp \<Rightarrow>
         bind_res (ilock s me (Some dp)) (\<lambda>s.
         bind_res (dirlookup s me dp name) (\<lambda>(r, s).
         case r of
           Some (_, ip) \<Rightarrow>
             bind_res (iunlockput s me dp) (\<lambda>s.
             bind_res (ilock s me (Some ip)) (\<lambda>s.
             if type = T_FILE \<and> (i_type (inodes s ip) = T_FILE \<or> i_type (inodes s ip) = T_DEVICE)
             then Inr (Some ip, s)
             else bind_res (iunlockput s me ip) (\<lambda>s. Inr (None, s))))
         | None \<Rightarrow>
             bind_res (ialloc s me (i_dev (inodes s dp)) type) (\<lambda>(r, s).
             case r of
               None \<Rightarrow> bind_res (iunlockput s me dp) (\<lambda>s. Inr (None, s))
             | Some ip \<Rightarrow>
                 bind_res (ilock s me (Some ip)) (\<lambda>s.
                 bind_res (iupdate (inode_upd ip (\<lambda>x. x\<lparr>i_major := major, i_minor := minor, i_nlink := 1\<rparr>) s) me ip) (\<lambda>s.
                 let fail = (\<lambda>s.
                       bind_res (iupdate (inode_upd ip (\<lambda>x. x\<lparr>i_nlink := 0\<rparr>) s) me ip) (\<lambda>s.
                       bind_res (iunlockput s me ip) (\<lambda>s.
                       bind_res (iunlockput s me dp) (\<lambda>s. Inr (None, s)))))
                 in bind_res
                      (if type = T_DIR then
                         bind_res (dirlink s me ip DOT (i_inum (inodes s ip))) (\<lambda>(c, s).
                         if c < 0 then Inr (c, s)
                         else dirlink s me ip DOTDOT (i_inum (inodes s dp)))
                       else Inr (0, s)) (\<lambda>(c, s).
                    if c < 0 then fail s
                    else
                    bind_res (dirlink s me dp name (i_inum (inodes s ip))) (\<lambda>(c, s).
                    if c < 0 then fail s
                    else
                    bind_res
                      (if type = T_DIR
                       then iupdate (inode_upd dp (\<lambda>x. x\<lparr>i_nlink := i_nlink x + 1\<rparr>) s) me dp else Inr s) (\<lambda>s.
                    bind_res (iunlockput s me dp) (\<lambda>s. Inr (Some ip, s)))))))))))"

definition O_RDONLY :: int where "O_RDONLY = 0"
definition O_WRONLY :: int where "O_WRONLY = 1"
definition O_RDWR :: int where "O_RDWR = 2"
definition O_CREATE :: int where "O_CREATE = 0x200"
definition O_TRUNC :: int where "O_TRUNC = 0x400"

definition sys_open :: "'z ksys_scheme \<Rightarrow> nat \<Rightarrow> (uint64 \<times> 'z ksys_scheme) res" where
  "sys_open s me =
     bind_res (argint s me 1) (\<lambda>omode.
     bind_res (argstr s me 0 MAXPATH) (\<lambda>(n, path).
     if n < 0 then Inr (MINUS1, s)
     else
       bind_res (begin_op s me) (\<lambda>s.
       bind_res
         (if omode AND O_CREATE \<noteq> 0 then create s me path T_FILE 0 0
          else
            bind_res (namei s me path) (\<lambda>(r, s).
            case r of
              None \<Rightarrow> Inr (None, s)
            | Some ip \<Rightarrow>
                bind_res (ilock s me (Some ip)) (\<lambda>s.
                if i_type (inodes s ip) = T_DIR \<and> omode \<noteq> O_RDONLY
                then bind_res (iunlockput s me ip) (\<lambda>s. Inr (None, s))
                else Inr (Some ip, s)))) (\<lambda>(r, s).
       case r of
         None \<Rightarrow> fail_op s me
       | Some ip \<Rightarrow>
           if i_type (inodes s ip) = T_DEVICE \<and>
              (sint (i_major (inodes s ip)) < 0 \<or> int NDEV \<le> sint (i_major (inodes s ip)))
           then bind_res (iunlockput s me ip) (\<lambda>s. fail_op s me)
           else
             (case filealloc s of
                (None, s) \<Rightarrow> bind_res (iunlockput s me ip) (\<lambda>s. fail_op s me)
              | (Some f, s) \<Rightarrow>
                  (case fdalloc s me f of
                     (fd, s) \<Rightarrow>
                       if fd < 0 then
                         bind_res (fileclose s me f) (\<lambda>s.
                         bind_res (iunlockput s me ip) (\<lambda>s. fail_op s me))
                       else
                         let s = (if i_type (inodes s ip) = T_DEVICE
                                  then file_upd f (\<lambda>x. x\<lparr>f_type := FD_DEVICE, f_major := i_major (inodes s ip)\<rparr>) s
                                  else file_upd f (\<lambda>x. x\<lparr>f_type := FD_INODE, f_off := 0\<rparr>) s);
                             s = file_upd f (\<lambda>x. x\<lparr>f_ip := Some ip, f_readable := (omode AND O_WRONLY = 0),
                                   f_writable := (omode AND O_WRONLY \<noteq> 0 \<or> omode AND O_RDWR \<noteq> 0)\<rparr>) s
                         in bind_res
                              (if omode AND O_TRUNC \<noteq> 0 \<and> i_type (inodes s ip) = T_FILE
                               then itrunc s me ip else Inr s) (\<lambda>s.
                            bind_res (iunlock s me (Some ip)) (\<lambda>s.
                            bind_res (end_op s me) (\<lambda>s. Inr (retv fd, s))))))))))"

definition sys_mkdir :: "'z ksys_scheme \<Rightarrow> nat \<Rightarrow> (uint64 \<times> 'z ksys_scheme) res" where
  "sys_mkdir s me =
     bind_res (begin_op s me) (\<lambda>s.
     bind_res (argstr s me 0 MAXPATH) (\<lambda>(n, path).
     if n < 0 then fail_op s me
     else
     bind_res (create s me path T_DIR 0 0) (\<lambda>(r, s).
     case r of
       None \<Rightarrow> fail_op s me
     | Some ip \<Rightarrow>
         bind_res (iunlockput s me ip) (\<lambda>s.
         bind_res (end_op s me) (\<lambda>s. Inr (0, s))))))"

definition sys_mknod :: "'z ksys_scheme \<Rightarrow> nat \<Rightarrow> (uint64 \<times> 'z ksys_scheme) res" where
  "sys_mknod s me =
     bind_res (begin_op s me) (\<lambda>s.
     bind_res (argint s me 1) (\<lambda>major.
     bind_res (argint s me 2) (\<lambda>minor.
     bind_res (argstr s me 0 MAXPATH) (\<lambda>(n, path).
     if n < 0 then fail_op s me
     else
     bind_res (create s me path T_DEVICE (of_int major) (of_int minor)) (\<lambda>(r, s).
     case r of
       None \<Rightarrow> fail_op s me
     | Some ip \<Rightarrow>
         bind_res (iunlockput s me ip) (\<lambda>s.
         bind_res (end_op s me) (\<lambda>s. Inr (0, s))))))))"

definition sys_chdir :: "'z ksys_scheme \<Rightarrow> nat \<Rightarrow> (uint64 \<times> 'z ksys_scheme) res" where
  "sys_chdir s me =
     bind_res (begin_op s me) (\<lambda>s.
     bind_res (argstr s me 0 MAXPATH) (\<lambda>(n, path).
     if n < 0 then fail_op s me
     else
     bind_res (namei s me path) (\<lambda>(r, s).
     case r of
       None \<Rightarrow> fail_op s me
     | Some ip \<Rightarrow>
         bind_res (ilock s me (Some ip)) (\<lambda>s.
         if i_type (inodes s ip) \<noteq> T_DIR then bind_res (iunlockput s me ip) (\<lambda>s. fail_op s me)
         else
         bind_res (iunlock s me (Some ip)) (\<lambda>s.
         bind_res (deref (p_cwd (procs s me))) (\<lambda>cwd.
         bind_res (iput s me cwd) (\<lambda>s.
         bind_res (end_op s me) (\<lambda>s.
         Inr (0, proc_upd me (\<lambda>p. p\<lparr>p_cwd := Some ip\<rparr>) s)))))))))"


section \<open>exec and pipe\<close>

text \<open>
  The argument vector of \<open>sys_exec\<close>: for each pointer a page is allocated and the string copied
  into it. The pages are listed so that they can be freed; \<open>False\<close> is the jump to \<open>bad\<close>.
\<close>

fun fetch_args :: "'z ksys_scheme \<Rightarrow> nat \<Rightarrow> uint64 \<Rightarrow> uint64 list \<Rightarrow> uint8 list list \<Rightarrow> nat list \<Rightarrow>
    (bool \<times> uint64 list \<times> uint8 list list \<times> 'z ksys_scheme) res" where
  "fetch_args s me uargv pages argv [] = Inr (False, pages, argv, s)"
| "fetch_args s me uargv pages argv (i # is) =
     bind_res (fetchaddr s me (uargv + 8 * of_nat i)) (\<lambda>(r, uarg).
     if r < 0 then Inr (False, pages, argv, s)
     else if uarg = 0 then Inr (True, pages, argv, s)
     else
     bind_res (kalloc s) (\<lambda>(pa, s).
     if pa = 0 then Inr (False, pages, argv, s)
     else
     bind_res (fetchstr s me uarg 4096) (\<lambda>(r, bs).
     let s = s\<lparr>mem := store_bytes (mem s) pa bs\<rparr>
     in if r < 0 then Inr (False, pages @ [pa], argv, s)
        else fetch_args s me uargv (pages @ [pa]) (argv @ [bs]) is)))"

definition sys_exec :: "'z ksys_scheme \<Rightarrow> nat \<Rightarrow> (uint64 \<times> 'z ksys_scheme) res" where
  "sys_exec s me =
     bind_res (argaddr s me 1) (\<lambda>uargv.
     bind_res (argstr s me 0 MAXPATH) (\<lambda>(r, path).
     if r < 0 then Inr (MINUS1, s)
     else
       bind_res (fetch_args s me uargv [] [] [0..<MAXARG]) (\<lambda>(ok, pages, argv, s).
       bind_res (if ok then exec s me path argv else Inr (-1, s)) (\<lambda>(ret, s).
       bind_res (fold_res (\<lambda>pa s. kfree s pa) pages s) (\<lambda>s. Inr (retv ret, s))))))"

definition sys_pipe :: "'z ksys_scheme \<Rightarrow> nat \<Rightarrow> (uint64 \<times> 'z ksys_scheme) res" where
  "sys_pipe s me =
     bind_res (argaddr s me 0) (\<lambda>fdarray.
     bind_res (pipealloc s me) (\<lambda>(c, rfile, wfile, s).
     case (rfile, wfile) of
       (Some rfile, Some wfile) \<Rightarrow>
         if c < 0 then Inr (MINUS1, s)
         else
           let close2 = (\<lambda>s.
                 bind_res (fileclose s me rfile) (\<lambda>s.
                 bind_res (fileclose s me wfile) (\<lambda>s. Inr (MINUS1, s))));
               clear = (\<lambda>fd s. proc_upd me (\<lambda>p. p\<lparr>p_ofile := (p_ofile p)(nat fd := None)\<rparr>) s)
           in (case fdalloc s me rfile of
                 (fd0, s) \<Rightarrow>
                   if fd0 < 0 then close2 s
                   else
                     (case fdalloc s me wfile of
                        (fd1, s) \<Rightarrow>
                          if fd1 < 0 then close2 (clear fd0 s)
                          else
                            bind_res (copyout s (p_pagetable (procs s me)) fdarray (bytes32 (of_int fd0))) (\<lambda>(r, s).
                            bind_res
                              (if r < 0 then Inr (r, s)
                               else copyout s (p_pagetable (procs s me)) (fdarray + 4) (bytes32 (of_int fd1))) (\<lambda>(r, s).
                            if r < 0 then close2 (clear fd1 (clear fd0 s))
                            else Inr (0, s)))))
     | _ \<Rightarrow> Inr (MINUS1, s)))"

end
