(* ===== verification/Sysproc.thy ===== *)
theory Sysproc
  imports Sysfile
begin

text \<open>
  The process system calls, \<open>kernel/sysproc.c\<close>, and the dispatcher \<open>syscall\<close> of
  \<open>kernel/syscall.c\<close>. A call that sleeps returns \<open>Waits\<close> with what it needs to go on;
  \<open>sys_resume\<close> is the next round, after the process was woken and scheduled.
\<close>

datatype pending =
    PWait uint64                    \<comment> \<open>in \<open>wait\<close>\<close>
  | PWaitx uint64 uint64 uint64     \<comment> \<open>in \<open>waitx\<close>\<close>
  | PSleep uint int                 \<comment> \<open>in \<open>sys_sleep\<close>: \<open>ticks0\<close> and \<open>n\<close>\<close>
  | PReturn uint64                  \<comment> \<open>after a \<open>yield\<close>\<close>
  | PGone                           \<comment> \<open>after \<open>exit\<close>\<close>

type_synonym 's sysret = "((uint64, pending) progress \<times> 's) res"

definition done_call :: "(uint64 \<times> 's) res \<Rightarrow> 's sysret" where
  "done_call r = bind_res r (\<lambda>(v, s). Inr (Done v, s))"


section \<open>Alarms and priorities\<close>

definition sys_sigalarm :: "'z ksys_scheme \<Rightarrow> nat \<Rightarrow> (uint64 \<times> 'z ksys_scheme) res" where
  "sys_sigalarm s me =
     (let s = proc_upd me (\<lambda>p. p\<lparr>p_current_ticks := 0\<rparr>) s
      in bind_res (argint s me 0) (\<lambda>n.
           let s = proc_upd me (\<lambda>p. p\<lparr>p_ticks := n\<rparr>) s
           in bind_res (argaddr s me 1) (\<lambda>h.
                Inr (0, proc_upd me (\<lambda>p. p\<lparr>p_handler := h\<rparr>) s))))"

definition sys_sigreturn :: "'z ksys_scheme \<Rightarrow> nat \<Rightarrow> (uint64 \<times> 'z ksys_scheme) res" where
  "sys_sigreturn s me =
     (let p = procs s me
      in if p_sigalarm p = 0 then Inl NullDeref
         else
           let s = s\<lparr>mem := memmove (mem s) (p_trapframe p) (p_sigalarm p) 4096\<rparr>
           in bind_res (kfree s (p_sigalarm p)) (\<lambda>s.
                let s = proc_upd me (\<lambda>p. p\<lparr>p_current_ticks := 0\<rparr>) s
                in Inr (tf_get s me (TF_A 0), s)))"

definition sys_set_priority :: "'z ksys_scheme \<Rightarrow> nat \<Rightarrow> 'z ksys_scheme sysret" where
  "sys_set_priority s me =
     bind_res (argint s me 0) (\<lambda>priority.
     bind_res (argint s me 1) (\<lambda>pid.
       case proc_find (\<lambda>p. p_pid p = pid) s of
         None \<Rightarrow>
           bind_res (printf_fmt (''Process with PID %d does not exist'' @ [CHR 10]) [ArgInt (of_int pid)]) (\<lambda>t.
             Inr (Done MINUS1, kprint t s))
       | Some i \<Rightarrow>
           let oldpriority = p_priority (procs s i);
               s = proc_upd i (\<lambda>p. p\<lparr>p_dynamic_priority := priority + 25, p_priority := priority\<rparr>) s
           in if priority < oldpriority then Inr (Waits (PReturn (retv oldpriority)), yield s me)
              else Inr (Done (retv oldpriority), s)))"


section \<open>Processes and time\<close>

definition sys_exit :: "'z ksys_scheme \<Rightarrow> nat \<Rightarrow> 'z ksys_scheme sysret" where
  "sys_exit s me =
     bind_res (argint s me 0) (\<lambda>n.
     bind_res (exit s me n) (\<lambda>s. Inr (Waits PGone, s)))"

definition sys_getpid :: "'z ksys_scheme \<Rightarrow> nat \<Rightarrow> (uint64 \<times> 'z ksys_scheme) res" where
  "sys_getpid s me = Inr (retv (p_pid (procs s me)), s)"

definition sys_fork :: "'z ksys_scheme \<Rightarrow> nat \<Rightarrow> (uint64 \<times> 'z ksys_scheme) res" where
  "sys_fork s me = bind_res (fork s me) (\<lambda>(v, s). Inr (retv v, s))"

definition sys_wait_round :: "'z ksys_scheme \<Rightarrow> nat \<Rightarrow> uint64 \<Rightarrow> 'z ksys_scheme sysret" where
  "sys_wait_round s me p =
     bind_res (wait_step s me p) (\<lambda>(out, s).
       case out of Return v \<Rightarrow> Inr (Done (retv v), s) | Sleeps \<Rightarrow> Inr (Waits (PWait p), s))"

definition sys_wait :: "'z ksys_scheme \<Rightarrow> nat \<Rightarrow> 'z ksys_scheme sysret" where
  "sys_wait s me = bind_res (argaddr s me 0) (\<lambda>p. sys_wait_round s me p)"

definition sys_sbrk :: "'z ksys_scheme \<Rightarrow> nat \<Rightarrow> (uint64 \<times> 'z ksys_scheme) res" where
  "sys_sbrk s me =
     bind_res (argint s me 0) (\<lambda>n.
       let addr = p_sz (procs s me)
       in bind_res (growproc s me n) (\<lambda>(r, s).
            Inr (if r < 0 then MINUS1 else addr, s)))"

text \<open>The comparison \<open>ticks - ticks0 < n\<close> is unsigned.\<close>

definition sys_sleep_round :: "'z ksys_scheme \<Rightarrow> nat \<Rightarrow> uint \<Rightarrow> int \<Rightarrow> 'z ksys_scheme sysret" where
  "sys_sleep_round s me ticks0 n =
     (if ticks s - ticks0 < of_int n then
        if killed s me then Inr (Done MINUS1, s)
        else Inr (Waits (PSleep ticks0 n), sleep_begin s me ChTicks)
      else Inr (Done 0, s))"

definition sys_sleep :: "'z ksys_scheme \<Rightarrow> nat \<Rightarrow> 'z ksys_scheme sysret" where
  "sys_sleep s me = bind_res (argint s me 0) (\<lambda>n. sys_sleep_round s me (ticks s) n)"

definition sys_kill :: "'z ksys_scheme \<Rightarrow> nat \<Rightarrow> (uint64 \<times> 'z ksys_scheme) res" where
  "sys_kill s me =
     bind_res (argint s me 0) (\<lambda>pid.
       case kill s pid of (r, s) \<Rightarrow> Inr (retv r, s))"

definition sys_uptime :: "'z ksys_scheme \<Rightarrow> (uint64 \<times> 'z ksys_scheme) res" where
  "sys_uptime s = Inr (ucast (ticks s), s)"

text \<open>When \<open>waitx\<close> returns without a child, \<open>wtime\<close> and \<open>rtime\<close> hold what was on the stack.\<close>

definition sys_waitx_round :: "'z ksys_scheme \<Rightarrow> nat \<Rightarrow> uint64 \<Rightarrow> uint64 \<Rightarrow> uint64 \<Rightarrow> 'z ksys_scheme sysret" where
  "sys_waitx_round s me addr addr1 addr2 =
     bind_res (waitx_step s me addr) (\<lambda>(out, s).
       case out of
         Sleeps \<Rightarrow> Inr (Waits (PWaitx addr addr1 addr2), s)
       | Return (ret, tm) \<Rightarrow>
           (case (case tm of Some t \<Rightarrow> t | None \<Rightarrow> stack_words s) of
              (wtime, rtime) \<Rightarrow>
                bind_res (copyout s (p_pagetable (procs s me)) addr1 (bytes32 wtime)) (\<lambda>(r, s).
                if r < 0 then Inr (Done MINUS1, s)
                else
                bind_res (copyout s (p_pagetable (procs s me)) addr2 (bytes32 rtime)) (\<lambda>(r, s).
                if r < 0 then Inr (Done MINUS1, s)
                else Inr (Done (retv ret), s)))))"

definition sys_waitx :: "'z ksys_scheme \<Rightarrow> nat \<Rightarrow> 'z ksys_scheme sysret" where
  "sys_waitx s me =
     bind_res (argaddr s me 0) (\<lambda>addr.
     bind_res (argaddr s me 1) (\<lambda>addr1.
     bind_res (argaddr s me 2) (\<lambda>addr2.
     sys_waitx_round s me addr addr1 addr2)))"


section \<open>Dispatch\<close>

definition syscalls :: "int \<Rightarrow> ('z ksys_scheme \<Rightarrow> nat \<Rightarrow> 'z ksys_scheme sysret) option" where
  "syscalls num =
     (if num = 1 then Some (\<lambda>s me. done_call (sys_fork s me))
      else if num = 2 then Some sys_exit
      else if num = 3 then Some sys_wait
      else if num = 4 then Some (\<lambda>s me. done_call (sys_pipe s me))
      else if num = 5 then Some (\<lambda>s me. done_call (sys_read s me))
      else if num = 6 then Some (\<lambda>s me. done_call (sys_kill s me))
      else if num = 7 then Some (\<lambda>s me. done_call (sys_exec s me))
      else if num = 8 then Some (\<lambda>s me. done_call (sys_fstat s me))
      else if num = 9 then Some (\<lambda>s me. done_call (sys_chdir s me))
      else if num = 10 then Some (\<lambda>s me. done_call (sys_dup s me))
      else if num = 11 then Some (\<lambda>s me. done_call (sys_getpid s me))
      else if num = 12 then Some (\<lambda>s me. done_call (sys_sbrk s me))
      else if num = 13 then Some sys_sleep
      else if num = 14 then Some (\<lambda>s me. done_call (sys_uptime s))
      else if num = 15 then Some (\<lambda>s me. done_call (sys_open s me))
      else if num = 16 then Some (\<lambda>s me. done_call (sys_write s me))
      else if num = 17 then Some (\<lambda>s me. done_call (sys_mknod s me))
      else if num = 18 then Some (\<lambda>s me. done_call (sys_unlink s me))
      else if num = 19 then Some (\<lambda>s me. done_call (sys_link s me))
      else if num = 20 then Some (\<lambda>s me. done_call (sys_mkdir s me))
      else if num = 21 then Some (\<lambda>s me. done_call (sys_close s me))
      else if num = 22 then Some sys_waitx
      else if num = 23 then Some (\<lambda>s me. done_call (sys_getreadcount s))
      else if num = 24 then Some (\<lambda>s me. done_call (sys_sigalarm s me))
      else if num = 25 then Some (\<lambda>s me. done_call (sys_sigreturn s me))
      else if num = 26 then Some sys_set_priority
      else None)"

text \<open>The value goes to \<open>a0\<close> when the call returns, at once or after it waited.\<close>

definition set_result :: "nat \<Rightarrow> 'z ksys_scheme sysret \<Rightarrow> ((unit, pending) progress \<times> 'z ksys_scheme) res" where
  "set_result me r =
     bind_res r (\<lambda>(p, s).
       case p of
         Done v \<Rightarrow> Inr (Done (), tf_set me (TF_A 0) v s)
       | Waits w \<Rightarrow> Inr (Waits w, s))"

definition syscall :: "'z ksys_scheme \<Rightarrow> nat \<Rightarrow> ((unit, pending) progress \<times> 'z ksys_scheme) res" where
  "syscall s me =
     (let num = sint (ucast (tf_get s me (TF_A 7)) :: uint32)
      in case syscalls num of
           Some f \<Rightarrow> set_result me (f s me)
         | None \<Rightarrow>
             bind_res (printf_fmt (''%d %s: unknown sys call %d'' @ [CHR 10])
               [ArgInt (of_int (p_pid (procs s me))), ArgStr (Some (text_of (p_name (procs s me)))), ArgInt (of_int num)]) (\<lambda>t.
               Inr (Done (), tf_set me (TF_A 0) MINUS1 (kprint t s))))"

definition sys_resume :: "'z ksys_scheme \<Rightarrow> nat \<Rightarrow> pending \<Rightarrow> ((unit, pending) progress \<times> 'z ksys_scheme) res" where
  "sys_resume s me w =
     (case w of
        PWait p \<Rightarrow> set_result me (sys_wait_round (sleep_end s me) me p)
      | PWaitx a b c \<Rightarrow> set_result me (sys_waitx_round (sleep_end s me) me a b c)
      | PSleep t n \<Rightarrow> set_result me (sys_sleep_round (sleep_end s me) me t n)
      | PReturn v \<Rightarrow> set_result me (Inr (Done v, s))
      | PGone \<Rightarrow> Inl (Panic ''zombie exit''))"

end
