(* ===== verification/Spinlock.thy ===== *)
theory Spinlock
  imports Proc
begin

text \<open>
  Spin locks and the interrupt nesting of \<open>kernel/spinlock.c\<close>, the per-CPU state of
  \<open>kernel/proc.h\<close>, and the checks of \<open>sched\<close> in \<open>kernel/proc.c\<close>. \<open>acquire\<close> and
  \<open>release\<close> are split where another hart can run in between: at the atomic swap, at the
  write of \<open>lk->cpu\<close> and at the final unlock. \<open>lock_step\<close> interleaves these pieces on any
  number of harts. The other theories treat a critical section as one step; the mutual
  exclusion shown here is what allows it.
\<close>

section \<open>The operations\<close>

record spinlock =
  lk_locked :: uint
  lk_name :: string
  lk_cpu :: "nat option"

text \<open>\<open>c_sie\<close> is the hart's interrupt-enable bit, read by \<open>intr_get\<close>.\<close>

record cpu =
  c_proc :: "nat option"
  c_noff :: int
  c_intena :: bool
  c_sie :: bool

record kcpu = kproc +
  cpus :: "nat \<Rightarrow> cpu"

definition initlock :: "string \<Rightarrow> spinlock" where
  "initlock name = \<lparr>lk_locked = 0, lk_name = name, lk_cpu = None\<rparr>"

definition holding :: "spinlock \<Rightarrow> nat \<Rightarrow> bool" where
  "holding lk hart \<longleftrightarrow> lk_locked lk \<noteq> 0 \<and> lk_cpu lk = Some hart"

definition push_off :: "cpu \<Rightarrow> cpu" where
  "push_off c =
     (let old = c_sie c;
          c = c\<lparr>c_sie := False\<rparr>;
          c = (if c_noff c = 0 then c\<lparr>c_intena := old\<rparr> else c)
      in c\<lparr>c_noff := c_noff c + 1\<rparr>)"

definition pop_off :: "cpu \<Rightarrow> cpu res" where
  "pop_off c =
     (if c_sie c then Inl (Panic ''pop_off - interruptible'')
      else if c_noff c < 1 then Inl (Panic ''pop_off'')
      else
        let c = c\<lparr>c_noff := c_noff c - 1\<rparr>
        in Inr (if c_noff c = 0 \<and> c_intena c then c\<lparr>c_sie := True\<rparr> else c))"

text \<open>\<open>acquire\<close>: up to the swap, one swap, after it.\<close>

definition acquire_enter :: "cpu \<Rightarrow> spinlock \<Rightarrow> nat \<Rightarrow> cpu res" where
  "acquire_enter c lk hart =
     (let c = push_off c
      in if holding lk hart then Inl (Panic ''acquire'') else Inr c)"

definition test_and_set :: "spinlock \<Rightarrow> uint \<times> spinlock" where
  "test_and_set lk = (lk_locked lk, lk\<lparr>lk_locked := 1\<rparr>)"

definition acquire_done :: "spinlock \<Rightarrow> nat \<Rightarrow> spinlock" where
  "acquire_done lk hart = lk\<lparr>lk_cpu := Some hart\<rparr>"

text \<open>\<open>release\<close>: up to the unlock, the unlock; \<open>pop_off\<close> follows.\<close>

definition release_enter :: "spinlock \<Rightarrow> nat \<Rightarrow> spinlock res" where
  "release_enter lk hart =
     (if \<not> holding lk hart then Inl (Panic ''release'') else Inr (lk\<lparr>lk_cpu := None\<rparr>))"

definition release_unlock :: "spinlock \<Rightarrow> spinlock" where
  "release_unlock lk = lk\<lparr>lk_locked := 0\<rparr>"

text \<open>Both run by one hart without interference; \<open>acquire\<close> of a taken lock spins, which is \<open>None\<close>.\<close>

definition acquire :: "cpu \<Rightarrow> spinlock \<Rightarrow> nat \<Rightarrow> (cpu \<times> spinlock) option res" where
  "acquire c lk hart =
     bind_res (acquire_enter c lk hart) (\<lambda>c.
       case test_and_set lk of
         (old, lk) \<Rightarrow> Inr (if old = 0 then Some (c, acquire_done lk hart) else None))"

definition release :: "cpu \<Rightarrow> spinlock \<Rightarrow> nat \<Rightarrow> (cpu \<times> spinlock) res" where
  "release c lk hart =
     bind_res (release_enter lk hart) (\<lambda>lk.
       bind_res (pop_off c) (\<lambda>c. Inr (c, release_unlock lk)))"

text \<open>The checks of \<open>sched\<close>; the switch itself saves and restores \<open>intena\<close>.\<close>

definition sched :: "cpu \<Rightarrow> spinlock \<Rightarrow> nat \<Rightarrow> procstate \<Rightarrow> unit res" where
  "sched c plock hart st =
     (if \<not> holding plock hart then Inl (Panic ''sched p->lock'')
      else if c_noff c \<noteq> 1 then Inl (Panic ''sched locks'')
      else if st = RUNNING then Inl (Panic ''sched running'')
      else if c_sie c then Inl (Panic ''sched interruptible'')
      else Inr ())"

text \<open>The way \<open>yield\<close> and \<open>sleep\<close> take the locks before they call \<open>sched\<close>.\<close>

definition yield_locks :: "cpu \<Rightarrow> spinlock \<Rightarrow> nat \<Rightarrow> unit option res" where
  "yield_locks c plock hart =
     bind_res (acquire c plock hart) (\<lambda>r.
       case r of
         None \<Rightarrow> Inr None
       | Some (c, plock) \<Rightarrow> bind_res (sched c plock hart RUNNABLE) (\<lambda>_. Inr (Some ())))"

definition sleep_locks :: "cpu \<Rightarrow> spinlock \<Rightarrow> spinlock \<Rightarrow> nat \<Rightarrow> unit option res" where
  "sleep_locks c plock lk hart =
     bind_res (acquire c plock hart) (\<lambda>r.
       case r of
         None \<Rightarrow> Inr None
       | Some (c, plock) \<Rightarrow>
           bind_res (release c lk hart) (\<lambda>(c, lk).
             bind_res (sched c plock hart SLEEPING) (\<lambda>_. Inr (Some ()))))"


section \<open>Interleaving\<close>

text \<open>Where a hart is in \<open>acquire\<close> or \<open>release\<close>; \<open>m_held\<close> are the locks it has acquired and not yet begun to release.\<close>

datatype lockpc = Outside | Spinning nat | Got nat | Unlocking nat | Popping

record machine =
  m_cpus :: "nat \<Rightarrow> cpu"
  m_locks :: "nat \<Rightarrow> spinlock"
  m_pc :: "nat \<Rightarrow> lockpc"
  m_held :: "nat \<Rightarrow> nat list"

inductive lock_step :: "machine \<Rightarrow> machine \<Rightarrow> bool" where
  ls_enter: "m_pc m h = Outside \<Longrightarrow> acquire_enter (m_cpus m h) (m_locks m l) h = Inr c \<Longrightarrow>
    lock_step m (m\<lparr>m_cpus := (m_cpus m)(h := c), m_pc := (m_pc m)(h := Spinning l)\<rparr>)"
| ls_spin: "m_pc m h = Spinning l \<Longrightarrow> test_and_set (m_locks m l) = (old, lk) \<Longrightarrow> old \<noteq> 0 \<Longrightarrow>
    lock_step m (m\<lparr>m_locks := (m_locks m)(l := lk)\<rparr>)"
| ls_got: "m_pc m h = Spinning l \<Longrightarrow> test_and_set (m_locks m l) = (old, lk) \<Longrightarrow> old = 0 \<Longrightarrow>
    lock_step m (m\<lparr>m_locks := (m_locks m)(l := lk), m_pc := (m_pc m)(h := Got l)\<rparr>)"
| ls_own: "m_pc m h = Got l \<Longrightarrow>
    lock_step m (m\<lparr>m_locks := (m_locks m)(l := acquire_done (m_locks m l) h), m_pc := (m_pc m)(h := Outside),
      m_held := (m_held m)(h := l # m_held m h)\<rparr>)"
| ls_release: "m_pc m h = Outside \<Longrightarrow> release_enter (m_locks m l) h = Inr lk \<Longrightarrow>
    lock_step m (m\<lparr>m_locks := (m_locks m)(l := lk), m_pc := (m_pc m)(h := Unlocking l),
      m_held := (m_held m)(h := remove1 l (m_held m h))\<rparr>)"
| ls_unlock: "m_pc m h = Unlocking l \<Longrightarrow>
    lock_step m (m\<lparr>m_locks := (m_locks m)(l := release_unlock (m_locks m l)), m_pc := (m_pc m)(h := Popping)\<rparr>)"
| ls_pop: "m_pc m h = Popping \<Longrightarrow> pop_off (m_cpus m h) = Inr c \<Longrightarrow>
    lock_step m (m\<lparr>m_cpus := (m_cpus m)(h := c), m_pc := (m_pc m)(h := Outside)\<rparr>)"
| ls_intr: "m_pc m h = Outside \<Longrightarrow> c_noff (m_cpus m h) = 0 \<Longrightarrow>
    lock_step m (m\<lparr>m_cpus := (m_cpus m)(h := (m_cpus m h)\<lparr>c_sie := b\<rparr>)\<rparr>)"

definition lock_init :: "machine \<Rightarrow> bool" where
  "lock_init m \<longleftrightarrow> (\<forall>l. lk_locked (m_locks m l) = 0 \<and> lk_cpu (m_locks m l) = None) \<and>
     (\<forall>h. m_pc m h = Outside \<and> m_held m h = [] \<and> c_noff (m_cpus m h) = 0)"

text \<open>A hart owns a lock from its successful swap to its unlock.\<close>

definition owns :: "machine \<Rightarrow> nat \<Rightarrow> nat \<Rightarrow> bool" where
  "owns m h l \<longleftrightarrow> l \<in> set (m_held m h) \<or> m_pc m h = Got l \<or> m_pc m h = Unlocking l"

definition lock_inv :: "machine \<Rightarrow> bool" where
  "lock_inv m \<longleftrightarrow>
     (\<forall>h l. owns m h l \<longrightarrow> lk_locked (m_locks m l) \<noteq> 0) \<and>
     (\<forall>h h' l. owns m h l \<longrightarrow> owns m h' l \<longrightarrow> h = h') \<and>
     (\<forall>h l. lk_cpu (m_locks m l) = Some h \<longleftrightarrow> l \<in> set (m_held m h)) \<and>
     (\<forall>h l. m_pc m h = Got l \<or> m_pc m h = Unlocking l \<longrightarrow> l \<notin> set (m_held m h)) \<and>
     (\<forall>h. distinct (m_held m h)) \<and>
     (\<forall>h. c_noff (m_cpus m h) = int (length (m_held m h)) + (if m_pc m h = Outside then 0 else 1)) \<and>
     (\<forall>h. 0 < c_noff (m_cpus m h) \<longrightarrow> \<not> c_sie (m_cpus m h))"

lemma lock_inv_init: "lock_init m \<Longrightarrow> lock_inv m"
  by (auto simp: lock_init_def lock_inv_def owns_def)

lemma length_remove1_int: "x \<in> set xs \<Longrightarrow> int (length (remove1 x xs)) = int (length xs) - 1"
  using length_pos_if_in_set [of x xs] by (simp add: length_remove1 of_nat_diff Suc_leI)

lemma lock_inv_step:
  assumes "lock_step m m'" "lock_inv m"
  shows "lock_inv m'"
  using assms
proof (induction rule: lock_step.induct)
  case (ls_enter m h l c)
  then show ?case
    by (auto simp: lock_inv_def owns_def acquire_enter_def push_off_def Let_def split: if_splits)
next
  case (ls_spin m h l old lk)
  then show ?case by (auto simp: lock_inv_def owns_def test_and_set_def)
next
  case (ls_got m h l old lk)
  then show ?case by (auto simp: lock_inv_def owns_def test_and_set_def)
next
  case (ls_own m h l)
  then show ?case by (auto simp: lock_inv_def owns_def acquire_done_def)
next
  case (ls_release m h l lk)
  then show ?case
    by (auto simp: lock_inv_def owns_def release_enter_def holding_def length_remove1_int split: if_splits)
next
  case (ls_unlock m h l)
  then show ?case by (auto simp: lock_inv_def owns_def release_unlock_def)
next
  case (ls_pop m h c)
  then show ?case by (auto simp: lock_inv_def owns_def pop_off_def Let_def split: if_splits)
next
  case (ls_intr m h b)
  then show ?case by (auto simp: lock_inv_def owns_def)
qed


lemma lock_inv_reach: "lock_step\<^sup>*\<^sup>* m0 m \<Longrightarrow> lock_init m0 \<Longrightarrow> lock_inv m"
proof (induction rule: rtranclp_induct)
  case base
  then show ?case by (rule lock_inv_init)
next
  case (step y z)
  then show ?case using lock_inv_step by blast
qed


section \<open>What the locks guarantee\<close>

text \<open>A machine with all locks free, and the same machine after hart 0 took lock 5 while hart 1 spins on it.\<close>

definition free_machine :: machine where
  "free_machine = \<lparr>m_cpus = \<lambda>_. \<lparr>c_proc = None, c_noff = 0, c_intena = False, c_sie = True\<rparr>,
     m_locks = \<lambda>_. initlock ''lock'', m_pc = \<lambda>_. Outside, m_held = \<lambda>_. []\<rparr>"

lemma free_machine_init: "lock_init free_machine"
  by (simp add: free_machine_def lock_init_def initlock_def)

lemma contended: "\<exists>m. lock_step\<^sup>*\<^sup>* free_machine m \<and> m_pc m 0 = Outside \<and> m_pc m 1 = Spinning 5 \<and>
  m_held m 0 = [5] \<and> m_held m 1 = []"
proof -
  let ?c = "\<lparr>c_proc = None, c_noff = 1, c_intena = True, c_sie = False\<rparr>"
  have 1: "lock_step free_machine (free_machine\<lparr>m_cpus := (m_cpus free_machine)(0 := ?c), m_pc := (m_pc free_machine)(0 := Spinning 5)\<rparr>)"
    by (rule ls_enter) (simp_all add: free_machine_def acquire_enter_def push_off_def holding_def initlock_def)
  define m1 where "m1 = free_machine\<lparr>m_cpus := (m_cpus free_machine)(0 := ?c), m_pc := (m_pc free_machine)(0 := Spinning 5)\<rparr>"
  have 2: "lock_step m1 (m1\<lparr>m_cpus := (m_cpus m1)(1 := ?c), m_pc := (m_pc m1)(1 := Spinning 5)\<rparr>)"
    by (rule ls_enter) (simp_all add: m1_def free_machine_def acquire_enter_def push_off_def holding_def initlock_def)
  define m2 where "m2 = m1\<lparr>m_cpus := (m_cpus m1)(1 := ?c), m_pc := (m_pc m1)(1 := Spinning 5)\<rparr>"
  define lk where "lk = (m_locks m2 5)\<lparr>lk_locked := 1\<rparr>"
  have 3: "lock_step m2 (m2\<lparr>m_locks := (m_locks m2)(5 := lk), m_pc := (m_pc m2)(0 := Got 5)\<rparr>)"
    by (rule ls_got [where old = 0]) (simp_all add: m2_def m1_def free_machine_def test_and_set_def initlock_def lk_def)
  define m3 where "m3 = m2\<lparr>m_locks := (m_locks m2)(5 := lk), m_pc := (m_pc m2)(0 := Got 5)\<rparr>"
  have 4: "lock_step m3 (m3\<lparr>m_locks := (m_locks m3)(5 := acquire_done (m_locks m3 5) 0), m_pc := (m_pc m3)(0 := Outside),
      m_held := (m_held m3)(0 := 5 # m_held m3 0)\<rparr>)"
    by (rule ls_own) (simp add: m3_def)
  define m4 where "m4 = m3\<lparr>m_locks := (m_locks m3)(5 := acquire_done (m_locks m3 5) 0), m_pc := (m_pc m3)(0 := Outside),
      m_held := (m_held m3)(0 := 5 # m_held m3 0)\<rparr>"
  have "lock_step free_machine m1" "lock_step m1 m2" "lock_step m2 m3" "lock_step m3 m4"
    using 1 2 3 4 by (simp_all only: m1_def m2_def m3_def m4_def)
  then have "lock_step\<^sup>*\<^sup>* free_machine m4"
    by (meson converse_rtranclp_into_rtranclp rtranclp.rtrancl_refl)
  then show ?thesis by (intro exI [of _ m4]) (simp add: m4_def m3_def m2_def m1_def free_machine_def)
qed

text \<open>C26: mutual exclusion. In every interleaving of the harts from a state with all locks free, at most one
  hart owns a lock, from its successful swap in \<open>acquire\<close> to its unlock in \<open>release\<close>.\<close>

theorem spin_mutual_exclusion:
  assumes "lock_init m0" "lock_step\<^sup>*\<^sup>* m0 m" "owns m h l"
  shows "{h'. owns m h' l} = {h} \<and> lk_locked (m_locks m l) \<noteq> 0"
  using lock_inv_reach [OF assms(2,1)] assms(3) by (auto simp: lock_inv_def)

theorem spin_mutual_exclusion_witness:
  "\<exists>m. lock_step\<^sup>*\<^sup>* free_machine m \<and> m_pc m 1 = Spinning 5 \<and> {h'. owns m h' 5} = {0}"
proof -
  obtain m where m: "lock_step\<^sup>*\<^sup>* free_machine m" "m_pc m 1 = Spinning 5" "m_held m 0 = [5]" using contended by blast
  have "owns m 0 5" using m(3) by (simp add: owns_def)
  from spin_mutual_exclusion [OF free_machine_init m(1) this] m(1,2) show ?thesis by blast
qed

text \<open>C27: the lock calls stop only on misuse. Between its calls, a hart's \<open>acquire\<close> panics exactly for a
  lock it already holds and \<open>release\<close> exactly for one it does not hold; \<open>noff\<close> counts the locks it
  holds, its interrupts are off while it holds one, and \<open>pop_off\<close> at the end of \<open>release\<close> never panics.\<close>

theorem lock_calls_safe:
  assumes "lock_init m0" "lock_step\<^sup>*\<^sup>* m0 m"
  shows "if m_pc m h = Outside then
      ((\<exists>c. acquire_enter (m_cpus m h) (m_locks m l) h = Inr c) \<longleftrightarrow> l \<notin> set (m_held m h)) \<and>
      ((\<exists>lk. release_enter (m_locks m l) h = Inr lk) \<longleftrightarrow> l \<in> set (m_held m h)) \<and>
      c_noff (m_cpus m h) = int (length (m_held m h)) \<and> (m_held m h = [] \<or> \<not> c_sie (m_cpus m h))
    else \<not> c_sie (m_cpus m h) \<and> (\<exists>c. pop_off (m_cpus m h) = Inr c)"
proof (cases "m_pc m h = Outside")
  case True
  then show ?thesis using lock_inv_reach [OF assms(2,1)]
    by (auto simp: lock_inv_def owns_def acquire_enter_def release_enter_def holding_def Let_def)
next
  case False
  then have "c_noff (m_cpus m h) \<ge> 1" "\<not> c_sie (m_cpus m h)"
    using lock_inv_reach [OF assms(2,1)] by (auto simp: lock_inv_def)
  with False show ?thesis by (simp add: pop_off_def Let_def)
qed

theorem lock_calls_safe_witness:
  "\<exists>m. lock_step\<^sup>*\<^sup>* free_machine m \<and> m_held m 0 = [5] \<and> \<not> c_sie (m_cpus m 0) \<and>
     (\<exists>lk. release_enter (m_locks m 5) 0 = Inr lk) \<and> \<not> (\<exists>c. acquire_enter (m_cpus m 0) (m_locks m 5) 0 = Inr c)"
proof -
  obtain m where m: "lock_step\<^sup>*\<^sup>* free_machine m" "m_pc m 0 = Outside" "m_held m 0 = [5]" using contended by blast
  from lock_calls_safe [OF free_machine_init m(1), of 0 5] m show ?thesis by auto
qed

lemma push_off_fields:
  "c_noff (push_off c) = c_noff c + 1" "\<not> c_sie (push_off c)" "c_proc (push_off c) = c_proc c"
  "c_intena (push_off c) = (if c_noff c = 0 then c_sie c else c_intena c)"
  by (simp_all add: push_off_def Let_def)

text \<open>Within the outermost pair the recorded \<open>intena\<close> survives.\<close>

lemma nest_inner:
  assumes "1 \<le> c_noff c" "\<not> c_sie c"
  shows "((\<lambda>r. bind_res r pop_off) ^^ n) (Inr ((push_off ^^ n) c)) = Inr c"
  using assms
proof (induction n)
  case (Suc n)
  have "c_noff ((push_off ^^ n) c) = c_noff c + int n" by (induction n) (simp_all add: push_off_fields)
  moreover have "\<not> c_sie ((push_off ^^ n) c)" using Suc.prems by (cases n) (simp_all add: push_off_fields)
  ultimately have "pop_off (push_off ((push_off ^^ n) c)) = Inr ((push_off ^^ n) c)"
    using Suc.prems by (auto simp: pop_off_def push_off_def Let_def)
  then show ?case using Suc by (simp add: funpow_Suc_right [of n "\<lambda>r. bind_res r pop_off"] del: funpow.simps(2)) (simp add: funpow.simps(2))
qed simp

text \<open>\<open>push_off\<close> and \<open>pop_off\<close> nest: after \<open>n\<close> of the first and \<open>n\<close> of the second, no panic has happened
  and the depth and the interrupt bit are what they were.\<close>

theorem push_pop_nest:
  assumes "0 \<le> c_noff c" "c_noff c = 0 \<or> \<not> c_sie c"
  shows "\<exists>c'. ((\<lambda>r. bind_res r pop_off) ^^ n) (Inr ((push_off ^^ n) c)) = Inr c' \<and>
    c_noff c' = c_noff c \<and> c_sie c' = c_sie c \<and> c_proc c' = c_proc c"
proof (cases n)
  case 0
  then show ?thesis by simp
next
  case (Suc k)
  have "((\<lambda>r. bind_res r pop_off) ^^ n) (Inr ((push_off ^^ n) c)) =
      bind_res (((\<lambda>r. bind_res r pop_off) ^^ k) (Inr ((push_off ^^ k) (push_off c)))) pop_off"
    by (simp add: Suc funpow_swap1)
  also have "\<dots> = pop_off (push_off c)"
    using assms(1) by (subst nest_inner) (simp_all add: push_off_fields)
  finally show ?thesis using assms by (auto simp: pop_off_def push_off_def Let_def)
qed

theorem push_pop_nest_witness:
  "\<exists>c'. ((\<lambda>r. bind_res r pop_off) ^^ 3) (Inr ((push_off ^^ 3) \<lparr>c_proc = None, c_noff = 0, c_intena = False, c_sie = True\<rparr>))
     = Inr c' \<and> c_noff c' = 0 \<and> c_sie c'"
  using push_pop_nest [of "\<lparr>c_proc = None, c_noff = 0, c_intena = False, c_sie = True\<rparr>" 3] by auto

text \<open>C28: the callers of \<open>sched\<close> meet its checks. \<open>yield\<close>, entered with no lock held, and \<open>sleep\<close>, entered
  with exactly its condition lock held, reach the switch without a panic; \<open>sleep\<close> with one more
  lock held panics.\<close>

theorem sched_checks_met:
  assumes "lk_locked plock = 0" "lk_cpu plock = None"
  shows "(c_noff c = 0 \<longrightarrow> yield_locks c plock h = Inr (Some ())) \<and>
    (holding lk h \<and> \<not> c_sie c \<and> c_noff c = 1 \<longrightarrow> sleep_locks c plock lk h = Inr (Some ())) \<and>
    (holding lk h \<and> \<not> c_sie c \<and> 1 < c_noff c \<longrightarrow> sleep_locks c plock lk h = Inl (Panic ''sched locks''))"
  using assms
  by (auto simp: yield_locks_def sleep_locks_def acquire_def acquire_enter_def test_and_set_def acquire_done_def
      release_def release_enter_def pop_off_def sched_def holding_def push_off_def Let_def)

theorem sched_checks_met_witness:
  "sleep_locks \<lparr>c_proc = Some 3, c_noff = 1, c_intena = True, c_sie = False\<rparr> (initlock ''proc'')
     \<lparr>lk_locked = 1, lk_name = ''wait_lock'', lk_cpu = Some 0\<rparr> 0 = Inr (Some ())"
  using sched_checks_met [of "initlock ''proc''" "\<lparr>c_proc = Some 3, c_noff = 1, c_intena = True, c_sie = False\<rparr>" 0
      "\<lparr>lk_locked = 1, lk_name = ''wait_lock'', lk_cpu = Some 0\<rparr>"]
  by (simp add: initlock_def holding_def)

end
