(* ===== verification/Sched.thy ===== *)
theory Sched
  imports Spinlock "HOL-Library.Signed_Division" "HOL-Library.Product_Lexorder"
begin

text \<open>
  The schedulers of \<open>kernel/proc.c\<close> (round robin, FCFS, PBS and MLFQ, one of which is
  compiled in) and the clock tick of \<open>kernel/trap.c\<close>. A scheduler call is split at the
  context switch: the function picks a process, marks it RUNNING and records it as the
  CPU's process; \<open>sched_return\<close> is what follows when the process switches back. In
  \<open>sched_fcfs\<close> and \<open>sched_mlfq\<close> the scan releases each process lock, so the choice and
  the start are two separate steps.
\<close>

section \<open>The operations\<close>

definition cpu_upd :: "nat \<Rightarrow> (cpu \<Rightarrow> cpu) \<Rightarrow> 'z kcpu_scheme \<Rightarrow> 'z kcpu_scheme" where
  "cpu_upd hart f s = s\<lparr>cpus := (cpus s)(hart := f (cpus s hart))\<rparr>"

definition ticklim :: "int list" where
  "ticklim = [1, 3, 9, 15]"

definition numq :: int where
  "numq = 4"

text \<open>An array read; outside the array it has no defined value.\<close>

definition index_res :: "'a list \<Rightarrow> int \<Rightarrow> 'a res" where
  "index_res xs i = (if 0 \<le> i \<and> i < int (length xs) then Inr (xs ! nat i) else Inl OutOfBounds)"

text \<open>The scan of \<open>mlfq_yield\<close>: aging of the waiting processes, and the count of those above the current level.\<close>

definition mlfq_age :: "uint \<Rightarrow> proc \<Rightarrow> proc" where
  "mlfq_age now p =
     (if 0 < p_queue_level p \<and> 30 < now - p_last_exec p
      then p\<lparr>p_last_exec := now, p_in_time := now, p_queue_level := p_queue_level p - 1\<rparr>
      else p)"

definition mlfq_scan :: "nat \<Rightarrow> 'z kproc_scheme \<Rightarrow> nat \<times> 'z kproc_scheme" where
  "mlfq_scan me s =
     fold (\<lambda>i (ti, s).
       if p_state (procs s i) \<noteq> RUNNABLE then (ti, s)
       else
         let s = proc_upd i (mlfq_age (ticks s)) s
         in (if p_queue_level (procs s i) < p_queue_level (procs s me) then ti + 1 else ti, s))
       [0..<NPROC] (0, s)"

definition mlfq_yield :: "'z kproc_scheme \<Rightarrow> nat \<Rightarrow> 'z kproc_scheme res" where
  "mlfq_yield s me =
     (let s = proc_upd me (\<lambda>p. p\<lparr>p_tick_ctr := p_tick_ctr p + 1\<rparr>) s
      in case mlfq_scan me s of
           (ti, s) \<Rightarrow>
             bind_res (index_res ticklim (p_queue_level (procs s me))) (\<lambda>lim.
               if lim \<le> p_tick_ctr (procs s me) then
                 let s = proc_upd me (\<lambda>p. p\<lparr>p_tick_ctr := 0, p_in_time := ticks s\<rparr>) s;
                     s = (if p_queue_level (procs s me) < numq
                          then proc_upd me (\<lambda>p. p\<lparr>p_queue_level := p_queue_level p + 1\<rparr>) s
                          else s)
                 in Inr (yield s me)
               else if 0 < ti then
                 Inr (yield (proc_upd me (\<lambda>p. p\<lparr>p_tick_ctr := 0, p_in_time := ticks s\<rparr>) s) me)
               else Inr s))"

text \<open>The choice of each policy, as a loop over the table. The comparison of \<open>in_time\<close> is signed.\<close>

definition mlfq_pick :: "'z kproc_scheme \<Rightarrow> nat option" where
  "mlfq_pick s =
     fold (\<lambda>i selected.
       if p_state (procs s i) \<noteq> RUNNABLE then selected
       else case selected of
         None \<Rightarrow> Some i
       | Some j \<Rightarrow>
           if p_queue_level (procs s i) < p_queue_level (procs s j) then Some i
           else if p_queue_level (procs s i) = p_queue_level (procs s j) \<and>
                   sint (p_in_time (procs s i)) < sint (p_in_time (procs s j)) then Some i
           else Some j) [0..<NPROC] None"

definition fcfs_pick :: "'z kproc_scheme \<Rightarrow> nat option \<Rightarrow> nat option" where
  "fcfs_pick s cproc =
     fold (\<lambda>i selected.
       if p_state (procs s i) \<noteq> RUNNABLE then selected
       else case selected of
         None \<Rightarrow> Some i
       | Some j \<Rightarrow> if p_ctime (procs s i) < p_ctime (procs s j) then Some i else Some j)
       [0..<NPROC] cproc"

text \<open>\<open>selected->state = RUNNING; c->proc = selected\<close>, up to the switch, and what follows it.\<close>

definition sched_start :: "'z kcpu_scheme \<Rightarrow> nat \<Rightarrow> nat \<Rightarrow> 'z kcpu_scheme" where
  "sched_start s hart i = cpu_upd hart (\<lambda>c. c\<lparr>c_proc := Some i\<rparr>) (proc_upd i (\<lambda>p. p\<lparr>p_state := RUNNING\<rparr>) s)"

definition sched_return :: "'z kcpu_scheme \<Rightarrow> nat \<Rightarrow> 'z kcpu_scheme" where
  "sched_return s hart = cpu_upd hart (\<lambda>c. c\<lparr>c_proc := None\<rparr>) s"

definition sched_mlfq :: "'z kcpu_scheme \<Rightarrow> nat \<Rightarrow> 'z kcpu_scheme" where
  "sched_mlfq s hart = (case mlfq_pick s of None \<Rightarrow> s | Some i \<Rightarrow> sched_start s hart i)"

definition sched_fcfs :: "'z kcpu_scheme \<Rightarrow> nat \<Rightarrow> 'z kcpu_scheme" where
  "sched_fcfs s hart =
     (case fcfs_pick s (c_proc (cpus s hart)) of None \<Rightarrow> s | Some i \<Rightarrow> sched_start s hart i)"

text \<open>PBS: the dynamic priority is recomputed during the scan; C division truncates toward zero.\<close>

definition dynamic_priority :: "proc \<Rightarrow> int" where
  "dynamic_priority p =
     (let dp = ((3 * p_run_time p - p_wait_time p - p_sleep_time p) * 50) sdiv
                 (p_run_time p + p_wait_time p + p_sleep_time p + 1);
          dp = (if dp < 0 then 0 else dp);
          dp = dp + p_priority p
      in if 100 < dp then 100 else dp)"

definition pbs_better :: "proc \<Rightarrow> proc \<Rightarrow> bool" where
  "pbs_better p q \<longleftrightarrow>
     p_dynamic_priority p < p_dynamic_priority q \<or>
     p_dynamic_priority p = p_dynamic_priority q \<and> p_num_shed p < p_num_shed q \<or>
     p_dynamic_priority p = p_dynamic_priority q \<and> p_num_shed p = p_num_shed q \<and> p_ctime p < p_ctime q"

definition pbs_pick :: "'z kproc_scheme \<Rightarrow> nat option \<Rightarrow> nat option \<times> 'z kproc_scheme" where
  "pbs_pick s cproc =
     fold (\<lambda>i (selected, s).
       if p_state (procs s i) \<noteq> RUNNABLE then (selected, s)
       else
         let s = proc_upd i (\<lambda>p. p\<lparr>p_dynamic_priority := dynamic_priority p\<rparr>) s
         in case selected of
              None \<Rightarrow> (Some i, s)
            | Some j \<Rightarrow> if pbs_better (procs s i) (procs s j) then (Some i, s) else (Some j, s))
       [0..<NPROC] (cproc, s)"

definition sched_pbs :: "'z kcpu_scheme \<Rightarrow> nat \<Rightarrow> 'z kcpu_scheme" where
  "sched_pbs s hart =
     (case pbs_pick s (c_proc (cpus s hart)) of
        (None, s) \<Rightarrow> s
      | (Some i, s) \<Rightarrow>
          proc_upd i (\<lambda>p. p\<lparr>p_run_time := 0, p_wait_time := 0, p_sleep_time := 0, p_num_shed := p_num_shed p + 1\<rparr>)
            (sched_start s hart i))"

text \<open>
  One pass of the round-robin scheduler over the table. \<open>run i s\<close> is the parameter for what
  happens from the switch to process \<open>i\<close> until it switches back. The result lists the
  processes that were run.
\<close>

definition rr_visit :: "(nat \<Rightarrow> 'z kcpu_scheme \<Rightarrow> 'z kcpu_scheme) \<Rightarrow> nat \<Rightarrow> nat \<Rightarrow> 'z kcpu_scheme \<Rightarrow>
    nat list \<times> 'z kcpu_scheme" where
  "rr_visit run hart i s =
     (if p_state (procs s i) = RUNNABLE
      then ([i], sched_return (run i (sched_start s hart i)) hart)
      else ([], s))"

fun rr_visits :: "(nat \<Rightarrow> 'z kcpu_scheme \<Rightarrow> 'z kcpu_scheme) \<Rightarrow> nat \<Rightarrow> nat list \<Rightarrow> 'z kcpu_scheme \<Rightarrow>
    nat list \<times> 'z kcpu_scheme" where
  "rr_visits run hart [] s = ([], s)"
| "rr_visits run hart (i # is) s =
     (case rr_visit run hart i s of
        (js, s) \<Rightarrow> (case rr_visits run hart is s of (js', s) \<Rightarrow> (js @ js', s)))"

definition rr_pass :: "(nat \<Rightarrow> 'z kcpu_scheme \<Rightarrow> 'z kcpu_scheme) \<Rightarrow> nat \<Rightarrow> 'z kcpu_scheme \<Rightarrow>
    nat list \<times> 'z kcpu_scheme" where
  "rr_pass run hart s = rr_visits run hart [0..<NPROC] s"

text \<open>The clock tick, on hart 0.\<close>

definition clock_fields :: "proc \<Rightarrow> proc" where
  "clock_fields p =
     (let p = (if p_state p = RUNNING then p\<lparr>p_run_time := p_run_time p + 1\<rparr> else p);
          p = (if p_state p = SLEEPING then p\<lparr>p_wait_time := p_wait_time p + 1\<rparr> else p)
      in if p_state p = RUNNABLE then p\<lparr>p_sleep_time := p_sleep_time p + 1\<rparr> else p)"

definition clockintr :: "'z kproc_scheme \<Rightarrow> nat option \<Rightarrow> 'z kproc_scheme" where
  "clockintr s me =
     (let s = s\<lparr>ticks := ticks s + 1\<rparr>;
          s = update_time s;
          s = fold (\<lambda>i. proc_upd i clock_fields) [0..<NPROC] s
      in wakeup s me ChTicks)"



section \<open>Policies\<close>

text \<open>
  The three scans have one shape: among the candidates, keep the selected one unless the next is
  strictly better. For a strict weak order this selects the first of the best candidates.
\<close>

definition choose_by :: "('a \<Rightarrow> 'a \<Rightarrow> bool) \<Rightarrow> (nat \<Rightarrow> bool) \<Rightarrow> (nat \<Rightarrow> 'a) \<Rightarrow> nat \<Rightarrow> nat option" where
  "choose_by better ok f n =
     fold (\<lambda>i selected.
       if \<not> ok i then selected
       else case selected of None \<Rightarrow> Some i | Some j \<Rightarrow> if better (f i) (f j) then Some i else Some j) [0..<n] None"

locale policy =
  fixes better :: "'a \<Rightarrow> 'a \<Rightarrow> bool"
  assumes irrefl: "\<not> better x x"
    and trans: "better x y \<Longrightarrow> better y z \<Longrightarrow> better x z"
    and cotrans: "better x z \<Longrightarrow> better x y \<or> better y z"
begin

lemma choose_by_first:
  "case choose_by better ok f n of
     None \<Rightarrow> \<forall>i < n. \<not> ok i
   | Some i \<Rightarrow> i < n \<and> ok i \<and> (\<forall>j < n. ok j \<longrightarrow> \<not> better (f j) (f i)) \<and> (\<forall>j < i. ok j \<longrightarrow> better (f i) (f j))"
proof (induction n)
  case 0
  then show ?case by (simp add: choose_by_def)
next
  case (Suc n)
  have step: "choose_by better ok f (Suc n) =
    (if \<not> ok n then choose_by better ok f n
     else case choose_by better ok f n of None \<Rightarrow> Some n | Some j \<Rightarrow> if better (f n) (f j) then Some n else Some j)"
    by (simp add: choose_by_def)
  show ?case
  proof (cases "choose_by better ok f n")
    case None
    then show ?thesis using Suc by (auto simp: step less_Suc_eq irrefl)
  next
    case (Some j)
    with Suc have j: "j < n" "ok j" "\<forall>k < n. ok k \<longrightarrow> \<not> better (f k) (f j)" "\<forall>k < j. ok k \<longrightarrow> better (f j) (f k)" by auto
    have "better (f n) (f k)" if "better (f n) (f j)" "k < n" "ok k" for k
      using cotrans [OF that(1)] j(3) that by blast
    then show ?thesis using Some j irrefl trans by (auto simp: step less_Suc_eq)
  qed
qed

end

definition mlfq_better :: "proc \<Rightarrow> proc \<Rightarrow> bool" where
  "mlfq_better p q \<longleftrightarrow> p_queue_level p < p_queue_level q \<or>
     p_queue_level p = p_queue_level q \<and> sint (p_in_time p) < sint (p_in_time q)"

definition fcfs_better :: "proc \<Rightarrow> proc \<Rightarrow> bool" where
  "fcfs_better p q \<longleftrightarrow> p_ctime p < p_ctime q"

interpretation mlfq: policy mlfq_better
  by unfold_locales (auto simp: mlfq_better_def)

interpretation fcfs: policy fcfs_better
  by unfold_locales (auto simp: fcfs_better_def)

interpretation pbs: policy pbs_better
  by unfold_locales (auto simp: pbs_better_def)

abbreviation runnable :: "'z kproc_scheme \<Rightarrow> nat \<Rightarrow> bool" where
  "runnable s i \<equiv> p_state (procs s i) = RUNNABLE"

lemma mlfq_pick_choose: "mlfq_pick s = choose_by mlfq_better (runnable s) (procs s) NPROC"
  unfolding mlfq_pick_def choose_by_def mlfq_better_def
  by (rule fold_cong) (auto simp: fun_eq_iff split: option.split)

lemma fcfs_pick_choose: "fcfs_pick s None = choose_by fcfs_better (runnable s) (procs s) NPROC"
  unfolding fcfs_pick_def choose_by_def fcfs_better_def by (rule fold_cong) auto

text \<open>PBS compares the recomputed priorities: the scan is a choice on the table with all of them recomputed.\<close>

definition rated :: "proc \<Rightarrow> proc" where
  "rated p = (if p_state p = RUNNABLE then p\<lparr>p_dynamic_priority := dynamic_priority p\<rparr> else p)"

lemma pbs_pick_choose:
  "pbs_pick s None = (choose_by pbs_better (runnable s) (\<lambda>i. rated (procs s i)) NPROC,
     s\<lparr>procs := \<lambda>i. if i < NPROC then rated (procs s i) else procs s i\<rparr>)"
proof -
  let ?g = "\<lambda>i (selected, s). if p_state (procs s i) \<noteq> RUNNABLE then (selected, s)
       else let s = proc_upd i (\<lambda>p. p\<lparr>p_dynamic_priority := dynamic_priority p\<rparr>) s
         in case selected of None \<Rightarrow> (Some i, s)
            | Some j \<Rightarrow> if pbs_better (procs s i) (procs s j) then (Some i, s) else (Some j, s)"
  have "fold ?g [0..<n] (None, s) = (choose_by pbs_better (runnable s) (\<lambda>i. rated (procs s i)) n,
     s\<lparr>procs := \<lambda>i. if i < n then rated (procs s i) else procs s i\<rparr>)" for n
  proof (induction n)
    case 0
    show ?case by (simp add: choose_by_def)
  next
    case (Suc n)
    let ?c = "choose_by pbs_better (runnable s) (\<lambda>i. rated (procs s i)) n"
    have step: "choose_by pbs_better (runnable s) (\<lambda>i. rated (procs s i)) (Suc n) =
      (if \<not> runnable s n then ?c else case ?c of None \<Rightarrow> Some n
       | Some j \<Rightarrow> if pbs_better (rated (procs s n)) (rated (procs s j)) then Some n else Some j)"
      by (simp add: choose_by_def)
    have lt: "?c = Some j \<Longrightarrow> j < n" for j
      using pbs.choose_by_first [where ok = "runnable s" and f = "\<lambda>i. rated (procs s i)" and n = n] by simp
    have tab: "(\<lambda>i. if i < Suc n then rated (procs s i) else procs s i) =
      (\<lambda>i. if i < n then rated (procs s i) else procs s i)(n := rated (procs s n))" by (auto simp: less_Suc_eq)
    show ?case
    proof (cases "runnable s n")
      case False
      then have "rated (procs s n) = procs s n" by (simp add: rated_def)
      then have "(\<lambda>i. if i < Suc n then rated (procs s i) else procs s i) =
        (\<lambda>i. if i < n then rated (procs s i) else procs s i)" by (auto simp: less_Suc_eq)
      then show ?thesis using False by (simp add: Suc step)
    next
      case True
      then have r: "(procs s n)\<lparr>p_dynamic_priority := dynamic_priority (procs s n)\<rparr> = rated (procs s n)"
        by (simp add: rated_def)
      show ?thesis
        using True lt by (simp add: Suc step tab proc_upd_def r Let_def split: option.split) (auto dest: lt)
    qed
  qed
  then show ?thesis unfolding pbs_pick_def by blast
qed


lemma mlfq_scan_result:
  assumes me: "p_state (procs s me) \<noteq> RUNNABLE"
  shows "mlfq_scan me s =
    (card {i. i < NPROC \<and> runnable s i \<and> p_queue_level (mlfq_age (ticks s) (procs s i)) < p_queue_level (procs s me)},
     s\<lparr>procs := \<lambda>i. if i < NPROC \<and> runnable s i then mlfq_age (ticks s) (procs s i) else procs s i\<rparr>)"
proof -
  let ?age = "mlfq_age (ticks s)"
  let ?above = "\<lambda>i. runnable s i \<and> p_queue_level (?age (procs s i)) < p_queue_level (procs s me)"
  let ?g = "\<lambda>i (ti, s). if p_state (procs s i) \<noteq> RUNNABLE then (ti, s)
       else let s = proc_upd i (mlfq_age (ticks s)) s
         in (if p_queue_level (procs s i) < p_queue_level (procs s me) then ti + 1 else ti, s)"
  have "fold ?g [0..<n] (0, s) = (card {i. i < n \<and> ?above i},
     s\<lparr>procs := \<lambda>i. if i < n \<and> runnable s i then ?age (procs s i) else procs s i\<rparr>)" for n
  proof (induction n)
    case 0
    show ?case by simp
  next
    case (Suc n)
    have set: "{i. i < Suc n \<and> ?above i} = (if ?above n then insert n {i. i < n \<and> ?above i} else {i. i < n \<and> ?above i})"
      by (auto simp: less_Suc_eq)
    have tab: "(\<lambda>i. if i < Suc n \<and> runnable s i then ?age (procs s i) else procs s i) =
      (if runnable s n then (\<lambda>i. if i < n \<and> runnable s i then ?age (procs s i) else procs s i)(n := ?age (procs s n))
       else (\<lambda>i. if i < n \<and> runnable s i then ?age (procs s i) else procs s i))" by (auto simp: less_Suc_eq)
    have "finite {i. i < n \<and> ?above i}" by simp
    with me show ?case by (simp add: Suc set tab proc_upd_def Let_def) blast
  qed
  then show ?thesis unfolding mlfq_scan_def by blast
qed

text \<open>Where two harts stand in \<open>sched_mlfq\<close>: a hart that has released the last lock of its scan remembers its choice.\<close>

inductive mlfq_step :: "(nat \<Rightarrow> nat option) \<times> 'z kcpu_scheme \<Rightarrow> (nat \<Rightarrow> nat option) \<times> 'z kcpu_scheme \<Rightarrow> bool" where
  ms_scan: "sel h = None \<Longrightarrow> c_proc (cpus s h) = None \<Longrightarrow> mlfq_pick s = Some i \<Longrightarrow> mlfq_step (sel, s) (sel(h := Some i), s)"
| ms_start: "sel h = Some i \<Longrightarrow> mlfq_step (sel, s) (sel(h := None), sched_start s h i)"

text \<open>No process runs on two harts, and a process on a hart is RUNNING.\<close>

definition cpu_inv :: "'z kcpu_scheme \<Rightarrow> bool" where
  "cpu_inv s \<longleftrightarrow>
     (\<forall>h i. c_proc (cpus s h) = Some i \<longrightarrow> p_state (procs s i) = RUNNING) \<and>
     (\<forall>h h' i. c_proc (cpus s h) = Some i \<longrightarrow> c_proc (cpus s h') = Some i \<longrightarrow> h = h')"

lemma cpu_upd_simps [simp]:
  "procs (cpu_upd h f s) = procs s"
  "cpus (cpu_upd h f s) k = (if k = h then f (cpus s h) else cpus s k)"
  by (simp_all add: cpu_upd_def)

lemma cpus_proc_upd [simp]: "cpus (proc_upd i f s) = cpus s"
  by (simp add: proc_upd_def)

lemma sched_start_simps [simp]:
  "procs (sched_start s h i) j = (if j = i then (procs s i)\<lparr>p_state := RUNNING\<rparr> else procs s j)"
  "c_proc (cpus (sched_start s h i) k) = (if k = h then Some i else c_proc (cpus s k))"
  by (simp_all add: sched_start_def)

lemma cpu_inv_start:
  assumes "cpu_inv s" "runnable s i"
  shows "cpu_inv (sched_start s h i)"
  using assms unfolding cpu_inv_def by (auto split: if_splits)

lemma cpu_inv_proc_upd:
  assumes "p_state (f (procs s i)) = p_state (procs s i)"
  shows "cpu_inv (proc_upd i f s) = cpu_inv s"
proof -
  have "p_state (procs (proc_upd i f s) j) = p_state (procs s j)" for j using assms by simp
  then show ?thesis by (simp only: cpu_inv_def cpus_proc_upd)
qed


section \<open>What the schedulers guarantee\<close>

text \<open>A table with three RUNNABLE processes on an idle machine with two harts.\<close>

definition busy :: kcpu where
  "busy = kproc.extend (raw_machine\<lparr>nextpid := 4, ticks := 100, procs := (\<lambda>_. idle_proc)
     (1 := idle_proc\<lparr>p_state := RUNNABLE, p_pid := 1, p_queue_level := 2, p_in_time := 7, p_priority := 60, p_last_exec := 100\<rparr>,
      2 := idle_proc\<lparr>p_state := RUNNABLE, p_pid := 2, p_queue_level := 1, p_in_time := 9, p_priority := 50, p_last_exec := 100\<rparr>,
      3 := idle_proc\<lparr>p_state := RUNNABLE, p_pid := 3, p_queue_level := 1, p_in_time := 8, p_priority := 50, p_last_exec := 100,
         p_num_shed := 2\<rparr>,
      4 := idle_proc\<lparr>p_state := RUNNING, p_pid := 4, p_queue_level := 3, p_tick_ctr := 14\<rparr>)\<rparr>)
     \<lparr>cpus = \<lambda>_. \<lparr>c_proc = None, c_noff = 0, c_intena = False, c_sie = True\<rparr>\<rparr>"

text \<open>C29: \<open>sched_mlfq\<close> starts a process exactly when one is RUNNABLE, and the one it starts is on the lowest
  queue level in use, has the least \<open>in_time\<close> there, and comes first in the table among equals.\<close>

theorem mlfq_picks_first_of_best:
  "case mlfq_pick s of
     None \<Rightarrow> (\<forall>i < NPROC. \<not> runnable s i)
   | Some i \<Rightarrow> i < NPROC \<and> runnable s i \<and>
       (\<forall>j < NPROC. runnable s j \<longrightarrow>
          p_queue_level (procs s i) < p_queue_level (procs s j) \<or>
          p_queue_level (procs s i) = p_queue_level (procs s j) \<and>
            (sint (p_in_time (procs s i)) < sint (p_in_time (procs s j)) \<or>
             sint (p_in_time (procs s i)) = sint (p_in_time (procs s j)) \<and> i \<le> j))"
proof (cases "mlfq_pick s")
  case None
  then show ?thesis
    using mlfq.choose_by_first [where ok = "runnable s" and f = "procs s" and n = NPROC] by (simp add: mlfq_pick_choose)
next
  case (Some i)
  then have i: "i < NPROC" "runnable s i" "\<forall>j < NPROC. runnable s j \<longrightarrow> \<not> mlfq_better (procs s j) (procs s i)"
    "\<forall>j < i. runnable s j \<longrightarrow> mlfq_better (procs s i) (procs s j)"
    using mlfq.choose_by_first [where ok = "runnable s" and f = "procs s" and n = NPROC] by (simp_all add: mlfq_pick_choose)
  have "p_queue_level (procs s i) < p_queue_level (procs s j) \<or>
      p_queue_level (procs s i) = p_queue_level (procs s j) \<and>
        (sint (p_in_time (procs s i)) < sint (p_in_time (procs s j)) \<or>
         sint (p_in_time (procs s i)) = sint (p_in_time (procs s j)) \<and> i \<le> j)" if "j < NPROC" "runnable s j" for j
    using i(3) [rule_format, OF that] i(4) [rule_format, of j] that unfolding mlfq_better_def by linarith
  then show ?thesis using Some i(1,2) by simp
qed

theorem mlfq_picks_first_of_best_witness: "mlfq_pick busy = Some 3"
proof -
  have b: "runnable busy i \<longleftrightarrow> i = 1 \<or> i = 2 \<or> i = 3" for i
    by (auto simp: busy_def kproc.defs idle_proc_def raw_machine_def)
  have 3: "runnable busy 3" "3 < NPROC" by (simp_all add: b NPROC_def)
  obtain i where i: "mlfq_pick busy = Some i" "runnable busy i"
    "p_queue_level (procs busy i) < p_queue_level (procs busy 3) \<or> p_queue_level (procs busy i) = p_queue_level (procs busy 3) \<and>
       sint (p_in_time (procs busy i)) \<le> sint (p_in_time (procs busy 3))"
    using mlfq_picks_first_of_best [of busy] 3 by (fastforce split: option.splits)
  then show ?thesis by (auto simp: b) (simp_all add: busy_def kproc.defs idle_proc_def raw_machine_def)
qed



lemma busy_slots:
  "p_state (procs busy j) = (if j = 1 \<or> j = 2 \<or> j = 3 then RUNNABLE else if j = 4 then RUNNING else UNUSED)"
  "c_proc (cpus busy h) = None" "cpu_inv busy"
  by (auto simp: cpu_inv_def busy_def kproc.defs idle_proc_def raw_machine_def)


text \<open>C31: \<open>sched_mlfq\<close> does not look at the state again after it takes the selected process's lock for the second time. Whenever two idle harts
  schedule while some process is RUNNABLE, there is an interleaving after which both of them run the same
  process.\<close>

theorem mlfq_runs_process_twice:
  assumes "i < NPROC" "runnable s i" "h \<noteq> h'" "c_proc (cpus s h) = None" "c_proc (cpus s h') = None"
  shows "\<exists>s' k. mlfq_step\<^sup>*\<^sup>* (\<lambda>_. None, s) (\<lambda>_. None, s') \<and>
    c_proc (cpus s' h) = Some k \<and> c_proc (cpus s' h') = Some k \<and> \<not> cpu_inv s'"
proof -
  obtain k where k: "mlfq_pick s = Some k"
    using assms(1,2) mlfq.choose_by_first [where ok = "runnable s" and f = "procs s" and n = NPROC]
    by (cases "mlfq_pick s") (auto simp: mlfq_pick_choose)
  let ?n = "\<lambda>_. None" let ?s1 = "sched_start s h k" let ?s2 = "sched_start ?s1 h' k"
  have 1: "mlfq_step (?n, s) (?n(h := Some k), s)" by (rule ms_scan) (simp_all add: assms k)
  have 2: "mlfq_step (?n(h := Some k), s) (?n(h := Some k, h' := Some k), s)"
    by (rule ms_scan) (use assms k in auto)
  have 3: "mlfq_step (?n(h := Some k, h' := Some k), s) (?n(h := Some k, h' := Some k, h := None), ?s1)"
    by (rule ms_start) (use assms(3) in simp)
  have "mlfq_step (?n(h := Some k, h' := Some k, h := None), ?s1)
      ((?n(h := Some k, h' := Some k, h := None))(h' := None), ?s2)"
    by (rule ms_start) (use assms(3) in simp)
  moreover have "(?n(h := Some k, h' := Some k, h := None))(h' := None) = ?n" by auto
  ultimately have 4: "mlfq_step (?n(h := Some k, h' := Some k, h := None), ?s1) (?n, ?s2)" by (simp only:)
  note c = converse_rtranclp_into_rtranclp [where r = mlfq_step]
  have "mlfq_step\<^sup>*\<^sup>* (?n, s) (?n, ?s2)"
    by (rule c [OF 1 c [OF 2 c [OF 3 c [OF 4 rtranclp.rtrancl_refl]]]])
  moreover have "c_proc (cpus ?s2 h) = Some k" "c_proc (cpus ?s2 h') = Some k" by simp_all
  ultimately show ?thesis using assms(3) unfolding cpu_inv_def by blast
qed

theorem mlfq_runs_process_twice_witness:
  "\<exists>s' k. mlfq_step\<^sup>*\<^sup>* (\<lambda>_. None, busy) (\<lambda>_. None, s') \<and> c_proc (cpus s' 0) = Some k \<and> c_proc (cpus s' 1) = Some k"
  using mlfq_runs_process_twice [of 1 busy 0 1] by (auto simp: busy_slots NPROC_def)

text \<open>C32: the lowest MLFQ level has no tick limit. A process that uses up its 15 ticks on level 3 moves to level 4, and
  the next clock tick that interrupts it reads \<open>ticklim\<close> past its end.\<close>

theorem mlfq_level_overflows:
  assumes "p_state (procs s me) = RUNNING" "p_queue_level (procs s me) = 3" "14 \<le> p_tick_ctr (procs s me)"
  shows "\<exists>s'. mlfq_yield s me = Inr s' \<and> p_queue_level (procs s' me) = 4 \<and> p_state (procs s' me) = RUNNABLE \<and>
    mlfq_yield (proc_upd me (\<lambda>p. p\<lparr>p_state := RUNNING\<rparr>) s') me = Inl OutOfBounds"
  using assms
  by (simp add: mlfq_yield_def mlfq_scan_result Let_def index_res_def ticklim_def yield_def numq_def)

theorem mlfq_level_overflows_witness:
  "\<exists>s'. mlfq_yield busy 4 = Inr s' \<and> p_queue_level (procs s' 4) = 4 \<and>
    mlfq_yield (proc_upd 4 (\<lambda>p. p\<lparr>p_state := RUNNING\<rparr>) s') 4 = Inl OutOfBounds"
  using mlfq_level_overflows [of busy 4] by (auto simp: busy_def kproc.defs idle_proc_def raw_machine_def)



end
