(* ===== verification/Trap.thy ===== *)
theory Trap
  imports Sysproc Sched
begin

text \<open>
  Traps, \<open>kernel/trap.c\<close>: entry from user space and the way back, the alarm of
  \<open>sigalarm\<close>, kernel traps and device interrupts. The supervisor registers are the record
  \<open>regs\<close>; \<open>irq\<close> is what \<open>plic_claim\<close> returns. The scheduler compiled in is a parameter.
\<close>

datatype sched_policy = RR | FCFS | PBS | MLFQ

record regs =
  r_sstatus :: uint64
  r_sepc :: uint64
  r_scause :: uint64
  r_stval :: uint64
  r_satp :: uint64
  r_tp :: uint64
  r_stvec :: uint64

definition SSTATUS_SPP :: uint64 where "SSTATUS_SPP = 0x100"
definition SSTATUS_SPIE :: uint64 where "SSTATUS_SPIE = 0x20"
definition SSTATUS_SIE :: uint64 where "SSTATUS_SIE = 0x2"
definition UART0_IRQ :: int where "UART0_IRQ = 10"
definition VIRTIO0_IRQ :: int where "VIRTIO0_IRQ = 1"

text \<open>\<open>devintr\<close> on the given hart, for the process running there: 2 for the timer, 1 for another device, 0 otherwise.
  A completed disk request has already had its effect in \<open>virtio_disk_rw\<close>.\<close>

definition devintr :: "'z ksys_scheme \<Rightarrow> regs \<Rightarrow> nat \<Rightarrow> int \<Rightarrow> nat option \<Rightarrow> (int \<times> 'z ksys_scheme) res" where
  "devintr s r hart irq me =
     (if r_scause r AND 0x8000000000000000 \<noteq> 0 \<and> r_scause r AND 0xff = 9 then
        bind_res
          (if irq = UART0_IRQ then uartintr s me
           else if irq = VIRTIO0_IRQ then Inr s
           else if irq \<noteq> 0 then
             bind_res (printf_fmt (''unexpected interrupt irq=%d'' @ [CHR 10]) [ArgInt (of_int irq)]) (\<lambda>t. Inr (kprint t s))
           else Inr s) (\<lambda>s. Inr (1, s))
      else if r_scause r = 0x8000000000000001 then
        Inr (2, if hart = 0 then clockintr s me else s)
      else Inr (0, s))"

text \<open>The process gives up the CPU as its scheduler prescribes; FCFS does not preempt.\<close>

definition timer_yield :: "sched_policy \<Rightarrow> 'z kproc_scheme \<Rightarrow> nat \<Rightarrow> 'z kproc_scheme res" where
  "timer_yield pol s me =
     (case pol of
        RR \<Rightarrow> Inr (yield s me)
      | PBS \<Rightarrow> Inr (yield s me)
      | MLFQ \<Rightarrow> mlfq_yield s me
      | FCFS \<Rightarrow> Inr s)"

text \<open>The alarm at a timer interrupt.\<close>

definition alarm_tick :: "'z ksys_scheme \<Rightarrow> nat \<Rightarrow> 'z ksys_scheme res" where
  "alarm_tick s me =
     (let p = procs s me
      in if p_ticks p \<noteq> 0 then
           if p_current_ticks p = p_ticks p + 1 then
             let s = proc_upd me (\<lambda>p. p\<lparr>p_current_ticks := p_current_ticks p + 1\<rparr>) s
             in bind_res (kalloc s) (\<lambda>(pa, s).
                  let s = proc_upd me (\<lambda>p. p\<lparr>p_sigalarm := pa\<rparr>) s
                  in if pa \<noteq> 0 then
                       let s = s\<lparr>mem := memset (mem s) pa 0 4096\<rparr>;
                           s = s\<lparr>mem := memmove (mem s) pa (p_trapframe (procs s me)) 4096\<rparr>
                       in Inr (tf_set me TF_EPC (p_handler (procs s me)) s)
                     else Inr s)
           else if 0 < p_ticks p then Inr (proc_upd me (\<lambda>p. p\<lparr>p_current_ticks := p_current_ticks p + 1\<rparr>) s)
           else Inr s
         else Inr s)"

text \<open>How a trap from user space ends: back to the process, switched away, waiting in a system call, or exited.\<close>

datatype trap_end = TReturn | TYielded | TWaits pending | TExited

definition usertrap_exit :: "'z ksys_scheme \<Rightarrow> nat \<Rightarrow> (trap_end \<times> 'z ksys_scheme) res" where
  "usertrap_exit s me = bind_res (exit s me (-1)) (\<lambda>s. Inr (TExited, s))"

text \<open>\<open>usertrap\<close> after the cause is handled.\<close>

definition usertrap_tail :: "sched_policy \<Rightarrow> 'z ksys_scheme \<Rightarrow> nat \<Rightarrow> int \<Rightarrow> (trap_end \<times> 'z ksys_scheme) res" where
  "usertrap_tail pol s me which_dev =
     (if killed s me then usertrap_exit s me
      else if which_dev = 2 then
        bind_res (alarm_tick s me) (\<lambda>s.
        bind_res (timer_yield pol s me) (\<lambda>s.
        Inr (if p_state (procs s me) = RUNNING then TReturn else TYielded, s)))
      else Inr (TReturn, s))"

definition usertrap_after_syscall :: "sched_policy \<Rightarrow> nat \<Rightarrow> ((unit, pending) progress \<times> 'z ksys_scheme) res \<Rightarrow>
    (trap_end \<times> 'z ksys_scheme) res" where
  "usertrap_after_syscall pol me r =
     bind_res r (\<lambda>(p, s).
       case p of
         Done _ \<Rightarrow> usertrap_tail pol s me 0
       | Waits PGone \<Rightarrow> Inr (TExited, s)
       | Waits w \<Rightarrow> Inr (TWaits w, s))"

definition usertrap :: "sched_policy \<Rightarrow> 'z ksys_scheme \<Rightarrow> nat \<Rightarrow> regs \<Rightarrow> nat \<Rightarrow> int \<Rightarrow>
    (trap_end \<times> 'z ksys_scheme) res" where
  "usertrap pol s me r hart irq =
     (if r_sstatus r AND SSTATUS_SPP \<noteq> 0 then Inl (Panic ''usertrap: not from user mode'')
      else
        let s = tf_set me TF_EPC (r_sepc r) s
        in if r_scause r = 15 then
             bind_res (removecopy s (p_pagetable (procs s me)) (r_stval r) (PGROUNDDOWN (tf_get s me TF_SP))) (\<lambda>(k, s).
               usertrap_tail pol (proc_upd me (\<lambda>p. p\<lparr>p_killed := k\<rparr>) s) me 0)
           else if r_scause r = 8 then
             if killed s me then usertrap_exit s me
             else
               let s = tf_set me TF_EPC (tf_get s me TF_EPC + 4) s
               in usertrap_after_syscall pol me (syscall s me)
           else
             bind_res (devintr s r hart irq (Some me)) (\<lambda>(which_dev, s).
               if which_dev \<noteq> 0 then usertrap_tail pol s me which_dev
               else
                 bind_res (printf_fmt (''usertrap(): unexpected scause %p pid=%d'' @ [CHR 10])
                   [ArgPtr (r_scause r), ArgInt (of_int (p_pid (procs s me)))]) (\<lambda>t.
                 bind_res (printf_fmt (''            sepc=%p stval=%p'' @ [CHR 10]) [ArgPtr (r_sepc r), ArgPtr (r_stval r)]) (\<lambda>u.
                 usertrap_tail pol (setkilled (kprint u (kprint t s)) me) me 0))))"

text \<open>A process that waited in a system call and runs again.\<close>

definition usertrap_resume :: "sched_policy \<Rightarrow> 'z ksys_scheme \<Rightarrow> nat \<Rightarrow> pending \<Rightarrow> (trap_end \<times> 'z ksys_scheme) res" where
  "usertrap_resume pol s me w = usertrap_after_syscall pol me (sys_resume s me w)"

text \<open>\<open>usertrapret\<close>, up to the jump to \<open>userret\<close> with the user page table; the addresses of \<open>uservec\<close> (its offset in
  the trampoline) and \<open>usertrap\<close> are link-time parameters.\<close>

definition usertrapret :: "uint64 \<Rightarrow> uint64 \<Rightarrow> 'z ksys_scheme \<Rightarrow> nat \<Rightarrow> regs \<Rightarrow> uint64 \<times> regs \<times> 'z ksys_scheme" where
  "usertrapret uservec_off usertrap_pc s me r =
     (let r = r\<lparr>r_sstatus := r_sstatus r AND NOT SSTATUS_SIE, r_stvec := TRAMPOLINE + uservec_off\<rparr>;
          s = tf_set me TF_KERNEL_SATP (r_satp r) s;
          s = tf_set me TF_KERNEL_SP (p_kstack (procs s me) + PGSIZE) s;
          s = tf_set me TF_KERNEL_TRAP usertrap_pc s;
          s = tf_set me TF_HARTID (r_tp r) s;
          x = (r_sstatus r AND NOT SSTATUS_SPP) OR SSTATUS_SPIE;
          r = r\<lparr>r_sstatus := x, r_sepc := tf_get s me TF_EPC\<rparr>
      in (MAKE_SATP (p_pagetable (procs s me)), r, s))"

definition kerneltrap :: "sched_policy \<Rightarrow> 'z ksys_scheme \<Rightarrow> nat option \<Rightarrow> regs \<Rightarrow> nat \<Rightarrow> int \<Rightarrow> 'z ksys_scheme res" where
  "kerneltrap pol s me r hart irq =
     (if r_sstatus r AND SSTATUS_SPP = 0 then Inl (Panic ''kerneltrap: not from supervisor mode'')
      else if r_sstatus r AND SSTATUS_SIE \<noteq> 0 then Inl (Panic ''kerneltrap: interrupts enabled'')
      else
        bind_res (devintr s r hart irq me) (\<lambda>(which_dev, s).
          if which_dev = 0 then Inl (Panic ''kerneltrap'')
          else case me of
            None \<Rightarrow> Inr s
          | Some i \<Rightarrow>
              if which_dev = 2 \<and> p_state (procs s i) = RUNNING then timer_yield pol s i else Inr s))"

section \<open>Alarms\<close>

abbreviation page_bytes :: "memory \<Rightarrow> uint64 \<Rightarrow> uint8 list" where
  "page_bytes m p \<equiv> load_bytes m p 4096"

lemma page_bytes_same: "page_aligned p \<Longrightarrow> same_page p m m' \<Longrightarrow> page_bytes m' p = page_bytes m p"
  by (rule load_bytes_cong) (simp_all add: same_page_def in_page_range)

lemma page_bytes_copy:
  assumes "page_aligned p"
  shows "page_bytes (copy_bytes m p q 4096) p = page_bytes m q"
proof (rule nth_equalityI)
  fix i assume "i < length (page_bytes (copy_bytes m p q 4096) p)"
  then show "page_bytes (copy_bytes m p q 4096) p ! i = page_bytes m q ! i"
    using copy_page(2) [OF assms, of "of_nat i"] by (simp add: unat_of_nat64)
qed simp

lemma kinv_fields:
  fixes s :: "'z kmem_scheme" and t :: "'y kmem_scheme"
  assumes "mem s = mem t" "freelist s = freelist t" "nump_using s = nump_using t"
  shows "kinv kend fl s = kinv kend fl t"
  using assms by (simp add: kinv_def refs_def)

lemma refs_proc_upd [simp]: "refs (proc_upd i f s) p = refs s p"
  by (simp add: refs_def)

lemma page_offset_in:
  assumes "page_aligned p" "unat off < 4096"
  shows "PGROUNDDOWN (p + off) = p"
  using assms in_page_range [OF assms(1), of "p + off"] by (simp add: in_page_def in_range_def)

lemma dvd8_offset: "page_aligned p \<Longrightarrow> 8 dvd unat off \<Longrightarrow> 8 dvd unat (p + off)"
  using unat_add_mod [where n = 8 and x = p and y = off] page_aligned_dvd8 [of p] by (auto simp: dvd_eq_mod_eq_0)

lemma load64_page_bytes:
  assumes "page_bytes m p = page_bytes m' q" "unat off + 8 \<le> 4096"
  shows "load64 m (p + off) = load64 m' (q + off)"
proof -
  have b: "load_bytes m (p + off) 8 = map (\<lambda>i. page_bytes m p ! (unat off + i)) [0..<8]" for m p
    using assms(2) by (auto simp: load_bytes_def add.assoc)
  then show ?thesis using assms(1) by (simp add: load64_def)
qed

text \<open>The step at which the alarm goes off: the trapframe is saved in a fresh page, and the process will continue in the
  handler.\<close>

lemma alarm_fires:
  assumes k: "kinv kend (pa # fl) s" and tf: "page_ok kend (p_trapframe (procs s me))" "p_trapframe (procs s me) \<notin> set (pa # fl)"
    and due: "p_ticks (procs s me) \<noteq> 0" "p_current_ticks (procs s me) = p_ticks (procs s me) + 1"
  shows "\<exists>s1. alarm_tick s me = Inr s1 \<and> p_sigalarm (procs s1 me) = pa \<and> p_trapframe (procs s1 me) = p_trapframe (procs s me) \<and>
    kinv kend fl s1 \<and> refs s1 pa = 1 \<and> page_bytes (mem s1) pa = page_bytes (mem s) (p_trapframe (procs s me)) \<and>
    tf_get s1 me TF_EPC = p_handler (procs s me)"
proof -
  let ?tf = "p_trapframe (procs s me)"
  define s0 where "s0 = proc_upd me (\<lambda>p. p\<lparr>p_current_ticks := p_current_ticks p + 1\<rparr>) s"
  have k0: "kinv kend (pa # fl) s0" using k by (simp add: s0_def)
  obtain s1 where s1: "kalloc s0 = Inr (pa, s1)" "kinv kend fl s1" "refs s1 pa = 1" "agree_off pa (mem s0) (mem s1)"
    using kalloc_cons [OF k0] by blast
  note f1 = more_proc [OF kalloc_more [OF s1(1)]]
  have pa: "page_ok kend pa" "pa \<noteq> 0" "page_aligned pa" "page_aligned ?tf" "?tf \<noteq> pa" "pa \<notin> set fl"
    using k tf page_ok_nonzero by (auto simp: kinv_def)
  define m2 where "m2 = fill_bytes (mem s1) pa 0 4096"
  define m3 where "m3 = copy_bytes m2 pa ?tf 4096"
  define s2 where "s2 = (proc_upd me (\<lambda>p. p\<lparr>p_sigalarm := pa\<rparr>) s1)\<lparr>mem := m3\<rparr>"
  define s3 where "s3 = tf_set me TF_EPC (p_handler (procs s me)) s2"
  have procs2: "p_trapframe (procs s2 me) = ?tf" "p_handler (procs s2 me) = p_handler (procs s me)" "p_sigalarm (procs s2 me) = pa"
    using f1 by (simp_all add: s2_def s0_def)
  have run: "alarm_tick s me = Inr s3"
    using due s1(1) pa(2) procs2 f1
    by (simp add: alarm_tick_def Let_def s0_def [symmetric] memset_page memmove_page [OF pa(1) tf(1)] m2_def [symmetric] m3_def [symmetric])
      (simp add: s3_def s2_def s0_def m3_def m2_def memmove_page [OF pa(1) tf(1)])
  have "agree_off pa (mem s) m3"
    using s1(4) agree_off_fill [OF pa(3), of "mem s1" 0] copy_page(1) [OF pa(3), of m2 ?tf]
    unfolding m3_def m2_def s0_def by (auto intro: agree_off_trans)
  then have tfm: "same_page ?tf (mem s) m3" using agree_off_same pa(5) by blast
  have "agree_off ?tf m3 (mem s3)"
    unfolding s3_def tf_set_def procs2 using pa(4)
    by (simp add: s2_def, intro agree_off_store64) (auto simp: TF_EPC_def intro: page_offset_in dvd8_offset)
  then have other: "same_page q m3 (mem s3)" if "q \<noteq> ?tf" for q using agree_off_same that by blast
  have pas: "same_page pa m3 (mem s3)" using other [of pa] pa(5) by auto
  have saved: "page_bytes (mem s3) pa = page_bytes (mem s) ?tf"
  proof -
    have "agree_off pa (mem s) m2"
      using s1(4) agree_off_fill [OF pa(3), of "mem s1" 0] unfolding m2_def s0_def by (auto intro: agree_off_trans)
    then have "page_bytes m2 ?tf = page_bytes (mem s) ?tf" using agree_off_same pa(4,5) page_bytes_same by blast
    then show ?thesis using page_bytes_same [OF pa(3) pas] page_bytes_copy [OF pa(3), of m2 ?tf] by (simp add: m3_def)
  qed
  have k3: "kinv kend fl s3"
  proof -
    have "same_page q (mem s1) (mem s3)" if "q \<in> set fl" for q
    proof -
      have "q \<noteq> pa" "q \<noteq> ?tf" using that pa(6) tf(2) by auto
      then show ?thesis
        using other [of q] agree_off_same [OF agree_off_fill [OF pa(3), of "mem s1" 0], of q]
          agree_off_same [OF copy_page(1) [OF pa(3), of m2 ?tf], of q]
        unfolding m3_def m2_def by (blast intro: same_page_trans)
    qed
    then have "kinv kend fl (s1\<lparr>mem := mem s3\<rparr>)" by (intro kinv_mem [OF s1(2)]) blast
    then show ?thesis by (subst kinv_fields [where t = "s1\<lparr>mem := mem s3\<rparr>"]) (simp_all add: s3_def s2_def tf_set_def)
  qed
  have "refs s3 pa = 1" using s1(3) by (simp add: s3_def s2_def tf_set_def refs_def)
  moreover have "tf_get s3 me TF_EPC = p_handler (procs s me)" by (simp add: s3_def tf_get_def tf_set_def)
  moreover have "p_sigalarm (procs s3 me) = pa" "p_trapframe (procs s3 me) = ?tf"
    using procs2 by (simp_all add: s3_def tf_set_def)
  ultimately show ?thesis using run k3 saved by blast
qed


lemma sigreturn_restores:
  assumes k: "kinv kend fl s" and pa: "page_ok kend (p_sigalarm (procs s me))" "refs s (p_sigalarm (procs s me)) = 1"
    and tf: "page_ok kend (p_trapframe (procs s me))" "p_trapframe (procs s me) \<notin> set fl" "p_trapframe (procs s me) \<noteq> p_sigalarm (procs s me)"
  shows "\<exists>s'. sys_sigreturn s me = Inr (load64 (mem s) (p_sigalarm (procs s me) + TF_A 0), s') \<and>
    page_bytes (mem s') (p_trapframe (procs s me)) = page_bytes (mem s) (p_sigalarm (procs s me)) \<and>
    kinv kend (p_sigalarm (procs s me) # fl) s' \<and> p_sigalarm (procs s' me) = p_sigalarm (procs s me) \<and>
    p_trapframe (procs s' me) = p_trapframe (procs s me) \<and> p_current_ticks (procs s' me) = 0 \<and>
    refs s' (p_sigalarm (procs s me)) = 0 \<and> freelist s' = p_sigalarm (procs s me)"
proof -
  let ?pa = "p_sigalarm (procs s me)" let ?tf = "p_trapframe (procs s me)"
  have al: "page_aligned ?tf" "page_aligned ?pa" "?pa \<noteq> 0" using pa(1) tf(1) page_ok_nonzero by auto
  define s1 where "s1 = s\<lparr>mem := copy_bytes (mem s) ?tf ?pa 4096\<rparr>"
  have off: "same_page q (mem s) (mem s1)" if "q \<noteq> ?tf" for q
    using agree_off_same [OF copy_page(1) [OF al(1)] that] by (simp add: s1_def)
  have "\<forall>q \<in> set fl. same_page q (mem s) (mem s1)" using off tf(2) by metis
  then have k1: "kinv kend fl s1" unfolding s1_def by (intro kinv_mem [OF k]) simp
  have r1: "refs s1 ?pa = 1" using pa(2) by (simp add: s1_def refs_def)
  obtain s2 where s2: "kfree s1 ?pa = Inr s2" "kinv kend (?pa # fl) s2" "refs s2 ?pa = 0" "agree_off ?pa (mem s1) (mem s2)"
    using kfree_last [OF k1 pa(1) r1] by blast
  note f2 = more_proc [OF kfree_more [OF s2(1)]]
  define s3 where "s3 = proc_upd me (\<lambda>p. p\<lparr>p_current_ticks := 0\<rparr>) s2"
  have run: "sys_sigreturn s me = Inr (tf_get s3 me (TF_A 0), s3)"
    using al(3) s2(1) memmove_page [OF tf(1) pa(1)]
    by (simp add: sys_sigreturn_def Let_def s1_def s3_def)
  have fr: "freelist s2 = ?pa" using s2(2) by (simp add: kinv_def)
  have b: "page_bytes (mem s3) ?tf = page_bytes (mem s) ?pa"
    using page_bytes_same [OF al(1) agree_off_same [OF s2(4) tf(3)]] page_bytes_copy [OF al(1), of "mem s" ?pa]
    by (simp add: s3_def s1_def)
  have "tf_get s3 me (TF_A 0) = load64 (mem s) (?pa + TF_A 0)"
    using load64_page_bytes [OF b, of "TF_A 0"] f2 by (simp add: tf_get_def s3_def s1_def TF_A_def)
  then show ?thesis
    using run b s2(2,3) f2 fr by (intro exI [of _ s3]) (simp add: s3_def s1_def)
qed


text \<open>A process whose alarm is due at the next timer interrupt, on the small machine with five free pages.\<close>

definition alarm_kernel :: ksys where
  "alarm_kernel = kfile.extend ((small_kernel (mem demo))\<lparr>freelist := freelist demo, nump_using := nump_using demo,
     procs := (\<lambda>_. idle_proc)(0 := idle_proc\<lparr>p_state := RUNNING, p_pid := 1, p_trapframe := 0x87ffd000,
       p_ticks := 2, p_current_ticks := 3, p_handler := 0x40, p_killed := 1\<rparr>)\<rparr>)
     \<lparr>read_count = 0, fork_first = False, stack_words = (0, 0)\<rparr>"

lemma alarm_kernel_fields:
  "mem alarm_kernel = mem demo" "freelist alarm_kernel = freelist demo" "nump_using alarm_kernel = nump_using demo"
  "procs alarm_kernel = (\<lambda>_. idle_proc)(0 := idle_proc\<lparr>p_state := RUNNING, p_pid := 1, p_trapframe := 0x87ffd000,
       p_ticks := 2, p_current_ticks := 3, p_handler := 0x40, p_killed := 1\<rparr>)"
  by (simp_all add: alarm_kernel_def kfile.defs small_kernel_def)

lemma alarm_kernel_ok:
  "kinv 0x87ff8000 (0x87ff8000 # [0x87ff9000, 0x87ffa000, 0x87ffb000, 0x87ffc000]) alarm_kernel"
  "page_ok 0x87ff8000 (0x87ffd000 :: uint64)"
  using demo_kinv kinv_fields [of alarm_kernel demo] alarm_kernel_fields
  by (simp_all add: demo_fl_def page_ok_def page_aligned_def layout_defs)



text \<open>C39: \<open>sigreturn\<close> leaves \<open>p->sigalarm\<close> pointing at the page it has freed. A program that calls it twice frees
  that page twice, and the next two allocations in the kernel return the same page.\<close>

theorem sigreturn_twice_double_allocates:
  assumes "kinv kend fl s" "page_ok kend (p_sigalarm (procs s me))" "refs s (p_sigalarm (procs s me)) = 1"
    "page_ok kend (p_trapframe (procs s me))" "p_trapframe (procs s me) \<notin> set fl"
    "p_trapframe (procs s me) \<noteq> p_sigalarm (procs s me)"
  shows "\<exists>v1 s1 v2 s2 s3 s4. sys_sigreturn s me = Inr (v1, s1) \<and> sys_sigreturn s1 me = Inr (v2, s2) \<and>
    kalloc s2 = Inr (p_sigalarm (procs s me), s3) \<and> kalloc s3 = Inr (p_sigalarm (procs s me), s4)"
proof -
  let ?pa = "p_sigalarm (procs s me)" let ?tf = "p_trapframe (procs s me)"
  obtain v1 s1 where s1: "sys_sigreturn s me = Inr (v1, s1)" "p_sigalarm (procs s1 me) = ?pa" "p_trapframe (procs s1 me) = ?tf"
    "refs s1 ?pa = 0" "freelist s1 = ?pa"
    using sigreturn_restores [OF assms] by blast
  have pa: "in_array (page_idx ?pa)" "?pa \<noteq> 0" "page_aligned ?pa"
    using assms(2) page_ok_nonzero by (auto simp: page_ok_def page_idx_val(2))
  define m where "m = store64 (memset (memmove (mem s1) ?tf ?pa 4096) ?pa 1 4096) ?pa ?pa"
  define s2 where "s2 = proc_upd me (\<lambda>p. p\<lparr>p_current_ticks := 0\<rparr>)
     (s1\<lparr>nump_using := (nump_using s1)(page_idx ?pa := -1), console := console s1 @ ''kfree: nump_using < 0'', mem := m,
        freelist := ?pa\<rparr>)"
  have r2: "sys_sigreturn s1 me = Inr (tf_get s2 me (TF_A 0), s2)"
    using s1(2-5) pa(1,2) by (simp add: sys_sigreturn_def Let_def kfree_def refs_def s2_def m_def kprint_def)
  have m: "load64 (mem s2) ?pa = ?pa" "freelist s2 = ?pa" "nump_using s2 (page_idx ?pa) = -1"
    by (simp_all add: s2_def m_def kprint_def)
  obtain s3 where s3: "kalloc s2 = Inr (?pa, s3)" "freelist s3 = ?pa"
    using m pa(1,2) by (simp add: kalloc_def Let_def kprint_def)
  obtain s4 where "kalloc s3 = Inr (?pa, s4)"
    using s3(2) pa(1,2) by (simp add: kalloc_def Let_def)
  then show ?thesis using s1(1) r2 s3(1) by blast
qed

theorem sigreturn_twice_double_allocates_witness:
  "\<exists>s v1 s1 v2 s2 s3 s4. alarm_tick alarm_kernel 0 = Inr s \<and> sys_sigreturn s 0 = Inr (v1, s1) \<and> sys_sigreturn s1 0 = Inr (v2, s2) \<and>
    kalloc s2 = Inr (0x87ff8000, s3) \<and> kalloc s3 = Inr (0x87ff8000, s4)"
proof -
  let ?s = alarm_kernel let ?fl = "[0x87ff9000, 0x87ffa000, 0x87ffb000, 0x87ffc000] :: uint64 list"
  have a: "page_ok 0x87ff8000 (p_trapframe (procs ?s 0))" "p_trapframe (procs ?s 0) \<notin> set (0x87ff8000 # ?fl)"
    "p_ticks (procs ?s 0) \<noteq> 0" "p_current_ticks (procs ?s 0) = p_ticks (procs ?s 0) + 1"
    using alarm_kernel_ok(2) by (simp_all add: alarm_kernel_fields)
  obtain s1 where s1: "alarm_tick ?s 0 = Inr s1" "p_sigalarm (procs s1 0) = 0x87ff8000" "kinv 0x87ff8000 ?fl s1"
    "refs s1 0x87ff8000 = 1" "p_trapframe (procs s1 0) = 0x87ffd000"
    using alarm_fires [OF alarm_kernel_ok(1) a] by (auto simp: alarm_kernel_fields)
  have "page_ok 0x87ff8000 (0x87ff8000 :: uint64)" by (simp add: page_ok_def page_aligned_def layout_defs)
  then show ?thesis
    using sigreturn_twice_double_allocates [OF s1(3), of 0] s1 alarm_kernel_ok(2) by simp
qed

text \<open>C40: a copy-on-write fault forgets a pending kill. A process that was killed while it ran and then stores to a
  shared page gets its private copy, its mark is cleared, and it returns to user space.\<close>

theorem cow_fault_forgets_kill:
  assumes "killed s me" "r_sstatus r AND SSTATUS_SPP = 0" "r_scause r = 15"
    "removecopy (tf_set me TF_EPC (r_sepc r) s) (p_pagetable (procs s me)) (r_stval r)
       (PGROUNDDOWN (tf_get (tf_set me TF_EPC (r_sepc r) s) me TF_SP)) = Inr (0, s1)"
  shows "\<exists>s'. usertrap pol s me r hart irq = Inr (TReturn, s') \<and> \<not> killed s' me"
  using assms by (simp add: usertrap_def Let_def usertrap_tail_def killed_def tf_set_def)

text \<open>A killed process that stores to a shared page.\<close>

definition fault_kernel :: ksys where
  "fault_kernel = kfile.extend ((small_kernel (mem (demo_map PTE_COW)))\<lparr>freelist := freelist (demo_map PTE_COW),
     nump_using := nump_using (demo_map PTE_COW),
     procs := (\<lambda>_. idle_proc)(0 := idle_proc\<lparr>p_state := RUNNING, p_pid := 1, p_trapframe := 0x87fff000,
       p_pagetable := 0x87ffe000, p_killed := 1\<rparr>)\<rparr>)
     \<lparr>read_count = 0, fork_first = False, stack_words = (0, 0)\<rparr>"

definition fault_regs :: regs where
  "fault_regs = \<lparr>r_sstatus = 0, r_sepc = 0x100, r_scause = 15, r_stval = 0, r_satp = 0, r_tp = 0, r_stvec = 0\<rparr>"

lemma fault_kernel_fields:
  "mem fault_kernel = mem (demo_map PTE_COW)" "freelist fault_kernel = freelist (demo_map PTE_COW)"
  "nump_using fault_kernel = nump_using (demo_map PTE_COW)"
  "procs fault_kernel 0 = idle_proc\<lparr>p_state := RUNNING, p_pid := 1, p_trapframe := 0x87fff000,
       p_pagetable := 0x87ffe000, p_killed := 1\<rparr>"
  by (simp_all add: fault_kernel_def kfile.defs small_kernel_def)

lemma fault_kernel_removecopy:
  "\<exists>s1. removecopy (tf_set 0 TF_EPC v fault_kernel) 0x87ffe000 0 sz = Inr (0, s1)"
proof -
  let ?d = "demo_map PTE_COW"
  define s where "s = tf_set 0 TF_EPC v fault_kernel"
  obtain fl0 where d: "vinv2 0x87ff8000 fl0 0x87ffe000 0x87fff000 ?d" "3 \<le> length fl0"
    "copy_ready 0x87ff8000 0x87ffe000 0x87fff000 ?d 0"
    using demo_fork_ready [OF cow_flag] by blast
  then obtain p fl where fl: "fl0 = p # fl" by (cases fl0) auto
  have z: "(0 :: uint64) < MAXVA" by (simp add: MAXVA_def)
  have e: "pte_at ?d 0x87ffe000 0 = PA2PTE 0x87ffd000 OR (PTE_COW OR PTE_V)"
    using demo_map_ok [of PTE_COW] z by (auto simp: PGROUNDDOWN_def or.assoc)
  have pa: "PTE2PA (pte_at ?d 0x87ffe000 0) = 0x87ffd000"
    by (simp add: e PTE2PA_PA2PTE) (simp add: PGROUNDDOWN_def PGSIZE_def)
  have r: "1 \<le> refs ?d 0x87ffd000" "page_ok 0x87ff8000 0x87ffd000" "0x87ffd000 \<notin> tables ?d 0x87ffe000"
    "is_V (pte_at ?d 0x87ffe000 0)"
    using d(3) unfolding copy_ready_def pa by auto
  have c: "pte_at ?d 0x87ffe000 0 AND PTE_COW \<noteq> 0"
    by (simp add: e PA2PTE_flag_test bit.conj_disj_distrib2 COW_flags)
  have v: "vinv 0x87ff8000 (p # fl) 0x87ffe000 ?d" and v2: "vinv 0x87ff8000 (p # fl) 0x87fff000 ?d"
    and t2: "0x87fff000 \<in> tables ?d 0x87fff000" "tables ?d 0x87ffe000 \<inter> tables ?d 0x87fff000 = {}"
    using d(1) fl by (auto simp: vinv2_def)
  have out: "0x87fff000 \<notin> set (p # fl)" "0x87fff000 \<notin> tables ?d 0x87ffe000"
    using v2 t2 by (auto simp: vinv_def)
  have al: "page_aligned (0x87fff000 :: uint64)" by (simp add: page_aligned_def layout_defs)
  have "agree_off 0x87fff000 (mem ?d) (mem s)"
    unfolding s_def tf_set_def fault_kernel_fields
    by (simp add: fault_kernel_fields, intro agree_off_store64)
      (use dvd8_offset [OF al, of TF_EPC] page_offset_in [OF al, of TF_EPC] in \<open>simp_all add: TF_EPC_def\<close>)
  then have same: "same_page q (mem ?d) (mem s)" if "q \<noteq> 0x87fff000" for q using agree_off_same that by blast
  have k: "kinv 0x87ff8000 (p # fl) s"
  proof -
    have "\<forall>q \<in> set (p # fl). same_page q (mem ?d) (mem s)" using same out(1) by metis
    moreover have "kinv 0x87ff8000 (p # fl) ?d" using v by (simp add: vinv_def)
    ultimately have "kinv 0x87ff8000 (p # fl) (?d\<lparr>mem := mem s\<rparr>)" by (intro kinv_mem)
    then show ?thesis by (subst kinv_fields [where t = "?d\<lparr>mem := mem s\<rparr>"])
        (simp_all add: s_def tf_set_def fault_kernel_fields)
  qed
  have tabs: "\<forall>q \<in> tables ?d 0x87ffe000. same_page q (mem ?d) (mem s)" using same out(2) by metis
  have disj: "set (p # fl) \<inter> tables ?d 0x87ffe000 = {}" using v by (simp add: vinv_def)
  note f = vinv_frame [OF v k disj tabs]
  have refs: "refs s q = refs ?d q" for q by (simp add: s_def tf_set_def refs_def fault_kernel_fields)
  have g: "\<not> (sz \<noteq> 0 \<and> PGROUNDDOWN 0 > sz - PGSIZE \<and> PGROUNDDOWN 0 < sz)" by (simp add: PGROUNDDOWN_def)
  have s: "is_V (pte_at s 0x87ffe000 0)" "pte_at s 0x87ffe000 0 AND PTE_COW \<noteq> 0" "page_ok 0x87ff8000 (PTE2PA (pte_at s 0x87ffe000 0))"
    "1 \<le> refs s (PTE2PA (pte_at s 0x87ffe000 0))" "PTE2PA (pte_at s 0x87ffe000 0) \<notin> tables s 0x87ffe000"
    using r c by (simp_all add: f refs pa)
  show ?thesis
    using removecopy_private [OF f(1) z g refl s] unfolding s_def by blast
qed

theorem cow_fault_forgets_kill_witness:
  "\<exists>s'. killed fault_kernel 0 \<and> usertrap RR fault_kernel 0 fault_regs 0 0 = Inr (TReturn, s') \<and> \<not> killed s' 0"
proof -
  have k: "killed fault_kernel 0" by (simp add: killed_def fault_kernel_fields)
  let ?s = "tf_set 0 TF_EPC (r_sepc fault_regs) fault_kernel"
  obtain s1 where "removecopy ?s (p_pagetable (procs fault_kernel 0)) (r_stval fault_regs) (PGROUNDDOWN (tf_get ?s 0 TF_SP)) = Inr (0, s1)"
    using fault_kernel_removecopy by (auto simp: fault_kernel_fields fault_regs_def)
  from cow_fault_forgets_kill [OF k _ _ this] k show ?thesis by (simp add: fault_regs_def)
qed

end
