(* ===== verification/Bcache.thy ===== *)
theory Bcache
  imports Log
begin

text \<open>
  Correctness of the buffer cache. First the doubly linked list: \<open>ring s xs\<close> says that the
  \<open>next\<close> pointers run through \<open>xs\<close> and the \<open>prev\<close> pointers back, and the pointer updates of
  \<open>brelse\<close> move an element to the front. Then the cache as a whole: \<open>cache s V P L\<close> says
  that the cache shows block contents \<open>V\<close>, counts \<open>P\<close> references per block and has the
  blocks \<open>L\<close> locked. Each operation is specified on these three; in particular a buffer is
  only recycled when its contents are on disk.
\<close>

section \<open>The linked list\<close>

fun chain :: "(nat \<Rightarrow> nat) \<Rightarrow> nat \<Rightarrow> nat list \<Rightarrow> nat \<Rightarrow> bool" where
  "chain nx a [] z \<longleftrightarrow> nx a = z"
| "chain nx a (x # xs) z \<longleftrightarrow> nx a = x \<and> chain nx x xs z"

lemma chain_append: "chain nx a (xs @ y # ys) z \<longleftrightarrow> chain nx a xs y \<and> chain nx y ys z"
  by (induction xs arbitrary: a) auto

lemma chain_cong: "\<forall>x \<in> set (a # xs). nx' x = nx x \<Longrightarrow> chain nx' a xs z = chain nx a xs z"
  by (induction xs arbitrary: a) auto

lemma chain_start: "chain nx a xs z \<Longrightarrow> nx' b = nx a \<Longrightarrow> \<forall>x \<in> set xs. nx' x = nx x \<Longrightarrow> chain nx' b xs z"
  by (cases xs) (auto simp: chain_cong [where nx' = nx' and nx = nx])

lemma chain_redirect:
  "chain nx a xs b \<Longrightarrow> distinct (a # xs) \<Longrightarrow> chain (nx(last (a # xs) := c)) a xs c"
  by (induction xs arbitrary: a) auto

lemma chain_first: "chain nx a xs z \<Longrightarrow> nx a = hd (xs @ [z])"
  by (cases xs) auto

lemma chain_remove:
  assumes "chain nx a (ys @ b # zs) z" "distinct (a # ys @ b # zs)"
  shows "chain (nx(last (a # ys) := nx b)) a (ys @ zs) z"
proof -
  have c: "chain nx a ys b" "chain nx b zs z" using assms(1) by (simp_all add: chain_append)
  have r: "chain (nx(last (a # ys) := nx b)) a ys (nx b)"
    using c(1) assms(2) by (intro chain_redirect) auto
  show ?thesis
  proof (cases zs)
    case Nil
    then show ?thesis using r c(2) by simp
  next
    case (Cons x xs)
    have "last (a # ys) \<notin> set (x # xs)" using assms(2) Cons last_in_set [of "a # ys"] by auto
    then have "chain (nx(last (a # ys) := nx b)) x xs z"
      using c(2) Cons by (subst chain_cong [where nx = nx]) auto
    then show ?thesis using r c(2) Cons by (simp add: chain_append)
  qed
qed

abbreviation nexts :: "'z kbio_scheme \<Rightarrow> nat \<Rightarrow> nat" where
  "nexts s \<equiv> \<lambda>b. b_next (bufs s b)"

abbreviation prevs :: "'z kbio_scheme \<Rightarrow> nat \<Rightarrow> nat" where
  "prevs s \<equiv> \<lambda>b. b_prev (bufs s b)"

definition ring :: "'z kbio_scheme \<Rightarrow> nat list \<Rightarrow> bool" where
  "ring s xs \<longleftrightarrow> distinct (NBUF # xs) \<and> chain (nexts s) NBUF xs NBUF \<and> chain (prevs s) NBUF (rev xs) NBUF"

lemma bufs_buf_upd [simp]: "bufs (buf_upd b f s) c = (if c = b then f (bufs s b) else bufs s c)"
  by (simp add: buf_upd_def)


lemma unlink_nexts: "nexts s b \<noteq> b \<Longrightarrow> prevs s b \<noteq> b \<Longrightarrow> nexts (unlink b s) = (nexts s)(prevs s b := nexts s b)"
  by (auto simp: unlink_def Let_def fun_eq_iff)

lemma unlink_prevs: "nexts s b \<noteq> b \<Longrightarrow> prevs s b \<noteq> b \<Longrightarrow> prevs (unlink b s) = (prevs s)(nexts s b := prevs s b)"
  by (auto simp: unlink_def Let_def fun_eq_iff)

lemma link_front_nexts: "b \<noteq> NBUF \<Longrightarrow> nexts (link_front b s) = (nexts s)(b := nexts s NBUF, NBUF := b)"
  by (auto simp: link_front_def Let_def fun_eq_iff)

lemma link_front_prevs:
  "b \<noteq> NBUF \<Longrightarrow> nexts s NBUF \<noteq> b \<Longrightarrow> prevs (link_front b s) = (prevs s)(b := NBUF, nexts s NBUF := b)"
  by (auto simp: link_front_def Let_def fun_eq_iff)

text \<open>The payload of a buffer: everything but its place in the list.\<close>

definition payload :: "buf \<Rightarrow> bool \<times> uint \<times> uint \<times> sleeplock \<times> int \<times> uint8 list" where
  "payload x = (b_valid x, b_dev x, b_blockno x, b_lock x, b_refcnt x, b_data x)"

lemma payload_links [simp]:
  "payload (bufs (unlink b s) c) = payload (bufs s c)"
  "payload (bufs (link_front b s) c) = payload (bufs s c)"
  by (simp_all add: payload_def unlink_def link_front_def Let_def)

lemma ring_unlink:
  assumes "ring s (ys @ b # zs)"
  shows "ring (unlink b s) (ys @ zs)"
proof -
  have d: "distinct (NBUF # ys @ b # zs)" and n: "chain (nexts s) NBUF (ys @ b # zs) NBUF"
    and p: "chain (prevs s) NBUF (rev zs @ b # rev ys) NBUF" using assms by (simp_all add: ring_def)
  have d': "distinct (NBUF # rev zs @ b # rev ys)" using d by auto
  have nb: "nexts s b = last (NBUF # rev zs)"
    using n chain_first [of "nexts s" b zs NBUF] by (cases zs) (auto simp: chain_append)
  have pb: "prevs s b = last (NBUF # ys)"
    using p chain_first [of "prevs s" b "rev ys" NBUF] by (cases ys rule: rev_cases) (auto simp: chain_append)
  have ne: "nexts s b \<noteq> b" "prevs s b \<noteq> b" unfolding nb pb
    using d last_in_set [of "NBUF # rev zs"] last_in_set [of "NBUF # ys"] by auto
  have "chain (nexts (unlink b s)) NBUF (ys @ zs) NBUF"
    unfolding unlink_nexts [OF ne] pb using chain_remove [OF n d] .
  moreover have "chain (prevs (unlink b s)) NBUF (rev zs @ rev ys) NBUF"
    unfolding unlink_prevs [OF ne] nb using chain_remove [OF p d'] .
  ultimately show ?thesis using d by (simp add: ring_def)
qed

lemma ring_link_front:
  assumes "ring s xs" "b \<notin> set xs" "b \<noteq> NBUF"
  shows "ring (link_front b s) (b # xs)"
proof -
  have d: "distinct (NBUF # xs)" and n: "chain (nexts s) NBUF xs NBUF" and p: "chain (prevs s) NBUF (rev xs) NBUF"
    using assms(1) by (simp_all add: ring_def)
  have first: "nexts s NBUF = last (NBUF # rev xs)"
    using chain_first [OF n] by (cases xs) auto
  have nb: "nexts s NBUF \<noteq> b" unfolding first using assms(2,3) last_in_set [of "NBUF # rev xs"] by auto
  have "chain (nexts (link_front b s)) b xs NBUF"
    unfolding link_front_nexts [OF assms(3)]
    by (rule chain_start [OF n]) (use assms(2,3) d in auto)
  moreover have "chain (prevs (link_front b s)) NBUF (rev xs) b"
  proof -
    have "chain ((prevs s)(last (NBUF # rev xs) := b)) NBUF (rev xs) b"
      using p d by (intro chain_redirect [where b = NBUF]) auto
    then show ?thesis unfolding link_front_prevs [OF assms(3) nb] first
      by (subst chain_cong [where nx = "(prevs s)(last (NBUF # rev xs) := b)"]) (use assms(2,3) in auto)
  qed
  moreover have "nexts (link_front b s) NBUF = b" using link_front_nexts [OF assms(3), of s] by (metis fun_upd_same)
  moreover have "prevs (link_front b s) b = NBUF"
    using link_front_prevs [OF assms(3) nb] nb by (metis fun_upd_other fun_upd_same)
  ultimately show ?thesis using d assms(2,3) by (simp add: ring_def chain_append)
qed

lemma ring_to_front:
  assumes "ring s xs" "b \<in> set xs"
  shows "ring (link_front b (unlink b s)) (b # remove1 b xs)"
proof -
  obtain ys zs where xs: "xs = ys @ b # zs" "b \<notin> set ys" using split_list_first [OF assms(2)] by blast
  have d: "distinct (NBUF # xs)" using assms(1) by (simp add: ring_def)
  have "ring (unlink b s) (ys @ zs)" using ring_unlink assms(1) xs(1) by metis
  then have "ring (link_front b (unlink b s)) (b # ys @ zs)"
    by (rule ring_link_front) (use d xs in auto)
  then show ?thesis using xs by (simp add: remove1_append)
qed


section \<open>The cache as seen by its callers\<close>

abbreviation holds :: "uint \<Rightarrow> 'z kbio_scheme \<Rightarrow> nat \<Rightarrow> uint \<Rightarrow> bool" where
  "holds d s b n \<equiv> b < NBUF \<and> b_dev (bufs s b) = d \<and> b_blockno (bufs s b) = n"

text \<open>
  One buffer of the cache against the view: \<open>D\<close> is the disk, \<open>V\<close> the contents a reader sees,
  \<open>P\<close> the reference counts and \<open>L\<close> the locked blocks.
\<close>

definition buf_ok :: "uint \<Rightarrow> buf \<Rightarrow> (uint \<Rightarrow> uint8 list) \<Rightarrow> (uint \<Rightarrow> uint8 list) \<Rightarrow> (uint \<Rightarrow> int) \<Rightarrow> uint set \<Rightarrow> bool" where
  "buf_ok d x D V P L \<longleftrightarrow>
     (if b_dev x = d
      then b_refcnt x = P (b_blockno x) \<and> (sl_locked (b_lock x) \<longleftrightarrow> b_blockno x \<in> L) \<and>
           (if b_valid x then b_data x = V (b_blockno x) else V (b_blockno x) = D (b_blockno x))
      else b_refcnt x = 0 \<and> \<not> sl_locked (b_lock x))"

definition cache :: "uint \<Rightarrow> 'z kbio_scheme \<Rightarrow> (uint \<Rightarrow> uint8 list) \<Rightarrow> (uint \<Rightarrow> int) \<Rightarrow> uint set \<Rightarrow> bool" where
  "cache d s V P L \<longleftrightarrow>
     (\<exists>xs. ring s xs \<and> set xs = {..<NBUF}) \<and>
     (\<forall>b b' n. holds d s b n \<longrightarrow> holds d s b' n \<longrightarrow> b = b') \<and>
     (\<forall>b < NBUF. buf_ok d (bufs s b) (disk s) V P L) \<and>
     (\<forall>n. 0 \<le> P n) \<and>
     (\<forall>n. P n = 0 \<longrightarrow> V n = disk s n \<and> n \<notin> L) \<and>
     (\<forall>n. P n \<noteq> 0 \<longrightarrow> (\<exists>b. holds d s b n))"

text \<open>The caller holds buffer \<open>b\<close>, with block \<open>n\<close> read in, locked.\<close>

definition owns :: "uint \<Rightarrow> 'z kbio_scheme \<Rightarrow> nat \<Rightarrow> nat \<Rightarrow> uint \<Rightarrow> bool" where
  "owns d s me b n \<longleftrightarrow> holds d s b n \<and> b_valid (bufs s b) \<and> holdingsleep s me (b_lock (bufs s b))"

text \<open>What no cache operation touches: the state above the cache and the process identifiers.\<close>

definition keeps :: "'z kbio_scheme \<Rightarrow> 'z kbio_scheme \<Rightarrow> bool" where
  "keeps s s' \<longleftrightarrow> kbio.more s' = kbio.more s \<and> (\<forall>i. p_pid (procs s' i) = p_pid (procs s i))"

lemma keeps_refl [simp]: "keeps s s"
  by (simp add: keeps_def)

lemma keeps_trans: "keeps s t \<Longrightarrow> keeps t u \<Longrightarrow> keeps s u"
  by (simp add: keeps_def)

lemma cacheD:
  assumes "cache d s V P L"
  shows "\<exists>xs. ring s xs \<and> set xs = {..<NBUF}"
    and "holds d s b n \<Longrightarrow> holds d s b' n \<Longrightarrow> b = b'"
    and "b < NBUF \<Longrightarrow> buf_ok d (bufs s b) (disk s) V P L"
    and "0 \<le> P n" and "P n = 0 \<Longrightarrow> V n = disk s n" and "P n = 0 \<Longrightarrow> n \<notin> L"
    and "P n \<noteq> 0 \<Longrightarrow> \<exists>b. holds d s b n"
  using assms unfolding cache_def by metis+

lemma owns_data: "cache d s V P L \<Longrightarrow> owns d s me b n \<Longrightarrow> b_data (bufs s b) = V n"
  using cacheD(3) by (fastforce simp: owns_def buf_ok_def)

lemma owns_locked: "cache d s V P L \<Longrightarrow> owns d s me b n \<Longrightarrow> n \<in> L"
  using cacheD(3) by (fastforce simp: owns_def buf_ok_def holdingsleep_def)

lemma owns_refs: "cache d s V P L \<Longrightarrow> owns d s me b n \<Longrightarrow> 0 < P n"
  using owns_locked cacheD(4,6) by (metis order_le_less)

text \<open>The cache depends on the payload of the buffers, the disk and the list only.\<close>

lemma cache_cong:
  assumes "cache d s V P L" "\<And>b. b < NBUF \<Longrightarrow> payload (bufs s' b) = payload (bufs s b)" "disk s' = disk s"
    "\<exists>xs. ring s' xs \<and> set xs = {..<NBUF}"
  shows "cache d s' V P L"
proof -
  have h: "holds d s' b n = holds d s b n" for b n using assms(2) [of b] by (auto simp: payload_def)
  have k: "b < NBUF \<Longrightarrow> buf_ok d (bufs s' b) D V P L = buf_ok d (bufs s b) D V P L" for b D
    using assms(2) [of b] by (auto simp: payload_def buf_ok_def)
  show ?thesis using assms(1,3,4) unfolding cache_def by (simp only: h k cong: imp_cong) simp
qed

text \<open>The number of buffers in use is the number of referenced blocks.\<close>

lemma free_buffer:
  assumes "cache d s V P L" "card {n. P n \<noteq> 0} < NBUF"
  shows "\<exists>b < NBUF. b_refcnt (bufs s b) = 0"
proof (rule ccontr)
  assume "\<not> ?thesis"
  then have r: "b < NBUF \<Longrightarrow> b_refcnt (bufs s b) \<noteq> 0" for b by blast
  have dev: "b < NBUF \<Longrightarrow> b_dev (bufs s b) = d \<and> P (b_blockno (bufs s b)) \<noteq> 0" for b
    using cacheD(3) [OF assms(1), of b] r [of b] by (auto simp: buf_ok_def split: if_splits)
  have inj: "inj_on (\<lambda>b. b_blockno (bufs s b)) {..<NBUF}"
    using cacheD(2) [OF assms(1)] dev by (auto intro!: inj_onI)
  have fin: "finite {n. P n \<noteq> 0}"
    by (rule finite_subset [of _ UNIV]) auto
  have "NBUF = card ((\<lambda>b. b_blockno (bufs s b)) ` {..<NBUF})" using inj by (simp add: card_image)
  also have "\<dots> \<le> card {n. P n \<noteq> 0}" using dev fin by (intro card_mono) auto
  finally show False using assms(2) by simp
qed


section \<open>The operations on the view\<close>

lemma bget_cached_find:
  "chain (nexts s) a xs NBUF \<Longrightarrow> NBUF \<notin> set xs \<Longrightarrow> length xs < fuel \<Longrightarrow>
    bget_cached fuel s d n (nexts s a) = Inr (find (\<lambda>b. b_dev (bufs s b) = d \<and> b_blockno (bufs s b) = n) xs)"
proof (induction xs arbitrary: a fuel)
  case Nil
  then show ?case by (cases fuel) auto
next
  case (Cons x xs)
  then show ?case by (cases fuel) auto
qed

lemma bget_unused_find:
  "chain (prevs s) a xs NBUF \<Longrightarrow> NBUF \<notin> set xs \<Longrightarrow> length xs < fuel \<Longrightarrow>
    bget_unused fuel s (prevs s a) = Inr (find (\<lambda>b. b_refcnt (bufs s b) = 0) xs)"
proof (induction xs arbitrary: a fuel)
  case Nil
  then show ?case by (cases fuel) auto
next
  case (Cons x xs)
  then show ?case by (cases fuel) auto
qed

lemma ring_loops:
  assumes "ring s xs" "set xs = {..<NBUF}"
  shows "bget_cached (Suc NBUF) s d n (nexts s NBUF) =
      Inr (find (\<lambda>b. b_dev (bufs s b) = d \<and> b_blockno (bufs s b) = n) xs)"
    and "bget_unused (Suc NBUF) s (prevs s NBUF) = Inr (find (\<lambda>b. b_refcnt (bufs s b) = 0) (rev xs))"
proof -
  have "distinct xs" "NBUF \<notin> set xs" using assms(1) by (auto simp: ring_def)
  then have len: "length xs = NBUF" using distinct_card [of xs] assms(2) by simp
  show "bget_cached (Suc NBUF) s d n (nexts s NBUF) =
      Inr (find (\<lambda>b. b_dev (bufs s b) = d \<and> b_blockno (bufs s b) = n) xs)"
    using assms(1) len by (intro bget_cached_find) (auto simp: ring_def)
  show "bget_unused (Suc NBUF) s (prevs s NBUF) = Inr (find (\<lambda>b. b_refcnt (bufs s b) = 0) (rev xs))"
    using assms(1) len by (intro bget_unused_find) (auto simp: ring_def)
qed

lemma ring_buf_upd:
  assumes "\<And>x. b_next (f x) = b_next x" "\<And>x. b_prev (f x) = b_prev x"
  shows "ring (buf_upd b f s) xs = ring s xs"
proof -
  have "nexts (buf_upd b f s) = nexts s" "prevs (buf_upd b f s) = prevs s" using assms by (auto simp: fun_eq_iff)
  then show ?thesis by (simp add: ring_def)
qed


declare bget_cached.simps [simp del] bget_unused.simps [simp del]

text \<open>An update of a buffer that leaves it with its block, and the recycling of a buffer.\<close>

lemma ring_same_links:
  assumes "ring s xs" "\<And>b. b_next (bufs s' b) = b_next (bufs s b)" "\<And>b. b_prev (bufs s' b) = b_prev (bufs s b)"
  shows "ring s' xs"
  using assms by (simp add: ring_def)

lemma cache_upd_same:
  assumes c: "cache d s V P L" and h: "holds d s b n" and u: "bufs s' = (bufs s)(b := x)"
    and lk: "b_next x = b_next (bufs s b)" "b_prev x = b_prev (bufs s b)"
    and x: "b_dev x = d" "b_blockno x = n" "buf_ok d x (disk s') (V(n := v)) (P(n := p)) L'"
    and dk: "\<And>m. m \<noteq> n \<Longrightarrow> disk s' m = disk s m" and L: "\<And>m. m \<noteq> n \<Longrightarrow> m \<in> L' \<longleftrightarrow> m \<in> L"
    and p: "0 \<le> p" "p = 0 \<Longrightarrow> v = disk s' n \<and> n \<notin> L'"
  shows "cache d s' (V(n := v)) (P(n := p)) L'"
proof -
  obtain xs where xs: "ring s xs" "set xs = {..<NBUF}" using cacheD(1) [OF c] by blast
  have r: "ring s' xs" using xs(1) by (rule ring_same_links) (use u lk in auto)
  have hs: "holds d s' a m = holds d s a m" for a m using u x h by auto
  have ok: "buf_ok d (bufs s' a) (disk s') (V(n := v)) (P(n := p)) L'" if a: "a < NBUF" for a
  proof (cases "a = b")
    case True
    then show ?thesis using x(3) u by simp
  next
    case False
    then have ne: "b_dev (bufs s a) = d \<Longrightarrow> b_blockno (bufs s a) \<noteq> n" using cacheD(2) [OF c h, of a] a by auto
    show ?thesis using False ne cacheD(3) [OF c a] u dk L by (auto simp: buf_ok_def)
  qed
  have "\<exists>b. holds d s b m" if "(P(n := p)) m \<noteq> 0" for m
    using that h cacheD(7) [OF c, of m] by (cases "m = n") auto
  moreover have "V m = disk s' m \<and> m \<notin> L'" if "P m = 0" "m \<noteq> n" for m
    using that cacheD(5,6) [OF c, of m] dk L by auto
  ultimately show ?thesis unfolding cache_def hs using xs(2) r ok p cacheD(2) [OF c] cacheD(4) [OF c] by auto
qed

lemma cache_upd_recycle:
  assumes c: "cache d s V P L" and b: "b < NBUF" "b_refcnt (bufs s b) = 0" and none: "\<And>a. \<not> holds d s a n"
    and u: "bufs s' = (bufs s)(b := x)" "disk s' = disk s"
    and lk: "b_next x = b_next (bufs s b)" "b_prev x = b_prev (bufs s b)"
    and x: "b_dev x = d" "b_blockno x = n" "b_refcnt x = 1" "sl_locked (b_lock x)" "b_valid x" "b_data x = disk s n"
  shows "cache d s' V (P(n := 1)) (insert n L)"
proof -
  obtain xs where xs: "ring s xs" "set xs = {..<NBUF}" using cacheD(1) [OF c] by blast
  have r: "ring s' xs" using xs(1) by (rule ring_same_links) (use u lk in auto)
  have Pn: "P n = 0" using cacheD(7) [OF c] none by blast
  have Vn: "V n = disk s n" using cacheD(5) [OF c Pn] .
  have hs: "holds d s' a m \<longleftrightarrow> (if a = b then m = n else holds d s a m)" for a m using u x b by auto
  have ok: "buf_ok d (bufs s' a) (disk s') V (P(n := 1)) (insert n L)" if a: "a < NBUF" for a
    using cacheD(3) [OF c a] none [of a] a u x Vn by (auto simp: buf_ok_def)
  have old: "b_dev (bufs s b) = d \<Longrightarrow> P (b_blockno (bufs s b)) = 0"
    using cacheD(3) [OF c b(1)] b(2) by (auto simp: buf_ok_def)
  have "\<exists>a. holds d s' a m" if pm: "(P(n := 1)) m \<noteq> 0" for m
  proof (cases "m = n")
    case True
    then show ?thesis unfolding hs by (intro exI [of _ b]) simp
  next
    case False
    then obtain a where "holds d s a m" using cacheD(7) [OF c, of m] pm by auto
    then show ?thesis unfolding hs using old pm False by (intro exI [of _ a]) auto
  qed
  moreover have "a = a'" if "holds d s' a m" "holds d s' a' m" for a a' m
    using that none cacheD(2) [OF c, of a m a'] unfolding hs by (auto split: if_splits)
  ultimately show ?thesis unfolding cache_def using xs(2) r ok cacheD(4-6) [OF c] u(2) by auto
qed

text \<open>
  \<open>bread\<close> finds the block in the cache or recycles a buffer that nobody references; either
  way the caller gets the block's current contents, locked, and no other block changes.
\<close>

lemma bread_ok:
  assumes c: "cache d s V P L" and n: "n \<notin> L" and room: "P n \<noteq> 0 \<or> card {m. P m \<noteq> 0} < NBUF"
  obtains b s' where "bread s me d n = Inr (b, s')" "cache d s' V (P(n := P n + 1)) (insert n L)"
    "owns d s' me b n" "keeps s s'" "disk s' = disk s" "disk_log s' = disk_log s"
    "\<And>b' n'. owns d s me b' n' \<Longrightarrow> owns d s' me b' n'"
proof -
  obtain xs where xs: "ring s xs" "set xs = {..<NBUF}" using cacheD(1) [OF c] by blast
  note loops = ring_loops [OF xs]
  show thesis
  proof (cases "find (\<lambda>b. b_dev (bufs s b) = d \<and> b_blockno (bufs s b) = n) xs")
    case (Some b)
    then have h: "holds d s b n" using xs(2) by (auto simp: find_Some_iff)
    have ok: "buf_ok d (bufs s b) (disk s) V P L" using cacheD(3) [OF c] h by blast
    have ok': "b_refcnt (bufs s b) = P n" "\<not> sl_locked (b_lock (bufs s b))"
      using ok h n by (simp_all add: buf_ok_def)
    define y where "y = (bufs s b)\<lparr>b_refcnt := b_refcnt (bufs s b) + 1,
      b_lock := (b_lock (bufs s b))\<lparr>sl_locked := True, sl_pid := p_pid (procs s me)\<rparr>\<rparr>"
    define x where "x = (if b_valid (bufs s b) then y else y\<lparr>b_data := disk s n, b_valid := True\<rparr>)"
    define s' where "s' = s\<lparr>bufs := (bufs s)(b := x)\<rparr>"
    have eq: "bread s me d n = Inr (b, s')"
      using ok' h by (cases "b_valid (bufs s b)") (simp_all add: bread_def bget_def loops Some Let_def lock_buf_def
          acquiresleep_alt buf_upd_def virtio_disk_rw_def s'_def x_def y_def)
    have "cache d s' (V(n := V n)) (P(n := P n + 1)) (insert n L)"
      by (rule cache_upd_same [OF c h, where x = x])
         (use h ok ok' cacheD(4) [OF c, of n] in \<open>auto simp: s'_def x_def y_def buf_ok_def\<close>)
    then have c': "cache d s' V (P(n := P n + 1)) (insert n L)" by simp
    show thesis
      by (rule that [OF eq c']) (use h ok' in \<open>auto simp: owns_def keeps_def s'_def x_def y_def holdingsleep_def\<close>)
  next
    case None
    then have none: "\<not> holds d s a n" for a using xs(2) by (auto simp: find_None_iff)
    then have Pn: "P n = 0" using cacheD(7) [OF c] by blast
    then obtain b0 where b0: "b0 < NBUF" "b_refcnt (bufs s b0) = 0" using free_buffer [OF c] room by blast
    then obtain b where f: "find (\<lambda>b. b_refcnt (bufs s b) = 0) (rev xs) = Some b"
      using xs(2) by (cases "find (\<lambda>b. b_refcnt (bufs s b) = 0) (rev xs)") (auto simp: find_None_iff)
    then have b: "b < NBUF" "b_refcnt (bufs s b) = 0" using xs(2) nth_mem [of _ "rev xs"] by (fastforce simp: find_Some_iff)+
    have ok: "buf_ok d (bufs s b) (disk s) V P L" using cacheD(3) [OF c] b by blast
    have free: "\<not> sl_locked (b_lock (bufs s b))"
      using ok b(2) cacheD(6) [OF c] by (auto simp: buf_ok_def split: if_splits)
    define x where "x = (bufs s b)\<lparr>b_dev := d, b_blockno := n, b_refcnt := 1,
      b_lock := (b_lock (bufs s b))\<lparr>sl_locked := True, sl_pid := p_pid (procs s me)\<rparr>, b_data := disk s n, b_valid := True\<rparr>"
    define s' where "s' = s\<lparr>bufs := (bufs s)(b := x)\<rparr>"
    have eq: "bread s me d n = Inr (b, s')"
      using free by (simp add: bread_def bget_def loops None f Let_def lock_buf_def acquiresleep_alt buf_upd_def
          virtio_disk_rw_def s'_def x_def)
    have "cache d s' V (P(n := 1)) (insert n L)"
      by (rule cache_upd_recycle [OF c b none, where x = x]) (auto simp: s'_def x_def)
    then have c': "cache d s' V (P(n := P n + 1)) (insert n L)" using Pn by simp
    show thesis
      by (rule that [OF eq c']) (use b free in \<open>auto simp: owns_def keeps_def s'_def x_def holdingsleep_def\<close>)
  qed
qed

lemma set_data_ok:
  assumes c: "cache d s V P L" and o: "owns d s me b n"
  shows "cache d (set_data b v s) (V(n := v)) P L"
proof -
  have "cache d (set_data b v s) (V(n := v)) (P(n := P n)) L"
    by (rule cache_upd_same [OF c, where x = "(bufs s b)\<lparr>b_data := v\<rparr>" and b = b])
       (use o cacheD(3) [OF c, of b] owns_refs [OF c o] in \<open>auto simp: owns_def set_data_def buf_upd_def buf_ok_def\<close>)
  then show ?thesis by simp
qed

lemma bwrite_ok:
  assumes c: "cache d s V P L" and o: "owns d s me b n"
  defines "s' \<equiv> s\<lparr>disk := (disk s)(n := V n), disk_log := disk_log s @ [(n, V n)]\<rparr>"
  shows "bwrite s me b = Inr s'" "cache d s' V P L"
proof -
  show "bwrite s me b = Inr s'" using o owns_data [OF c o]
    by (simp add: bwrite_def virtio_disk_rw_def Let_def owns_def s'_def)
  have "cache d s' (V(n := V n)) (P(n := P n)) L"
    by (rule cache_upd_same [OF c, where x = "bufs s b" and b = b])
       (use o cacheD(3) [OF c, of b] owns_refs [OF c o] in \<open>auto simp: owns_def s'_def buf_ok_def\<close>)
  then show "cache d s' V P L" by simp
qed

lemma bpin_ok:
  assumes c: "cache d s V P L" and o: "owns d s me b n" and k: "0 < P n + k"
  shows "cache d (buf_upd b (\<lambda>x. x\<lparr>b_refcnt := b_refcnt x + k\<rparr>) s) V (P(n := P n + k)) L"
proof -
  have "cache d (buf_upd b (\<lambda>x. x\<lparr>b_refcnt := b_refcnt x + k\<rparr>) s) (V(n := V n)) (P(n := P n + k)) L"
    by (rule cache_upd_same [OF c, where x = "(bufs s b)\<lparr>b_refcnt := b_refcnt (bufs s b) + k\<rparr>" and b = b])
       (use o k cacheD(3) [OF c, of b] in \<open>auto simp: owns_def buf_upd_def buf_ok_def\<close>)
  then show ?thesis by simp
qed

text \<open>
  \<open>brelse\<close> gives up one reference. The last one may go only when the contents are on disk,
  since the buffer may be recycled from then on.
\<close>

lemma brelse_ok:
  assumes c: "cache d s V P L" and o: "owns d s me b n" and clean: "P n = 1 \<Longrightarrow> V n = disk s n"
  obtains s' where "brelse s me b = Inr s'" "cache d s' V (P(n := P n - 1)) (L - {n})"
    "keeps s s'" "disk s' = disk s" "disk_log s' = disk_log s"
    "\<And>b' n'. b' \<noteq> b \<Longrightarrow> owns d s me b' n' \<Longrightarrow> owns d s' me b' n'"
proof -
  have h: "holds d s b n" and hl: "holdingsleep s me (b_lock (bufs s b))" using o by (auto simp: owns_def)
  have ok: "buf_ok d (bufs s b) (disk s) V P L" using cacheD(3) [OF c] h by blast
  have pos: "0 < P n" using owns_refs [OF c o] .
  define w where "w = wakeup s (Some me) (ChSleeplock b)"
  have w: "bufs w = bufs s" "disk w = disk s" "disk_log w = disk_log s" "keeps s w"
    by (auto simp: w_def wakeup_procs keeps_def wake_fields_def)
  define x where "x = (bufs s b)\<lparr>b_lock := (b_lock (bufs s b))\<lparr>sl_locked := False, sl_pid := 0\<rparr>, b_refcnt := b_refcnt (bufs s b) - 1\<rparr>"
  define t where "t = w\<lparr>bufs := (bufs w)(b := x)\<rparr>"
  have "cache d t (V(n := V n)) (P(n := P n - 1)) (L - {n})"
    by (rule cache_upd_same [OF c h, where x = x])
       (use h ok pos clean w in \<open>auto simp: t_def x_def buf_ok_def\<close>)
  then have ct: "cache d t V (P(n := P n - 1)) (L - {n})" by simp
  have tk: "keeps s t" using w(4) by (simp add: t_def keeps_def)
  have td: "disk t = disk s" "disk_log t = disk_log s" using w by (simp_all add: t_def)
  define s' where "s' = (if b_refcnt x = 0 then link_front b (unlink b t) else t)"
  have eq: "brelse s me b = Inr s'"
    using hl by (auto simp: brelse_def releasesleep_def Let_def s'_def t_def w_def [symmetric] x_def buf_upd_def w(1))
  have pl: "payload (bufs s' a) = payload (bufs t a)" for a by (simp add: s'_def)
  have same: "keeps t s'" "disk s' = disk t" "disk_log s' = disk_log t" "procs s' = procs t"
    by (auto simp: s'_def keeps_def link_front_def unlink_def Let_def buf_upd_def)
  have r: "\<exists>xs. ring s' xs \<and> set xs = {..<NBUF}"
  proof -
    obtain xs where xs: "ring t xs" "set xs = {..<NBUF}" using cacheD(1) [OF ct] by blast
    have "set (b # remove1 b xs) = {..<NBUF}" using xs(2) h xs(1) by (auto simp: ring_def)
    then show ?thesis using xs ring_to_front [OF xs(1), of b] h by (cases "b_refcnt x = 0") (auto simp: s'_def)
  qed
  have c': "cache d s' V (P(n := P n - 1)) (L - {n})"
    by (rule cache_cong [OF ct pl same(2) r])
  have oth: "owns d s' me b' n'" if "b' \<noteq> b" "owns d s me b' n'" for b' n'
    using that pl [of b'] same(4) tk w(1) by (auto simp: owns_def payload_def t_def holdingsleep_def keeps_def)
  show thesis by (rule that [OF eq c' keeps_trans [OF tk same(1)]]) (use same td oth in auto)
qed

end
