(* ===== verification/Crash.thy ===== *)
theory Crash
  imports Bcache
begin

text \<open>
  Correctness of the log. \<open>replay\<close> is the specification: what a disk means, given the blocks
  named in its log header. Recovery computes it (\<open>recover_refines_replay\<close>), and it does not
  change from one to the other set of contents except at one point while a transaction is
  committed (\<open>commit_crash_safe\<close>): wherever the machine stops, the disk means the contents before
  the transaction or those after it.
\<close>

section \<open>Disk blocks of the log\<close>

definition logblk :: "int \<Rightarrow> nat \<Rightarrow> uint" where
  "logblk st i = of_int (st + int i + 1)"

abbreviation hdrblk :: "int \<Rightarrow> uint" where
  "hdrblk st \<equiv> of_int st"

text \<open>With a log of \<open>LOGSIZE\<close> blocks, the header takes one and 29 remain.\<close>

definition log_area :: "int \<Rightarrow> uint set" where
  "log_area st = insert (hdrblk st) (logblk st ` {..<29})"

lemma logblk_inj:
  assumes "i < 29" "j < 29" "logblk st i = logblk st j"
  shows "i = j"
proof -
  have "of_nat i = (of_nat j :: uint)" using assms(3) by (simp add: logblk_def)
  then have "unat (of_nat i :: uint) = unat (of_nat j :: uint)" by simp
  then show ?thesis using assms(1,2) by (simp add: unat_of_nat)
qed

lemma hdrblk_logblk: "i < 29 \<Longrightarrow> logblk st i \<noteq> hdrblk st"
proof
  assume i: "i < 29" and "logblk st i = hdrblk st"
  then have "of_nat (Suc i) = (0 :: uint)" by (simp add: logblk_def add.commute)
  then have "unat (of_nat (Suc i) :: uint) = 0" by (metis unat_0)
  then show False using i by (simp add: unat_of_nat del: of_nat_Suc)
qed

lemma log_areaI [intro]: "i < 29 \<Longrightarrow> logblk st i \<in> log_area st" "hdrblk st \<in> log_area st"
  by (auto simp: log_area_def)

section \<open>Writes\<close>

type_synonym blocks = "uint \<Rightarrow> uint8 list"

definition apply_writes :: "(uint \<times> uint8 list) list \<Rightarrow> blocks \<Rightarrow> blocks" where
  "apply_writes ws D = fold (\<lambda>(n, v) D. D(n := v)) ws D"

lemma apply_writes_simps [simp]:
  "apply_writes [] D = D" "apply_writes ((n, v) # ws) D = apply_writes ws (D(n := v))"
  "apply_writes (ws @ ws') D = apply_writes ws' (apply_writes ws D)"
  by (simp_all add: apply_writes_def)

lemma apply_writes_other: "m \<notin> fst ` set ws \<Longrightarrow> apply_writes ws D m = D m"
  by (induction ws arbitrary: D) auto

text \<open>
  Writes to distinct blocks, block \<open>f i\<close> getting \<open>g i\<close>.
\<close>

lemma apply_writes_map:
  "distinct (map f is) \<Longrightarrow> i \<in> set is \<Longrightarrow> apply_writes (map (\<lambda>i. (f i, g i)) is) D (f i) = g i"
  by (induction "is" arbitrary: D) (auto simp: apply_writes_other image_image)

text \<open>A run of the log code: the writes it makes, and their effect on disk and cache.\<close>

definition wrote :: "uint \<Rightarrow> 'z klog_scheme \<Rightarrow> blocks \<Rightarrow> (uint \<times> uint8 list) list \<Rightarrow> 'z klog_scheme \<Rightarrow> (uint \<Rightarrow> int) \<Rightarrow> bool" where
  "wrote d s V ws s' P \<longleftrightarrow> cache d s' (apply_writes ws V) P {} \<and> disk s' = apply_writes ws (disk s) \<and>
     disk_log s' = disk_log s @ ws \<and> keeps s s'"

lemma wrote_trans:
  "wrote d s V ws s' P \<Longrightarrow> wrote d s' (apply_writes ws V) ws' s'' P' \<Longrightarrow> wrote d s V (ws @ ws') s'' P'"
  by (auto simp: wrote_def intro: keeps_trans)

lemma keeps_log:
  fixes s s' :: "'z klog_scheme"
  assumes "keeps s s'"
  shows "lh s' = lh s" "log_start s' = log_start s" "log_dev s' = log_dev s" "log_size s' = log_size s"
    "outstanding s' = outstanding s" "committing s' = committing s"
  using assms by (cases s, cases s', simp add: keeps_def)+

lemma card_insert_refs:
  fixes P :: "uint \<Rightarrow> int"
  shows "card {m. (P(l := v)) m \<noteq> 0} \<le> Suc (card {m. P m \<noteq> 0})"
proof -
  have "card {m. (P(l := v)) m \<noteq> 0} \<le> card (insert l {m. P m \<noteq> 0})" by (rule card_mono) auto
  also have "\<dots> \<le> Suc (card {m. P m \<noteq> 0})" by (rule card_insert_le_m1) auto
  finally show ?thesis .
qed

section \<open>One block\<close>

lemma owns_set_data: "owns d (set_data b v s) me b' n \<longleftrightarrow> owns d s me b' n"
  by (auto simp: owns_def set_data_def holdingsleep_def buf_upd_def)

lemma owns_disk: "owns d (s\<lparr>disk := D, disk_log := W\<rparr>) me b n = owns d s me b n"
  by (simp add: owns_def holdingsleep_def)

lemma owns_bunpin: "owns d (bunpin c s) me b n = owns d s me b n"
  by (auto simp: owns_def holdingsleep_def bunpin_def buf_upd_def)

lemma set_data_frame [simp]:
  "disk (set_data b v s) = disk s" "disk_log (set_data b v s) = disk_log s" "keeps s (set_data b v s)"
  "keeps s (s\<lparr>disk := D, disk_log := W\<rparr>)" "keeps s (bunpin b s)" "disk (bunpin b s) = disk s"
  "disk_log (bunpin b s) = disk_log s"
  by (simp_all add: set_data_def bunpin_def buf_upd_def keeps_def)

text \<open>Two blocks read one after the other, and released.\<close>

lemma read_two:
  assumes c: "cache d s V P {}" and ne: "h \<noteq> l" and room: "P l \<noteq> 0 \<or> card {m. P m \<noteq> 0} < NBUF"
    "P h \<noteq> 0 \<or> Suc (card {m. P m \<noteq> 0}) < NBUF"
  obtains bl bh s1 s2 where "bread s me d l = Inr (bl, s1)" "bread s1 me d h = Inr (bh, s2)"
    "cache d s2 V (P(l := P l + 1, h := P h + 1)) {h, l}" "owns d s2 me bl l" "owns d s2 me bh h"
    "keeps s s1" "keeps s s2" "disk s2 = disk s" "disk_log s2 = disk_log s"
proof -
  obtain bl s1 where b1: "bread s me d l = Inr (bl, s1)" "cache d s1 V (P(l := P l + 1)) (insert l {})"
    "owns d s1 me bl l" "keeps s s1" "disk s1 = disk s" "disk_log s1 = disk_log s"
    using bread_ok [OF c, of l] room by (metis empty_iff)
  have eq: "(P(l := P l + 1)) h = P h" using ne by simp
  have r: "(P(l := P l + 1)) h \<noteq> 0 \<or> card {m. (P(l := P l + 1)) m \<noteq> 0} < NBUF"
    unfolding eq using room(2) le_less_trans [OF card_insert_refs [of P l "P l + 1"]] by blast
  have "\<exists>bh s2. bread s1 me d h = Inr (bh, s2) \<and> cache d s2 V ((P(l := P l + 1))(h := P h + 1)) {h, l} \<and>
    owns d s2 me bh h \<and> keeps s1 s2 \<and> disk s2 = disk s1 \<and> disk_log s2 = disk_log s1 \<and> owns d s2 me bl l"
    by (rule bread_ok [OF b1(2) _ r, of me]) (use ne b1(3) in \<open>auto simp: fun_upd_def\<close>)
  then obtain bh s2 where b2: "bread s1 me d h = Inr (bh, s2)" "cache d s2 V (P(l := P l + 1, h := P h + 1)) {h, l}"
    "owns d s2 me bh h" "keeps s1 s2" "disk s2 = disk s1" "disk_log s2 = disk_log s1" "owns d s2 me bl l" by blast
  show thesis by (rule that [OF b1(1) b2(1,2)]) (use b1 b2 keeps_trans [OF b1(4) b2(4)] in auto)
qed

lemma drop_two:
  assumes c: "cache d s V P {a, b}" and o: "owns d s me x a" "owns d s me y b" and ne: "a \<noteq> b"
    and clean: "P a = 1 \<Longrightarrow> V a = disk s a" "P b = 1 \<Longrightarrow> V b = disk s b"
  obtains s1 s2 where "brelse s me x = Inr s1" "brelse s1 me y = Inr s2"
    "cache d s2 V (P(a := P a - 1, b := P b - 1)) {}" "keeps s s2" "disk s2 = disk s" "disk_log s2 = disk_log s"
proof -
  have xy: "y \<noteq> x" using o ne by (auto simp: owns_def)
  have "\<exists>s1. brelse s me x = Inr s1 \<and> cache d s1 V (P(a := P a - 1)) ({a, b} - {a}) \<and> keeps s s1 \<and>
    disk s1 = disk s \<and> disk_log s1 = disk_log s \<and> owns d s1 me y b"
    by (rule brelse_ok [OF c o(1) clean(1)]) (use xy o in auto)
  then obtain s1 where s1: "brelse s me x = Inr s1" "cache d s1 V (P(a := P a - 1)) ({a, b} - {a})" "keeps s s1"
    "disk s1 = disk s" "disk_log s1 = disk_log s" "owns d s1 me y b" by blast
  have L: "{a, b} - {a} - {b} = {}" by auto
  have "\<exists>s2. brelse s1 me y = Inr s2 \<and> cache d s2 V ((P(a := P a - 1))(b := (P(a := P a - 1)) b - 1)) ({a, b} - {a} - {b}) \<and>
    keeps s1 s2 \<and> disk s2 = disk s1 \<and> disk_log s2 = disk_log s1"
    by (rule brelse_ok [OF s1(2,6)]) (use clean(2) ne s1(4) in auto)
  then obtain s2 where s2: "brelse s1 me y = Inr s2" "cache d s2 V ((P(a := P a - 1))(b := (P(a := P a - 1)) b - 1)) ({a, b} - {a} - {b})"
    "keeps s1 s2" "disk s2 = disk s1" "disk_log s2 = disk_log s1" by blast
  have P: "(P(a := P a - 1))(b := (P(a := P a - 1)) b - 1) = P(a := P a - 1, b := P b - 1)" using ne by simp
  show thesis by (rule that [OF s1(1) s2(1)])
    (use s1 s2(3-5) s2(2) [unfolded L P] keeps_trans [OF s1(3) s2(3)] in auto)
qed

lemma write_log_one_ok:
  assumes c: "cache d s V P {}" and d: "log_dev s = d" and i: "i < length (lh_block (lh s))"
    and h: "h = lh_block (lh s) ! i" "P h \<noteq> 0" and l: "l = logblk (log_start s) i" "P l = 0"
    and room: "card {m. P m \<noteq> 0} < NBUF"
  shows "\<exists>s'. write_log_one me i s = Inr s' \<and> wrote d s V [(l, V h)] s' P"
proof -
  have hl: "h \<noteq> l" using h l by auto
  obtain bt bf s1 s2 where b: "bread s me d l = Inr (bt, s1)" "bread s1 me d h = Inr (bf, s2)"
    "cache d s2 V (P(l := P l + 1, h := P h + 1)) {h, l}" "owns d s2 me bt l" "owns d s2 me bf h"
    "keeps s s1" "keeps s s2" "disk s2 = disk s" "disk_log s2 = disk_log s"
    using read_two [OF c hl, of me] h(2) l(2) room by metis
  let ?P = "P(l := P l + 1, h := P h + 1)" let ?V = "V(l := V h)"
  define s3 where "s3 = set_data bt (buf_data bf s2) s2"
  have c3: "cache d s3 ?V ?P {h, l}" unfolding s3_def owns_data [OF b(3,5)] by (rule set_data_ok [OF b(3,4)])
  have o3: "owns d s3 me bt l" "owns d s3 me bf h" using b(4,5) by (simp_all add: s3_def owns_set_data)
  define s4 where "s4 = s3\<lparr>disk := (disk s3)(l := V h), disk_log := disk_log s3 @ [(l, V h)]\<rparr>"
  have b4: "bwrite s3 me bt = Inr s4" "cache d s4 ?V ?P {h, l}"
    using bwrite_ok [OF c3 o3(1)] by (simp_all add: s4_def)
  have o4: "owns d s4 me bt l" "owns d s4 me bf h" using o3 by (simp_all add: s4_def owns_disk)
  have "0 < P h" using h(2) cacheD(4) [OF c, of h] by simp
  then obtain s5 s6 where b6: "brelse s4 me bf = Inr s5" "brelse s5 me bt = Inr s6"
    "cache d s6 ?V (?P(h := ?P h - 1, l := ?P l - 1)) {}" "keeps s4 s6" "disk s6 = disk s4" "disk_log s6 = disk_log s4"
    using drop_two [OF b4(2) o4(2) o4(1) hl] hl by (auto simp: s4_def)
  have P: "?P(h := ?P h - 1, l := ?P l - 1) = P" using hl by auto
  have k: "keeps s s6" using b(7) b6(4) by (auto simp: s3_def s4_def keeps_def set_data_def buf_upd_def)
  have lh: "lh_get s1 i = Inr h" "log_dev s1 = d" using keeps_log [OF b(6)] i h(1) d by (simp_all add: lh_get_def)
  have "write_log_one me i s = Inr s6"
    using b(1,2) b4(1) b6(1,2) lh d l(1) by (simp add: write_log_one_def s3_def Let_def logblk_def)
  moreover have "wrote d s V [(l, V h)] s6 P"
    using b6(3) [unfolded P] b6(5,6) b(8,9) k by (simp add: wrote_def s4_def s3_def)
  ultimately show ?thesis by blast
qed

lemma install_one_ok:
  assumes c: "cache d s V P {}" and d: "log_dev s = d" and i: "i < length (lh_block (lh s))"
    and h: "h = lh_block (lh s) ! i" "\<not> r \<Longrightarrow> P h = 1" and l: "l = logblk (log_start s) i" "P l = 0" and hl: "h \<noteq> l"
    and room: "card {m. P m \<noteq> 0} < NBUF" "P h \<noteq> 0 \<or> Suc (card {m. P m \<noteq> 0}) < NBUF"
  shows "\<exists>s'. install_one r me i s = Inr s' \<and> wrote d s V [(h, V l)] s' (P(h := if r then P h else 0))"
proof -
  obtain bl bd s1 s2 where b: "bread s me d l = Inr (bl, s1)" "bread s1 me d h = Inr (bd, s2)"
    "cache d s2 V (P(l := P l + 1, h := P h + 1)) {h, l}" "owns d s2 me bl l" "owns d s2 me bd h"
    "keeps s s1" "keeps s s2" "disk s2 = disk s" "disk_log s2 = disk_log s"
    using read_two [OF c hl, of me] l(2) room by metis
  let ?P = "P(l := P l + 1, h := P h + 1)" let ?V = "V(h := V l)"
  define s3 where "s3 = set_data bd (buf_data bl s2) s2"
  have c3: "cache d s3 ?V ?P {h, l}" unfolding s3_def owns_data [OF b(3,4)] by (rule set_data_ok [OF b(3,5)])
  have o3: "owns d s3 me bl l" "owns d s3 me bd h" using b(4,5) by (simp_all add: s3_def owns_set_data)
  define s4 where "s4 = s3\<lparr>disk := (disk s3)(h := V l), disk_log := disk_log s3 @ [(h, V l)]\<rparr>"
  have b4: "bwrite s3 me bd = Inr s4" "cache d s4 ?V ?P {h, l}"
    using bwrite_ok [OF c3 o3(2)] by (simp_all add: s4_def)
  have o4: "owns d s4 me bl l" "owns d s4 me bd h" using o3 by (simp_all add: s4_def owns_disk)
  define s5 where "s5 = (if r then s4 else bunpin bd s4)"
  let ?Q = "?P(h := ?P h + (if r then 0 else - 1))"
  have c5: "cache d s5 ?V ?Q {l, h}"
    using b4(2) bpin_ok [OF b4(2) o4(2), of "- 1"] h(2) by (cases r) (auto simp: s5_def bunpin_def insert_commute)
  have o5: "owns d s5 me bl l" "owns d s5 me bd h" using o4 by (simp_all add: s5_def owns_bunpin)
  have d5: "disk s5 = (disk s)(h := V l)" "disk_log s5 = disk_log s @ [(h, V l)]" using b(8,9) by (simp_all add: s5_def s4_def s3_def)
  obtain s6 s7 where b7: "brelse s5 me bl = Inr s6" "brelse s6 me bd = Inr s7"
    "cache d s7 ?V (?Q(l := ?Q l - 1, h := ?Q h - 1)) {}" "keeps s5 s7" "disk s7 = disk s5" "disk_log s7 = disk_log s5"
    using drop_two [OF c5 o5] hl d5 cacheD(5) [OF c l(2)] by auto
  have P: "?Q(l := ?Q l - 1, h := ?Q h - 1) = P(h := if r then P h else 0)" using hl h(2) by auto
  have k: "keeps s s7" using b(7) b7(4) by (auto simp: s3_def s4_def s5_def keeps_def set_data_def bunpin_def buf_upd_def split: if_splits)
  have lh: "lh_get s1 i = Inr h" "log_dev s1 = d" using keeps_log [OF b(6)] i h(1) d by (simp_all add: lh_get_def)
  have "install_one r me i s = Inr s7"
    using b(1,2) b4(1) b7(1,2) lh d l(1) by (simp add: install_one_def s3_def s5_def Let_def logblk_def split: if_splits)
  moreover have "wrote d s V [(h, V l)] s7 (P(h := if r then P h else 0))"
    using b7(3) [unfolded P] b7(5,6) d5 k by (simp add: wrote_def)
  ultimately show ?thesis by blast
qed


section \<open>The loops\<close>

lemma write_log_loop:
  assumes c: "cache d s V P {}" and d: "log_dev s = d" and room: "card {m. P m \<noteq> 0} < NBUF"
    and k: "k \<le> 29" "k \<le> length (lh_block (lh s))"
    and h: "\<And>i. i < k \<Longrightarrow> P (lh_block (lh s) ! i) \<noteq> 0 \<and> lh_block (lh s) ! i \<notin> log_area (log_start s)"
    and l: "\<And>m. m \<in> log_area (log_start s) \<Longrightarrow> P m = 0"
  shows "\<exists>s'. fold_res (write_log_one me) [0..<k] s = Inr s' \<and>
    wrote d s V (map (\<lambda>i. (logblk (log_start s) i, V (lh_block (lh s) ! i))) [0..<k]) s' P"
  using k h
proof (induction k)
  case 0
  then show ?case using c by (simp add: wrote_def)
next
  case (Suc k)
  let ?ws = "map (\<lambda>i. (logblk (log_start s) i, V (lh_block (lh s) ! i))) [0..<k]"
  obtain s1 where s1: "fold_res (write_log_one me) [0..<k] s = Inr s1" "wrote d s V ?ws s1 P"
    using Suc.IH Suc.prems by fastforce
  then have c1: "cache d s1 (apply_writes ?ws V) P {}" and ks: "keeps s s1" by (simp_all add: wrote_def)
  have hk: "lh_block (lh s) ! k \<notin> fst ` set ?ws" using Suc.prems(1) Suc.prems(3) [of k] by (auto simp: log_area_def)
  then have v: "apply_writes ?ws V (lh_block (lh s) ! k) = V (lh_block (lh s) ! k)" by (rule apply_writes_other)
  have "P (logblk (log_start s) k) = 0" by (intro l log_areaI) (use Suc.prems(1) in simp)
  then obtain s2 where s2: "write_log_one me k s1 = Inr s2"
    "wrote d s1 (apply_writes ?ws V) [(logblk (log_start s) k, V (lh_block (lh s) ! k))] s2 P"
    using write_log_one_ok [OF c1, of k "lh_block (lh s) ! k" "logblk (log_start s) k" me] keeps_log [OF ks] d room v
      Suc.prems(1,2) Suc.prems(3) [of k] by auto
  then show ?case using s1 wrote_trans [OF s1(2) s2(2)] by (auto simp: fold_res_append)
qed

lemma install_loop:
  assumes c: "cache d s V P {}" and d: "log_dev s = d" and room: "card {m. P m \<noteq> 0} < NBUF" "r \<Longrightarrow> Suc (card {m. P m \<noteq> 0}) < NBUF"
    and k: "k \<le> 29" "k \<le> length (lh_block (lh s))" "distinct (take k (lh_block (lh s)))"
    and h: "\<And>i. i < k \<Longrightarrow> (\<not> r \<longrightarrow> P (lh_block (lh s) ! i) = 1) \<and> lh_block (lh s) ! i \<notin> log_area (log_start s)"
    and l: "\<And>m. m \<in> log_area (log_start s) \<Longrightarrow> P m = 0"
  shows "\<exists>s'. fold_res (install_one r me) [0..<k] s = Inr s' \<and>
    wrote d s V (map (\<lambda>i. (lh_block (lh s) ! i, V (logblk (log_start s) i))) [0..<k]) s'
      (\<lambda>m. if \<not> r \<and> m \<in> set (take k (lh_block (lh s))) then 0 else P m)"
  using k h
proof (induction k)
  case 0
  then show ?case using c by (simp add: wrote_def)
next
  case (Suc k)
  let ?b = "lh_block (lh s)" let ?h = "?b ! k" let ?l = "logblk (log_start s) k"
  let ?ws = "map (\<lambda>i. (?b ! i, V (logblk (log_start s) i))) [0..<k]"
  let ?P = "\<lambda>m. if \<not> r \<and> m \<in> set (take k ?b) then 0 else P m"
  have tk: "take (Suc k) ?b = take k ?b @ [?h]" using Suc.prems(2) by (simp add: take_Suc_conv_app_nth)
  obtain s1 where s1: "fold_res (install_one r me) [0..<k] s = Inr s1" "wrote d s V ?ws s1 ?P"
    using Suc.IH Suc.prems tk by fastforce
  then have c1: "cache d s1 (apply_writes ?ws V) ?P {}" and ks: "keeps s s1" by (simp_all add: wrote_def)
  have lk: "?l \<in> log_area (log_start s)" using Suc.prems(1) by auto
  have "?l \<notin> fst ` set ?ws" using lk Suc.prems(4) by fastforce
  then have v: "apply_writes ?ws V ?l = V ?l" by (rule apply_writes_other)
  have hk: "?h \<notin> set (take k ?b)" using Suc.prems(3) tk by simp
  have cd: "card {m. ?P m \<noteq> 0} \<le> card {m. P m \<noteq> 0}" by (rule card_mono) auto
  have hl: "?h \<noteq> ?l" using lk Suc.prems(4) [of k] by auto
  have lh: "lh s1 = lh s" "log_start s1 = log_start s" "log_dev s1 = d" using keeps_log [OF ks] d by simp_all
  have "\<exists>s2. install_one r me k s1 = Inr s2 \<and> wrote d s1 (apply_writes ?ws V) [(?h, apply_writes ?ws V ?l)] s2 (?P(?h := if r then ?P ?h else 0))"
  proof (rule install_one_ok [OF c1 lh(3)])
    show "k < length (lh_block (lh s1))" "?h = lh_block (lh s1) ! k" "?l = logblk (log_start s1) k"
      using lh Suc.prems(2) by simp_all
    show "\<not> r \<Longrightarrow> ?P ?h = 1" using hk Suc.prems(4) [of k] by simp
    show "?P ?l = 0" using l [OF lk] by simp
    show "card {m. ?P m \<noteq> 0} < NBUF" using cd room(1) by simp
    show "?P ?h \<noteq> 0 \<or> Suc (card {m. ?P m \<noteq> 0}) < NBUF"
    proof (cases r)
      case True
      then show ?thesis using room(2) by simp
    next
      case False
      then show ?thesis using hk Suc.prems(4) [of k] by simp
    qed
  qed (rule hl)
  then obtain s2 where s2: "install_one r me k s1 = Inr s2"
    "wrote d s1 (apply_writes ?ws V) [(?h, V ?l)] s2 (?P(?h := if r then ?P ?h else 0))" unfolding v by blast
  have P: "?P(?h := if r then ?P ?h else 0) = (\<lambda>m. if \<not> r \<and> m \<in> set (take (Suc k) ?b) then 0 else P m)"
    unfolding tk by auto
  show ?case using s1(1) s2(1) wrote_trans [OF s1(2) s2(2) [unfolded P]] by (auto simp: fold_res_append)
qed

section \<open>The header block\<close>

definition hdr_bytes :: "uint8 list \<Rightarrow> nat \<Rightarrow> uint list \<Rightarrow> uint8 list" where
  "hdr_bytes bs n bl = fold (\<lambda>i bs. put32 bs (4 + 4 * i) (bl ! i)) [0..<n] (put32 bs 0 (of_nat n))"

lemma hdr_bytes_ok:
  assumes "length bs = BSIZE" "n \<le> 29"
  shows "length (hdr_bytes bs n bl) = BSIZE" "get32 (hdr_bytes bs n bl) 0 = of_nat n"
    "i < n \<Longrightarrow> get32 (hdr_bytes bs n bl) (4 + 4 * i) = bl ! i"
proof -
  have "length (fold (\<lambda>i bs. put32 bs (4 + 4 * i) (bl ! i)) [0..<k] (put32 bs 0 v)) = BSIZE \<and>
    get32 (fold (\<lambda>i bs. put32 bs (4 + 4 * i) (bl ! i)) [0..<k] (put32 bs 0 v)) 0 = v \<and>
    (\<forall>i < k. get32 (fold (\<lambda>i bs. put32 bs (4 + 4 * i) (bl ! i)) [0..<k] (put32 bs 0 v)) (4 + 4 * i) = bl ! i)"
    if "k \<le> 29" for k v using that
  proof (induction k)
    case 0
    then show ?case using assms(1) by (simp add: BSIZE_def)
  next
    case (Suc k)
    then show ?case using assms(1) by (auto simp: BSIZE_def get32_put32_other less_Suc_eq)
  qed
  from this [OF assms(2)]
  show "length (hdr_bytes bs n bl) = BSIZE" "get32 (hdr_bytes bs n bl) 0 = of_nat n"
    "i < n \<Longrightarrow> get32 (hdr_bytes bs n bl) (4 + 4 * i) = bl ! i" by (simp_all add: hdr_bytes_def)
qed

lemma set_data_twice [simp]: "set_data b x (set_data b y s) = set_data b x s" "buf_data b (set_data b x s) = x"
  by (simp_all add: set_data_def buf_upd_def)

lemma lh_set_data [simp]: "lh (set_data b x s) = lh s"
  by (simp add: set_data_def buf_upd_def)

lemma write_head_fill:
  "k \<le> length (lh_block (lh s)) \<Longrightarrow> fold_res (\<lambda>i s. bind_res (lh_get s i) (\<lambda>v. Inr (set_data b (put32 (buf_data b s) (4 + 4 * i) v) s))) [0..<k]
     (set_data b x s) = Inr (set_data b (fold (\<lambda>i bs. put32 bs (4 + 4 * i) (lh_block (lh s) ! i)) [0..<k] x) s)"
  by (induction k) (auto simp: fold_res_append lh_get_def)

lemma write_head_ok:
  assumes c: "cache d s V P {}" and d: "log_dev s = d" and n: "lh_n (lh s) = int n" "n \<le> length (lh_block (lh s))"
    and z: "z = hdrblk (log_start s)" "P z = 0" and room: "card {m. P m \<noteq> 0} < NBUF"
  shows "\<exists>s'. write_head s me = Inr s' \<and> wrote d s V [(z, hdr_bytes (V z) n (lh_block (lh s)))] s' P"
proof -
  let ?H = "hdr_bytes (V z) n (lh_block (lh s))"
  obtain b s1 where b: "bread s me d z = Inr (b, s1)" "cache d s1 V (P(z := P z + 1)) (insert z {})"
    "owns d s1 me b z" "keeps s s1" "disk s1 = disk s" "disk_log s1 = disk_log s"
    using bread_ok [OF c, of z] room by (metis empty_iff)
  define s2 where "s2 = set_data b ?H s1"
  have c2: "cache d s2 (V(z := ?H)) (P(z := P z + 1)) {z}" unfolding s2_def by (rule set_data_ok [OF b(2,3)])
  have o2: "owns d s2 me b z" using b(3) by (simp add: s2_def owns_set_data)
  define s3 where "s3 = s2\<lparr>disk := (disk s2)(z := ?H), disk_log := disk_log s2 @ [(z, ?H)]\<rparr>"
  have b3: "bwrite s2 me b = Inr s3" "cache d s3 (V(z := ?H)) (P(z := P z + 1)) {z}"
    using bwrite_ok [OF c2 o2] by (simp_all add: s3_def)
  have o3: "owns d s3 me b z" using o2 by (simp add: s3_def owns_disk)
  have "\<exists>s4. brelse s3 me b = Inr s4 \<and> cache d s4 (V(z := ?H)) ((P(z := P z + 1))(z := (P(z := P z + 1)) z - 1)) ({z} - {z}) \<and>
    keeps s3 s4 \<and> disk s4 = disk s3 \<and> disk_log s4 = disk_log s3"
    by (rule brelse_ok [OF b3(2) o3]) (auto simp: s3_def)
  then obtain s4 where s4: "brelse s3 me b = Inr s4" "cache d s4 (V(z := ?H)) P {}" "keeps s3 s4" "disk s4 = disk s3"
    "disk_log s4 = disk_log s3" by auto
  have lh: "lh s1 = lh s" "log_dev s1 = d" using keeps_log [OF b(4)] d by simp_all
  have "write_head s me = Inr s4"
    using b(1) b3(1) s4(1) d z(1) n lh write_head_fill [of n s1 b] owns_data [OF b(2,3)]
    by (simp add: write_head_def Let_def s2_def hdr_bytes_def)
  moreover have "keeps s s4" using b(4) s4(3) by (auto simp: s3_def s2_def keeps_def set_data_def buf_upd_def)
  ultimately show ?thesis using s4 b(5,6) by (auto simp: wrote_def s3_def s2_def)
qed


text \<open>What the header says, and reading it into \<open>log.lh\<close>.\<close>

definition hdr_list :: "uint8 list \<Rightarrow> uint list" where
  "hdr_list H = map (\<lambda>i. get32 H (4 + 4 * i)) [0..<nat (sint (get32 H 0))]"

lemma sint_small:
  assumes "n \<le> 29"
  shows "sint (of_nat n :: uint) = int n"
proof -
  have "unat (of_nat n :: uint) = n" using assms by (simp add: unat_of_nat)
  then have "uint (of_nat n :: uint) = int n" by (metis uint_nat)
  then show ?thesis using sint32_cases [of "of_nat n"] assms by auto
qed

lemma hdr_list_hdr_bytes:
  assumes "length bs = BSIZE" "n \<le> 29" "n \<le> length bl"
  shows "hdr_list (hdr_bytes bs n bl) = take n bl"
proof -
  have "sint (of_nat n :: uint) = int n" by (rule sint_small [OF assms(2)])
  then show ?thesis using hdr_bytes_ok(2,3) [OF assms(1,2)] assms(3)
    by (auto simp: hdr_list_def intro!: nth_equalityI)
qed

lemma hdr_bytes_cong: "(\<And>i. i < n \<Longrightarrow> bl ! i = bl' ! i) \<Longrightarrow> hdr_bytes bs n bl = hdr_bytes bs n bl'"
  unfolding hdr_bytes_def by (rule fold_cong) auto

lemma list_fill: "k < length xs \<Longrightarrow> (map f [0..<k] @ drop k xs)[k := v] = map f [0..<k] @ v # drop (Suc k) xs"
  by (simp add: list_update_append Cons_nth_drop_Suc [symmetric])

lemma read_head_fill:
  "k \<le> length (lh_block (lh t)) \<Longrightarrow> fold_res (\<lambda>i s. lh_set i (get32 (buf_data b s) (4 + 4 * i)) s) [0..<k] t =
     Inr (t\<lparr>lh := (lh t)\<lparr>lh_block := map (\<lambda>i. get32 (buf_data b t) (4 + 4 * i)) [0..<k] @ drop k (lh_block (lh t))\<rparr>\<rparr>)"
  by (induction k) (auto simp: fold_res_append lh_set_def list_fill)

lemma cache_lh [simp]:
  fixes s :: "'z klog_scheme"
  shows "cache d (s\<lparr>lh := h\<rparr>) V P L = cache d s V P L" "owns d (s\<lparr>lh := h\<rparr>) me b n = owns d s me b n"
  by (simp_all add: cache_def ring_def owns_def holdingsleep_def)

definition load_hdr :: "uint8 list \<Rightarrow> loghdr \<Rightarrow> loghdr" where
  "load_hdr H h = h\<lparr>lh_n := sint (get32 H 0), lh_block := hdr_list H @ drop (length (hdr_list H)) (lh_block h)\<rparr>"

lemma read_head_ok:
  assumes c: "cache d s V P {}" and d: "log_dev s = d" and n: "length (hdr_list (V z)) \<le> length (lh_block (lh s))"
    and z: "z = hdrblk (log_start s)" "P z = 0" and room: "card {m. P m \<noteq> 0} < NBUF"
  shows "\<exists>s'. read_head s me = Inr s' \<and> cache d s' V P {} \<and> disk s' = disk s \<and> disk_log s' = disk_log s \<and>
    keeps (s\<lparr>lh := load_hdr (V z) (lh s)\<rparr>) s'"
proof -
  obtain b s1 where b: "bread s me d z = Inr (b, s1)" "cache d s1 V (P(z := P z + 1)) (insert z {})"
    "owns d s1 me b z" "keeps s s1" "disk s1 = disk s" "disk_log s1 = disk_log s"
    using bread_ok [OF c, of z] room by (metis empty_iff)
  define s2 where "s2 = s1\<lparr>lh := load_hdr (V z) (lh s)\<rparr>"
  have c2: "cache d s2 V (P(z := P z + 1)) {z}" "owns d s2 me b z" using b(2,3) by (simp_all add: s2_def)
  have "\<exists>s3. brelse s2 me b = Inr s3 \<and> cache d s3 V ((P(z := P z + 1))(z := (P(z := P z + 1)) z - 1)) ({z} - {z}) \<and>
    keeps s2 s3 \<and> disk s3 = disk s2 \<and> disk_log s3 = disk_log s2"
    by (rule brelse_ok [OF c2]) (use cacheD(5) [OF c z(2)] b(5) in \<open>auto simp: s2_def\<close>)
  then obtain s3 where s3: "brelse s2 me b = Inr s3" "cache d s3 V P {}" "keeps s2 s3" "disk s3 = disk s2" "disk_log s3 = disk_log s2"
    by auto
  have lh: "lh s1 = lh s" "log_dev s1 = d" using keeps_log [OF b(4)] d by simp_all
  have "read_head s me = Inr s3"
    using b(1) s3(1) d z(1) n lh owns_data [OF b(2,3)]
    by (simp add: read_head_def Let_def read_head_fill s2_def load_hdr_def hdr_list_def)
  moreover have "keeps (s\<lparr>lh := load_hdr (V z) (lh s)\<rparr>) s3"
    using b(4) s3(3) by (cases s, cases s1) (auto simp: s2_def keeps_def)
  ultimately show ?thesis using s3 b(5,6) by (auto simp: s2_def)
qed


section \<open>What a disk means\<close>

definition replay_writes :: "int \<Rightarrow> blocks \<Rightarrow> (uint \<times> uint8 list) list" where
  "replay_writes st D = map (\<lambda>i. (hdr_list (D (hdrblk st)) ! i, D (logblk st i))) [0..<length (hdr_list (D (hdrblk st)))]"

definition replay :: "int \<Rightarrow> blocks \<Rightarrow> blocks" where
  "replay st D = apply_writes (replay_writes st D) D"

definition valid_hdr :: "int \<Rightarrow> uint8 list \<Rightarrow> bool" where
  "valid_hdr st H \<longleftrightarrow> length H = BSIZE \<and> 0 \<le> sint (get32 H 0) \<and> length (hdr_list H) \<le> 29 \<and> distinct (hdr_list H) \<and>
     set (hdr_list H) \<inter> log_area st = {}"

text \<open>A machine after a reset: the cache is empty and the log header not yet read.\<close>

definition rebooted :: "uint \<Rightarrow> int \<Rightarrow> blocks \<Rightarrow> 'z klog_scheme \<Rightarrow> bool" where
  "rebooted d st D s \<longleftrightarrow> cache d s D (\<lambda>_. 0) {} \<and> disk s = D \<and> log_start s = st \<and> log_dev s = d \<and>
     length (lh_block (lh s)) = 30"

definition recovery_writes :: "int \<Rightarrow> blocks \<Rightarrow> (uint \<times> uint8 list) list" where
  "recovery_writes st D = replay_writes st D @ [(hdrblk st, put32 (D (hdrblk st)) 0 0)]"

lemma hdr_bytes_0: "hdr_bytes bs 0 bl = put32 bs 0 0"
  by (simp add: hdr_bytes_def)

lemma recover_ok:
  assumes r: "rebooted d st D s" and v: "valid_hdr st (D (hdrblk st))"
  shows "\<exists>s'. recover_from_log s me = Inr s' \<and> disk_log s' = disk_log s @ recovery_writes st D \<and>
    rebooted d st (apply_writes (recovery_writes st D) D) s' \<and> lh_n (lh s') = 0"
proof -
  let ?z = "hdrblk st" let ?H = "D ?z" let ?bl = "hdr_list ?H" let ?P = "\<lambda>_ :: uint. 0 :: int"
  have c: "cache d s D ?P {}" "disk s = D" "log_start s = st" "log_dev s = d" "length (lh_block (lh s)) = 30"
    using r by (simp_all add: rebooted_def)
  have len: "length ?bl \<le> 29" "int (length ?bl) = sint (get32 ?H 0)" using v by (auto simp: valid_hdr_def hdr_list_def)
  have empty: "{m. ?P m \<noteq> 0} = {}" by simp
  have "\<exists>s1. read_head s me = Inr s1 \<and> cache d s1 D ?P {} \<and> disk s1 = disk s \<and> disk_log s1 = disk_log s \<and>
    keeps (s\<lparr>lh := load_hdr ?H (lh s)\<rparr>) s1"
    by (rule read_head_ok [OF c(1,4)]) (use c len in \<open>simp_all add: NBUF_def\<close>)
  then obtain s1 where s1: "read_head s me = Inr s1" "cache d s1 D ?P {}" "disk s1 = D" "disk_log s1 = disk_log s"
    "keeps (s\<lparr>lh := load_hdr ?H (lh s)\<rparr>) s1" using c(2) by auto
  have lh1: "lh s1 = load_hdr ?H (lh s)" "log_start s1 = st" "log_dev s1 = d" using keeps_log [OF s1(5)] c by simp_all
  have blk: "lh_n (lh s1) = int (length ?bl)" "take (length ?bl) (lh_block (lh s1)) = ?bl" "length (lh_block (lh s1)) = 30"
    "\<And>i. i < length ?bl \<Longrightarrow> lh_block (lh s1) ! i = ?bl ! i"
    using lh1(1) c(5) len by (auto simp: load_hdr_def nth_append)
  have bl: "distinct ?bl" "\<And>i. i < length ?bl \<Longrightarrow> ?bl ! i \<notin> log_area st" using v nth_mem by (fastforce simp: valid_hdr_def)+
  have ws: "map (\<lambda>i. (lh_block (lh s1) ! i, D (logblk (log_start s1) i))) [0..<length ?bl] = replay_writes st D"
    using blk(4) lh1(2) by (simp add: replay_writes_def)
  have "\<exists>s2. fold_res (install_one True me) [0..<length ?bl] s1 = Inr s2 \<and>
    wrote d s1 D (map (\<lambda>i. (lh_block (lh s1) ! i, D (logblk (log_start s1) i))) [0..<length ?bl]) s2
      (\<lambda>m. if \<not> True \<and> m \<in> set (take (length ?bl) (lh_block (lh s1))) then 0 else ?P m)"
    by (rule install_loop [OF s1(2) lh1(3)]) (use blk bl len(1) lh1(2) in \<open>simp_all add: NBUF_def\<close>)
  then obtain s2 where s2: "install_trans s1 me True = Inr s2" "wrote d s1 D (replay_writes st D) s2 ?P"
    unfolding ws install_trans_def blk(1) by auto
  then have c2: "cache d s2 (apply_writes (replay_writes st D) D) ?P {}" "disk s2 = apply_writes (replay_writes st D) D"
    "disk_log s2 = disk_log s @ replay_writes st D" "keeps s1 s2" using s1 by (auto simp: wrote_def)
  have z2: "apply_writes (replay_writes st D) D ?z = ?H"
    by (rule apply_writes_other) (use bl(2) log_areaI(2) [of st] in \<open>fastforce simp: replay_writes_def\<close>)
  have lh2: "log_dev (clear_lh s2) = d" "log_start (clear_lh s2) = st" "lh_n (lh (clear_lh s2)) = 0" "length (lh_block (lh (clear_lh s2))) = 30"
    using keeps_log [OF c2(4)] lh1 blk(3) by (simp_all add: clear_lh_def)
  have c3: "cache d (clear_lh s2) (apply_writes (replay_writes st D) D) ?P {}" using c2(1) by (simp add: clear_lh_def)
  have "\<exists>s3. write_head (clear_lh s2) me = Inr s3 \<and> wrote d (clear_lh s2) (apply_writes (replay_writes st D) D)
    [(?z, hdr_bytes (apply_writes (replay_writes st D) D ?z) 0 (lh_block (lh (clear_lh s2))))] s3 ?P"
    by (rule write_head_ok [OF c3 lh2(1)]) (use lh2 in \<open>simp_all add: NBUF_def\<close>)
  then obtain s3 where s3: "write_head (clear_lh s2) me = Inr s3"
    "wrote d (clear_lh s2) (apply_writes (replay_writes st D) D) [(?z, put32 ?H 0 0)] s3 ?P"
    unfolding z2 hdr_bytes_0 by blast
  then show ?thesis using s1(1) s2(1) c2 lh2 keeps_log [of "clear_lh s2" s3]
    by (auto simp: recover_from_log_def recovery_writes_def wrote_def rebooted_def clear_lh_def)
qed


section \<open>Committing a transaction\<close>

text \<open>
  Between file-system operations: the blocks \<open>bl\<close> of the open transaction are pinned in the
  cache, every other block is as on disk, and the header on disk is empty.
\<close>

definition log_inv :: "uint \<Rightarrow> 'z klog_scheme \<Rightarrow> blocks \<Rightarrow> uint list \<Rightarrow> bool" where
  "log_inv d s V bl \<longleftrightarrow> cache d s V (\<lambda>m. if m \<in> set bl then 1 else 0) {} \<and> log_dev s = d \<and>
     length (lh_block (lh s)) = 30 \<and> lh_n (lh s) = int (length bl) \<and> take (length bl) (lh_block (lh s)) = bl \<and>
     length bl < NBUF \<and> distinct bl \<and> set bl \<inter> log_area (log_start s) = {} \<and>
     length (V (hdrblk (log_start s))) = BSIZE \<and> get32 (V (hdrblk (log_start s))) 0 = 0"

definition commit_writes :: "int \<Rightarrow> blocks \<Rightarrow> uint list \<Rightarrow> (uint \<times> uint8 list) list" where
  "commit_writes st V bl =
     (let H = hdr_bytes (V (hdrblk st)) (length bl) bl
      in map (\<lambda>i. (logblk st i, V (bl ! i))) [0..<length bl] @ [(hdrblk st, H)] @
         map (\<lambda>i. (bl ! i, V (bl ! i))) [0..<length bl] @ [(hdrblk st, put32 H 0 0)])"

lemma log_inv_clean: "log_inv d s V bl \<Longrightarrow> m \<notin> set bl \<Longrightarrow> V m = disk s m"
  using cacheD(5) [of d s V _ "{}" m] by (fastforce simp: log_inv_def)

lemma hdr_not_log: "n \<le> 29 \<Longrightarrow> hdrblk st \<notin> fst ` set (map (\<lambda>i. (logblk st i, g i)) [0..<n])"
  by (auto dest!: hdrblk_logblk [of _ st] order_less_le_trans [of _ n 29])

lemma log_invD:
  assumes "log_inv d s V bl"
  shows "cache d s V (\<lambda>m. if m \<in> set bl then 1 else 0) {}" "log_dev s = d" "length (lh_block (lh s)) = 30"
    "lh_n (lh s) = int (length bl)" "take (length bl) (lh_block (lh s)) = bl" "length bl \<le> 29" "length bl < NBUF" "distinct bl"
    "i < length bl \<Longrightarrow> lh_block (lh s) ! i = bl ! i" "i < length bl \<Longrightarrow> bl ! i \<notin> log_area (log_start s)"
    "card {m. (if m \<in> set bl then 1 else 0 :: int) \<noteq> 0} < NBUF"
    "m \<in> log_area (log_start s) \<Longrightarrow> (if m \<in> set bl then 1 else 0 :: int) = 0"
proof -
  show "cache d s V (\<lambda>m. if m \<in> set bl then 1 else 0) {}" "log_dev s = d" "length (lh_block (lh s)) = 30"
    "lh_n (lh s) = int (length bl)" "take (length bl) (lh_block (lh s)) = bl" "length bl \<le> 29" "length bl < NBUF" "distinct bl"
    using assms by (simp_all add: log_inv_def NBUF_def)
  then show "i < length bl \<Longrightarrow> lh_block (lh s) ! i = bl ! i" by (metis nth_take)
  show "i < length bl \<Longrightarrow> bl ! i \<notin> log_area (log_start s)" using assms nth_mem [of i bl] unfolding log_inv_def by blast
  show "card {m. (if m \<in> set bl then 1 else 0 :: int) \<noteq> 0} < NBUF" using assms distinct_card [of bl] by (simp add: log_inv_def)
  show "m \<in> log_area (log_start s) \<Longrightarrow> (if m \<in> set bl then 1 else 0 :: int) = 0" using assms by (auto simp: log_inv_def)
qed

lemma wrote_clear:
  assumes "wrote d s V ws s' P"
  shows "wrote d (clear_lh s) V ws (clear_lh s') P"
proof -
  have "keeps s s'" using assms by (simp add: wrote_def)
  then have "keeps (clear_lh s) (clear_lh s')" by (cases s, cases s') (simp add: keeps_def clear_lh_def)
  then show ?thesis using assms by (simp add: wrote_def clear_lh_def)
qed

text \<open>Up to the commit point: the log blocks, then the header.\<close>

lemma commit_log_phase:
  assumes inv: "log_inv d s V bl"
  defines "H \<equiv> hdr_bytes (V (hdrblk (log_start s))) (length bl) bl"
  shows "\<exists>s1 s2. write_log s me = Inr s1 \<and> write_head s1 me = Inr s2 \<and>
    wrote d s V (map (\<lambda>i. (logblk (log_start s) i, V (bl ! i))) [0..<length bl] @ [(hdrblk (log_start s), H)]) s2
      (\<lambda>m. if m \<in> set bl then 1 else 0)"
proof -
  let ?P = "\<lambda>m. if m \<in> set bl then 1 else 0 :: int" let ?n = "length bl" let ?st = "log_start s" let ?z = "hdrblk ?st"
  let ?W = "map (\<lambda>i. (logblk ?st i, V (bl ! i))) [0..<?n]" let ?V = "apply_writes ?W V"
  note c = log_invD [OF inv]
  have n: "?n \<le> length (lh_block (lh s))" using c(3,6) by simp
  have W: "map (\<lambda>i. (logblk ?st i, V (lh_block (lh s) ! i))) [0..<?n] = ?W" using c(9) by simp
  have "\<exists>s1. fold_res (write_log_one me) [0..<?n] s = Inr s1 \<and>
    wrote d s V (map (\<lambda>i. (logblk ?st i, V (lh_block (lh s) ! i))) [0..<?n]) s1 ?P"
    by (rule write_log_loop [OF c(1,2) c(11) c(6) n]) (use c(9,10,12) in auto)
  then obtain s1 where s1: "write_log s me = Inr s1" "wrote d s V ?W s1 ?P" unfolding W by (auto simp: write_log_def c(4))
  have c1: "cache d s1 ?V ?P {}" and k1: "keeps s s1" using s1(2) by (simp_all add: wrote_def)
  note g1 = keeps_log [OF k1]
  have z: "?V ?z = V ?z" by (rule apply_writes_other) (rule hdr_not_log [OF c(6)])
  have H: "hdr_bytes (V ?z) ?n (lh_block (lh s1)) = H" unfolding H_def using c(9) g1 by (intro hdr_bytes_cong) simp
  have "\<exists>s2. write_head s1 me = Inr s2 \<and> wrote d s1 ?V [(?z, hdr_bytes (?V ?z) ?n (lh_block (lh s1)))] s2 ?P"
    by (rule write_head_ok [OF c1]) (use g1 c(2,4) n c(12) [OF log_areaI(2)] c(11) in auto)
  then obtain s2 where s2: "write_head s1 me = Inr s2" "wrote d s1 ?V [(?z, H)] s2 ?P" unfolding z H by blast
  show ?thesis using s1(1) s2(1) wrote_trans [OF s1(2) s2(2)] by blast
qed

lemma log_blocks_distinct: "n \<le> 29 \<Longrightarrow> distinct (map (logblk st) [0..<n])"
  using logblk_inj [of _ _ st] by (fastforce simp: distinct_map inj_on_def)

lemma logged_blocks:
  assumes "n \<le> 29" "i < n"
  shows "apply_writes (map (\<lambda>i. (logblk st i, f i)) [0..<n] @ [(hdrblk st, H)]) D (logblk st i) = f i"
  using apply_writes_map [OF log_blocks_distinct [OF assms(1), of st], of i f D] hdrblk_logblk [of i st] assms by simp

text \<open>After it: the home blocks, then the empty header.\<close>

lemma commit_install_phase:
  assumes inv: "log_inv d s V bl" and c2: "cache d s2 V2 (\<lambda>m. if m \<in> set bl then 1 else 0) {}" and k2: "keeps s s2"
    and V2: "\<And>i. i < length bl \<Longrightarrow> V2 (logblk (log_start s) i) = V (bl ! i)" and H: "V2 (hdrblk (log_start s)) = H"
  shows "\<exists>s3 s4. install_trans s2 me False = Inr s3 \<and> write_head (clear_lh s3) me = Inr s4 \<and>
    wrote d (clear_lh s2) V2 (map (\<lambda>i. (bl ! i, V (bl ! i))) [0..<length bl] @ [(hdrblk (log_start s), put32 H 0 0)]) s4 (\<lambda>_. 0)"
proof -
  let ?P = "\<lambda>m. if m \<in> set bl then 1 else 0 :: int" let ?n = "length bl" let ?st = "log_start s" let ?z = "hdrblk ?st"
  let ?W = "map (\<lambda>i. (bl ! i, V (bl ! i))) [0..<?n]" let ?V = "apply_writes ?W V2"
  note c = log_invD [OF inv] and g2 = keeps_log [OF k2]
  have n: "?n \<le> length (lh_block (lh s2))" using c(3,6) g2 by simp
  have W: "map (\<lambda>i. (lh_block (lh s2) ! i, V2 (logblk (log_start s2) i))) [0..<?n] = ?W"
    by (intro map_cong refl) (use V2 c(9) g2 in auto)
  have "\<exists>s3. fold_res (install_one False me) [0..<?n] s2 = Inr s3 \<and>
    wrote d s2 V2 (map (\<lambda>i. (lh_block (lh s2) ! i, V2 (logblk (log_start s2) i))) [0..<?n]) s3
      (\<lambda>m. if \<not> False \<and> m \<in> set (take ?n (lh_block (lh s2))) then 0 else ?P m)"
    by (rule install_loop [OF c2 _ c(11) _ c(6) n]) (use g2 c(2,5,8,9,10,12) in auto)
  then obtain s3 where s3: "install_trans s2 me False = Inr s3" "wrote d s2 V2 ?W s3 (\<lambda>_. 0)"
    unfolding W install_trans_def by (auto simp: g2 c(4,5) if_distrib cong: if_cong)
  have k3: "keeps s s3" using s3(2) k2 by (auto simp: wrote_def intro: keeps_trans)
  have c3: "cache d (clear_lh s3) ?V (\<lambda>_. 0) {}" using s3(2) by (simp add: wrote_def clear_lh_def)
  have g3: "log_dev (clear_lh s3) = d" "log_start (clear_lh s3) = ?st" "lh_n (lh (clear_lh s3)) = 0"
    using keeps_log [OF k3] c(2) by (simp_all add: clear_lh_def)
  have z3: "?V ?z = H" by (subst apply_writes_other) (use c(10) log_areaI(2) [of ?st] H in fastforce)+
  have "\<exists>s4. write_head (clear_lh s3) me = Inr s4 \<and> wrote d (clear_lh s3) ?V [(?z, hdr_bytes (?V ?z) 0 (lh_block (lh (clear_lh s3))))] s4 (\<lambda>_. 0)"
    by (rule write_head_ok [OF c3 g3(1)]) (use g3 in \<open>simp_all add: NBUF_def\<close>)
  then obtain s4 where s4: "write_head (clear_lh s3) me = Inr s4" "wrote d (clear_lh s3) ?V [(?z, put32 H 0 0)] s4 (\<lambda>_. 0)"
    unfolding z3 hdr_bytes_0 by blast
  have "wrote d (clear_lh s2) V2 ?W (clear_lh s3) (\<lambda>_. 0)" by (rule wrote_clear [OF s3(2)])
  then show ?thesis using s3(1) s4 wrote_trans by blast
qed

lemma commit_ok:
  assumes inv: "log_inv d s V bl" and ne: "bl \<noteq> []"
  shows "\<exists>s'. commit s me = Inr s' \<and> wrote d (clear_lh s) V (commit_writes (log_start s) V bl) s' (\<lambda>_. 0)"
proof -
  let ?st = "log_start s" let ?H = "hdr_bytes (V (hdrblk ?st)) (length bl) bl"
  let ?W = "map (\<lambda>i. (logblk ?st i, V (bl ! i))) [0..<length bl] @ [(hdrblk ?st, ?H)]"
  obtain s1 s2 where s2: "write_log s me = Inr s1" "write_head s1 me = Inr s2"
    "wrote d s V ?W s2 (\<lambda>m. if m \<in> set bl then 1 else 0)" using commit_log_phase [OF inv] by blast
  have c2: "cache d s2 (apply_writes ?W V) (\<lambda>m. if m \<in> set bl then 1 else 0) {}" "keeps s s2"
    using s2(3) unfolding wrote_def by blast+
  have V2: "apply_writes ?W V (logblk ?st i) = V (bl ! i)" if "i < length bl" for i
    by (rule logged_blocks [OF log_invD(6) [OF inv] that])
  have H: "apply_writes ?W V (hdrblk ?st) = ?H" by simp
  obtain s3 s4 where s4: "install_trans s2 me False = Inr s3" "write_head (clear_lh s3) me = Inr s4"
    "wrote d (clear_lh s2) (apply_writes ?W V) (map (\<lambda>i. (bl ! i, V (bl ! i))) [0..<length bl] @ [(hdrblk ?st, put32 ?H 0 0)]) s4 (\<lambda>_. 0)"
    using commit_install_phase [OF inv c2 V2 H, of me] by blast
  have "commit s me = Inr s4" using s2 s4 log_invD(4) [OF inv] ne by (simp add: commit_def)
  moreover have "wrote d (clear_lh s) V ?W (clear_lh s2) (\<lambda>m. if m \<in> set bl then 1 else 0)"
    by (rule wrote_clear [OF s2(3)])
  ultimately show ?thesis using wrote_trans [OF _ s4(3)] by (auto simp: commit_writes_def Let_def)
qed


section \<open>Where the machine may stop\<close>

lemma replay_empty: "get32 (D (hdrblk st)) 0 = 0 \<Longrightarrow> replay st D = D"
  by (simp add: replay_def replay_writes_def hdr_list_def)

lemma valid_empty: "length H = BSIZE \<Longrightarrow> get32 H 0 = 0 \<Longrightarrow> valid_hdr st H"
  by (simp add: valid_hdr_def hdr_list_def)

lemma fst_take_subset: "fst ` set (take k ws) \<subseteq> fst ` set ws"
  using set_take_subset [of k ws] by blast

lemma commit_prefix_cases:
  assumes "W = map f [0..<n] @ x # map g [0..<n] @ [y]"
  obtains "k \<le> n" "take k W = take k (map f [0..<n])"
  | j where "n < k" "take k W = map f [0..<n] @ x # take j (map g [0..<n])"
  | "n < k" "take k W = W"
proof (cases "k \<le> n")
  case True
  then show thesis using that(1) assms by simp
next
  case False
  then obtain j where j: "k = Suc (n + j)" using less_iff_Suc_add [of n k] by auto
  show thesis
  proof (cases "j \<le> n")
    case True
    then show thesis using that(2) [of j] assms j by simp
  next
    case False
    then show thesis using that(3) assms j by simp
  qed
qed

lemma home_writes:
  assumes "distinct bl"
  shows "apply_writes (map (\<lambda>i. (bl ! i, V (bl ! i))) [0..<length bl]) D m = (if m \<in> set bl then V m else D m)"
proof (cases "m \<in> set bl")
  case True
  then obtain i where i: "i < length bl" "m = bl ! i" by (metis in_set_conv_nth)
  have "distinct (map (\<lambda>i. bl ! i) [0..<length bl])" using assms by (simp add: map_nth)
  then show ?thesis using apply_writes_map [of "\<lambda>i. bl ! i" "[0..<length bl]" i "\<lambda>i. V (bl ! i)" D] i by simp
next
  case False
  then show ?thesis by (subst apply_writes_other) fastforce+
qed

lemma log_phase_other:
  "n \<le> 29 \<Longrightarrow> m \<notin> log_area st \<Longrightarrow> apply_writes (map (\<lambda>i. (logblk st i, f i)) [0..<n] @ [(hdrblk st, H)]) D m = D m"
  by (rule apply_writes_other) (auto simp: log_area_def)

lemma log_prefix_other:
  assumes "n \<le> 29" "x \<notin> logblk st ` {..<29}"
  shows "apply_writes (take k (map (\<lambda>i. (logblk st i, f i)) [0..<n])) D x = D x"
proof (rule apply_writes_other)
  have "fst ` set (map (\<lambda>i. (logblk st i, f i)) [0..<n]) \<subseteq> logblk st ` {..<29}" using assms(1) by auto
  then show "x \<notin> fst ` set (take k (map (\<lambda>i. (logblk st i, f i)) [0..<n]))"
    using assms(2) fst_take_subset by (meson subsetD)
qed

text \<open>The header is written: replaying gives the new contents, however far the installation has come.\<close>

lemma replay_committed:
  fixes j :: nat
  assumes bl: "distinct bl" "length bl \<le> 29" "set bl \<inter> log_area st = {}" and H: "length B = BSIZE" "H = hdr_bytes B (length bl) bl"
    and D: "\<And>m. m \<notin> set bl \<Longrightarrow> m \<notin> log_area st \<Longrightarrow> D m = V m" and m: "m \<notin> log_area st"
  defines "D' \<equiv> apply_writes (map (\<lambda>i. (logblk st i, V (bl ! i))) [0..<length bl] @ (hdrblk st, H) # take j (map (\<lambda>i. (bl ! i, V (bl ! i))) [0..<length bl])) D"
  shows "D' (hdrblk st) = H" "replay st D' m = V m"
proof -
  let ?W1 = "map (\<lambda>i. (logblk st i, V (bl ! i))) [0..<length bl]"
  let ?W3 = "take j (map (\<lambda>i. (bl ! i, V (bl ! i))) [0..<length bl])"
  have W3: "fst ` set ?W3 \<subseteq> set bl" using fst_take_subset [of j "map (\<lambda>i. (bl ! i, V (bl ! i))) [0..<length bl]"] by fastforce
  have D'eq: "D' = apply_writes ?W3 (apply_writes (?W1 @ [(hdrblk st, H)]) D)" by (simp add: D'_def)
  have area: "D' x = apply_writes (?W1 @ [(hdrblk st, H)]) D x" if "x \<in> log_area st" for x
    unfolding D'eq by (rule apply_writes_other) (use that bl(3) W3 in blast)
  show z: "D' (hdrblk st) = H" using area [OF log_areaI(2)] by simp
  have hl: "hdr_list H = bl" using hdr_list_hdr_bytes [OF H(1) bl(2), of bl] H(2) by simp
  have lb: "D' (logblk st i) = V (bl ! i)" if "i < length bl" for i
    using area [OF log_areaI(1), of i] logged_blocks [OF bl(2) that] that bl(2) by simp
  have W: "replay_writes st D' = map (\<lambda>i. (bl ! i, V (bl ! i))) [0..<length bl]"
    unfolding replay_writes_def z hl using lb by simp
  have "D' m = D m" if "m \<notin> set bl"
    unfolding D'eq using that W3 log_phase_other [OF bl(2) m] by (subst apply_writes_other) auto
  then show "replay st D' m = V m" unfolding replay_def W home_writes [OF bl(1)] using D m by simp
qed

lemma replay_commit:
  fixes k :: nat
  assumes inv: "log_inv d s V bl" and m: "m \<notin> log_area (log_start s)"
  defines "D' \<equiv> apply_writes (take k (commit_writes (log_start s) V bl)) (disk s)"
  shows "valid_hdr (log_start s) (D' (hdrblk (log_start s)))"
    "replay (log_start s) D' m = (if k \<le> length bl then disk s m else V m)"
proof -
  let ?st = "log_start s" let ?z = "hdrblk ?st" let ?n = "length bl" let ?H = "hdr_bytes (V ?z) ?n bl"
  let ?f = "\<lambda>i. (logblk ?st i, V (bl ! i))" let ?g = "\<lambda>i. (bl ! i, V (bl ! i))"
  note c = log_invD [OF inv]
  have bl: "set bl \<inter> log_area ?st = {}" and B: "length (V ?z) = BSIZE" "get32 (V ?z) 0 = 0" using inv by (simp_all add: log_inv_def)
  have clean: "x \<notin> set bl \<Longrightarrow> disk s x = V x" for x using log_inv_clean [OF inv] by simp
  have z: "disk s ?z = V ?z" using clean bl log_areaI(2) by blast
  have W: "commit_writes ?st V bl = map ?f [0..<?n] @ (?z, ?H) # map ?g [0..<?n] @ [(?z, put32 ?H 0 0)]"
    by (simp add: commit_writes_def Let_def)
  have H: "length ?H = BSIZE" "get32 ?H 0 = of_nat ?n" "hdr_list ?H = bl"
    using hdr_bytes_ok(1,2) [OF B(1) c(6)] hdr_list_hdr_bytes [OF B(1) c(6), of bl] by simp_all
  have hv: "valid_hdr ?st ?H" unfolding valid_hdr_def H using bl c(6,8) sint_small [OF c(6)] by simp
  have h0: "length (put32 ?H 0 0) = BSIZE" "get32 (put32 ?H 0 0) 0 = 0" using H(1) by (simp_all add: BSIZE_def)
  have "valid_hdr ?st (D' ?z) \<and> replay ?st D' m = (if k \<le> ?n then disk s m else V m)"
  proof (rule commit_prefix_cases [OF W, of k])
    assume k: "k \<le> ?n" "take k (commit_writes ?st V bl) = take k (map ?f [0..<?n])"
    have "?z \<notin> logblk ?st ` {..<29}" using hdrblk_logblk [of _ ?st] by force
    moreover have "m \<notin> logblk ?st ` {..<29}" using m by (simp add: log_area_def)
    ultimately have "D' ?z = V ?z" "D' m = disk s m" unfolding D'_def k(2) using log_prefix_other [OF c(6)] z by simp_all
    then show ?thesis using k(1) replay_empty [of D' ?st] valid_empty B by simp
  next
    fix j assume k: "?n < k" "take k (commit_writes ?st V bl) = map ?f [0..<?n] @ (?z, ?H) # take j (map ?g [0..<?n])"
    have "D' ?z = ?H" "replay ?st D' m = V m" unfolding D'_def k(2)
      by (rule replay_committed [OF c(8,6) bl B(1) refl clean m], assumption)+
    then show ?thesis using k(1) hv by simp
  next
    assume k: "?n < k" "take k (commit_writes ?st V bl) = commit_writes ?st V bl"
    have D': "D' = (apply_writes (map ?g [0..<?n]) (apply_writes (map ?f [0..<?n] @ [(?z, ?H)]) (disk s)))(?z := put32 ?H 0 0)"
      unfolding D'_def k(2) unfolding W by simp
    have "m \<noteq> ?z" using m log_areaI(2) by blast
    then have "D' m = V m" unfolding D' using home_writes [OF c(8)] log_phase_other [OF c(6) m] clean [of m] by simp
    moreover have "D' ?z = put32 ?H 0 0" unfolding D' by simp
    ultimately show ?thesis using k(1) replay_empty [of D' ?st] valid_empty [OF h0] h0(2) by simp
  qed
  then show "valid_hdr ?st (D' ?z)" "replay ?st D' m = (if k \<le> ?n then disk s m else V m)" by auto
qed


text \<open>The same for a stop during recovery itself.\<close>

lemma replay_recovery:
  fixes k :: nat
  assumes v: "valid_hdr st (D (hdrblk st))" and m: "m \<notin> log_area st"
  defines "D' \<equiv> apply_writes (take k (recovery_writes st D)) D"
  shows "valid_hdr st (D' (hdrblk st)) \<and> replay st D' m = replay st D m"
proof -
  let ?z = "hdrblk st" let ?bl = "hdr_list (D ?z)" let ?n = "length ?bl"
  have bl: "distinct ?bl" "?n \<le> 29" "set ?bl \<inter> log_area st = {}" "length (D ?z) = BSIZE" using v by (simp_all add: valid_hdr_def)
  show ?thesis
  proof (cases "k \<le> ?n")
    case True
    then have W: "take k (recovery_writes st D) = take k (replay_writes st D)" by (simp add: recovery_writes_def replay_writes_def)
    have sub: "fst ` set (take k (replay_writes st D)) \<subseteq> set ?bl"
      using fst_take_subset [of k "replay_writes st D"] by (fastforce simp: replay_writes_def)
    have same: "D' x = D x" if "x \<notin> set ?bl" for x unfolding D'_def W by (rule apply_writes_other) (use that sub in blast)
    have area: "D' x = D x" if "x \<in> log_area st" for x using same that bl(3) by blast
    have R: "replay_writes st D' = replay_writes st D"
      using area [OF log_areaI(1)] area [OF log_areaI(2)] bl(2) by (simp add: replay_writes_def)
    have "replay st D' m = replay st D m"
    proof (cases "m \<in> set ?bl")
      case True
      then obtain i where i: "i < ?n" "m = ?bl ! i" by (metis in_set_conv_nth)
      have "distinct (map (\<lambda>i. ?bl ! i) [0..<?n])" using bl(1) by (simp add: map_nth)
      then have "apply_writes (replay_writes st D) X m = D (logblk st i)" for X
        using apply_writes_map [of "\<lambda>i. ?bl ! i" "[0..<?n]" i "\<lambda>i. D (logblk st i)" X] i by (simp add: replay_writes_def)
      then show ?thesis unfolding replay_def R by simp
    next
      case False
      then have "m \<notin> fst ` set (replay_writes st D)" by (auto simp: replay_writes_def)
      then show ?thesis unfolding replay_def R using same [OF False] by (simp add: apply_writes_other)
    qed
    then show ?thesis using v area [OF log_areaI(2)] by simp
  next
    case False
    then have D': "D' = (replay st D)(?z := put32 (D ?z) 0 0)"
      by (simp add: D'_def recovery_writes_def replay_writes_def replay_def)
    then have "get32 (D' ?z) 0 = 0" "length (D' ?z) = BSIZE" using bl(4) by (simp_all add: BSIZE_def)
    moreover have "m \<noteq> ?z" using m log_areaI(2) by blast
    ultimately show ?thesis using replay_empty [of D' st] valid_empty D' by simp
  qed
qed

lemma recover_replays:
  assumes "rebooted d st D s" "valid_hdr st (D (hdrblk st))"
  shows "\<exists>s'. recover_from_log s me = Inr s' \<and> disk_log s' = disk_log s @ recovery_writes st D \<and> lh_n (lh s') = 0 \<and>
    (\<exists>D'. rebooted d st D' s' \<and> (\<forall>m. m \<notin> log_area st \<longrightarrow> D' m = replay st D m) \<and> get32 (D' (hdrblk st)) 0 = 0)"
proof -
  obtain s' where s': "recover_from_log s me = Inr s'" "disk_log s' = disk_log s @ recovery_writes st D"
    "rebooted d st (apply_writes (recovery_writes st D) D) s'" "lh_n (lh s') = 0"
    using recover_ok [OF assms, of me] by auto
  have D': "apply_writes (recovery_writes st D) D = (replay st D)(hdrblk st := put32 (D (hdrblk st)) 0 0)"
    by (simp add: recovery_writes_def replay_def)
  have "length (D (hdrblk st)) = BSIZE" using assms(2) by (simp add: valid_hdr_def)
  then have "get32 (put32 (D (hdrblk st)) 0 0) 0 = 0" by (simp add: BSIZE_def)
  moreover have "\<forall>m. m \<notin> log_area st \<longrightarrow> m \<noteq> hdrblk st" by blast
  ultimately show ?thesis using s' unfolding D' by fastforce
qed

section \<open>Writing a block inside a transaction\<close>

lemma find_logged:
  assumes "take n xs = bl" "n \<le> length xs"
  shows "case find (\<lambda>i. xs ! i = v) [0..<n] of Some i \<Rightarrow> i < n \<and> xs ! i = v \<and> v \<in> set bl | None \<Rightarrow> v \<notin> set bl"
proof (cases "find (\<lambda>i. xs ! i = v) [0..<n]")
  case None
  then have "\<forall>i < n. xs ! i \<noteq> v" by (auto simp: find_None_iff)
  then have "v \<notin> set bl" using assms by (auto simp: in_set_conv_nth)
  then show ?thesis using None by simp
next
  case (Some i)
  then have "i < n" "xs ! i = v" by (auto simp: find_Some_iff)
  moreover have "bl ! i = v" "i < length bl" using calculation assms by auto
  ultimately show ?thesis using Some nth_mem by fastforce
qed

lemma log_write_ok:
  assumes c: "cache d s V P {n}" and o: "owns d s me b n" and l: "lh_n (lh s) = int (length bl)" "take (length bl) (lh_block (lh s)) = bl"
      "length (lh_block (lh s)) = 30" "length bl < 30" "int (length bl) < log_size s - 1" "0 < outstanding s"
  defines "new \<equiv> n \<notin> set bl"
  shows "\<exists>s'. log_write b s = Inr s' \<and> cache d s' V (P(n := P n + (if new then 1 else 0))) {n} \<and> owns d s' me b n \<and>
    keeps (s\<lparr>lh := lh s'\<rparr>) s' \<and> disk s' = disk s \<and> disk_log s' = disk_log s \<and> length (lh_block (lh s')) = 30 \<and>
    (let bl' = (if new then bl @ [n] else bl) in lh_n (lh s') = int (length bl') \<and> take (length bl') (lh_block (lh s')) = bl')"
proof -
  let ?k = "length bl" let ?xs = "lh_block (lh s)"
  have bn: "b_blockno (bufs s b) = n" using o by (simp add: owns_def)
  note f = find_logged [OF l(2), of n]
  have guards: "\<not> (LOGSIZE \<le> lh_n (lh s) \<or> log_size s - 1 \<le> lh_n (lh s))" "\<not> outstanding s < 1"
    using l by (auto simp: LOGSIZE_def)
  have pos: "0 < P n" using owns_refs [OF c o] .
  show ?thesis
  proof (cases "find (\<lambda>i. ?xs ! i = n) [0..<?k]")
    case None
    then have new: "new" using f l by (simp add: new_def)
    define s' where "s' = (bpin b (s\<lparr>lh := (lh s)\<lparr>lh_block := ?xs[?k := n]\<rparr>\<rparr>))\<lparr>lh := (lh s)\<lparr>lh_block := ?xs[?k := n], lh_n := int ?k + 1\<rparr>\<rparr>"
    have "log_write b s = Inr s'"
      using None guards l by (simp add: log_write_def Let_def bn lh_set_def s'_def)
    moreover have "cache d s' V (P(n := P n + 1)) {n}"
      using bpin_ok [of d "s\<lparr>lh := (lh s)\<lparr>lh_block := ?xs[?k := n]\<rparr>\<rparr>" V P "{n}" me b n 1] c o pos by (simp add: s'_def bpin_def)
    moreover have "owns d s' me b n" using o by (auto simp: s'_def owns_def bpin_def buf_upd_def holdingsleep_def)
    moreover have "take (Suc ?k) (?xs[?k := n]) = bl @ [n]" using l by (simp add: take_Suc_conv_app_nth)
    ultimately show ?thesis using new l by (cases s) (auto simp: s'_def bpin_def buf_upd_def keeps_def Let_def)
  next
    case (Some i)
    then have i: "i < ?k" "?xs ! i = n" "\<not> new" using f l by (auto simp: new_def)
    have same: "?xs[i := n] = ?xs" using i(2) by (metis list_update_id)
    have "log_write b s = Inr (s\<lparr>lh := (lh s)\<lparr>lh_block := ?xs[i := n]\<rparr>\<rparr>)"
      using Some guards l i(1) by (simp add: log_write_def Let_def bn lh_set_def)
    then show ?thesis using i c o l unfolding same by (simp add: keeps_def)
  qed
qed


text \<open>
  A block held inside a transaction, and the three ways to go on: release it, change and log it,
  or read it only. \<open>logged bl n\<close> is the list of logged blocks with \<open>n\<close> in it.
\<close>

definition log_held :: "uint \<Rightarrow> 'z klog_scheme \<Rightarrow> blocks \<Rightarrow> uint list \<Rightarrow> nat \<Rightarrow> uint \<Rightarrow> nat \<Rightarrow> bool" where
  "log_held d s V bl me n b \<longleftrightarrow>
     cache d s V ((\<lambda>m. if m \<in> set bl then 1 else 0)(n := (if n \<in> set bl then 2 else 1))) {n} \<and> owns d s me b n \<and> log_dev s = d \<and>
     length (lh_block (lh s)) = 30 \<and> lh_n (lh s) = int (length bl) \<and> take (length bl) (lh_block (lh s)) = bl \<and>
     length bl < NBUF \<and> distinct bl \<and> set bl \<inter> log_area (log_start s) = {} \<and>
     length (V (hdrblk (log_start s))) = BSIZE \<and> get32 (V (hdrblk (log_start s))) 0 = 0"

definition logged :: "uint list \<Rightarrow> uint \<Rightarrow> uint list" where
  "logged bl n = (if n \<in> set bl then bl else bl @ [n])"

lemma logged_simps [simp]: "set (logged bl n) = insert n (set bl)" "distinct (logged bl n) \<longleftrightarrow> distinct bl"
  "length (logged bl n) \<le> Suc (length bl)" "length bl \<le> length (logged bl n)"
  by (auto simp: logged_def)

lemma log_hold:
  assumes inv: "log_inv d s V bl"
  obtains b s1 where "bread s me d n = Inr (b, s1)" "log_held d s1 V bl me n b" "keeps s s1" "disk s1 = disk s" "disk_log s1 = disk_log s"
    "buf_data b s1 = V n"
proof -
  let ?P = "\<lambda>m. if m \<in> set bl then 1 else 0 :: int"
  note c = log_invD [OF inv]
  obtain b s1 where b: "bread s me d n = Inr (b, s1)" "cache d s1 V (?P(n := ?P n + 1)) (insert n {})"
    "owns d s1 me b n" "keeps s s1" "disk s1 = disk s" "disk_log s1 = disk_log s"
    using bread_ok [OF c(1), of n me] c(11) by (metis empty_iff)
  have "?P(n := ?P n + 1) = ?P(n := (if n \<in> set bl then 2 else 1))" by auto
  then have "log_held d s1 V bl me n b" unfolding log_held_def using b(2,3) keeps_log [OF b(4)] inv by (simp add: log_inv_def)
  then show thesis using that b owns_data [OF b(2,3)] by blast
qed

lemma log_release:
  assumes h: "log_held d s V bl me n b" and clean: "n \<notin> set bl \<Longrightarrow> V n = disk s n"
  obtains s' where "brelse s me b = Inr s'" "log_inv d s' V bl" "keeps s s'" "disk s' = disk s" "disk_log s' = disk_log s"
proof -
  let ?P = "\<lambda>m. if m \<in> set bl then 1 else 0 :: int" let ?Q = "?P(n := (if n \<in> set bl then 2 else 1))"
  have c: "cache d s V ?Q {n}" "owns d s me b n" using h by (simp_all add: log_held_def)
  have Q: "?Q(n := ?Q n - 1) = ?P" by auto
  have "\<exists>s'. brelse s me b = Inr s' \<and> cache d s' V (?Q(n := ?Q n - 1)) ({n} - {n}) \<and> keeps s s' \<and> disk s' = disk s \<and> disk_log s' = disk_log s"
    by (rule brelse_ok [OF c]) (use clean in \<open>auto split: if_splits\<close>)
  then obtain s' where s': "brelse s me b = Inr s'" "cache d s' V ?P {}" "keeps s s'" "disk s' = disk s" "disk_log s' = disk_log s"
    unfolding Q by auto
  have "log_inv d s' V bl" using s'(2) keeps_log [OF s'(3)] h by (simp add: log_inv_def log_held_def)
  then show thesis using that s' by blast
qed

lemma log_change:
  assumes h: "log_held d s V bl me n b" and n: "n \<notin> log_area (log_start s)" and room: "Suc (length bl) < NBUF"
    and tx: "int (length bl) < log_size s - 1" "0 < outstanding s"
  shows "\<exists>s1 s2. log_write b (set_data b v s) = Inr s1 \<and> brelse s1 me b = Inr s2 \<and> log_inv d s2 (V(n := v)) (logged bl n) \<and>
    disk s2 = disk s \<and> disk_log s2 = disk_log s \<and> keeps (s\<lparr>lh := lh s2\<rparr>) s2"
proof -
  let ?P = "\<lambda>m. if m \<in> set bl then 1 else 0 :: int" let ?Q = "?P(n := (if n \<in> set bl then 2 else 1))"
  have c: "cache d s V ?Q {n}" "owns d s me b n" "lh_n (lh s) = int (length bl)" "take (length bl) (lh_block (lh s)) = bl"
    "length (lh_block (lh s)) = 30" using h by (simp_all add: log_held_def)
  define t where "t = set_data b v s"
  have ct: "cache d t (V(n := v)) ?Q {n}" unfolding t_def by (rule set_data_ok [OF c(1,2)])
  have ot: "owns d t me b n" using c(2) by (simp add: t_def owns_set_data)
  have kt: "keeps s t" by (simp add: t_def)
  note gt = keeps_log [OF kt]
  have b30: "length bl < 30" using room by (simp add: NBUF_def)
  have bl': "(if n \<notin> set bl then bl @ [n] else bl) = logged bl n" by (simp add: logged_def)
  obtain s1 where s1: "log_write b t = Inr s1"
    "cache d s1 (V(n := v)) (?Q(n := ?Q n + (if n \<notin> set bl then 1 else 0))) {n}" "owns d s1 me b n"
    "keeps (t\<lparr>lh := lh s1\<rparr>) s1" "disk s1 = disk t" "disk_log s1 = disk_log t" "length (lh_block (lh s1)) = 30"
    "lh_n (lh s1) = int (length (logged bl n))" "take (length (logged bl n)) (lh_block (lh s1)) = logged bl n"
    using log_write_ok [OF ct ot, of bl] gt c(3-5) b30 tx unfolding bl' Let_def by metis
  let ?R = "\<lambda>m. if m \<in> set (logged bl n) then 1 else 0 :: int"
  have Q: "?Q(n := ?Q n + (if n \<notin> set bl then 1 else 0)) = ?R(n := 2)" by auto
  have R: "(?R(n := 2))(n := (?R(n := 2)) n - 1) = ?R" by auto
  have "\<exists>s2. brelse s1 me b = Inr s2 \<and> cache d s2 (V(n := v)) ((?R(n := 2))(n := (?R(n := 2)) n - 1)) ({n} - {n}) \<and>
    keeps s1 s2 \<and> disk s2 = disk s1 \<and> disk_log s2 = disk_log s1"
    by (rule brelse_ok [OF s1(2) [unfolded Q] s1(3)]) auto
  then obtain s2 where s2: "brelse s1 me b = Inr s2" "cache d s2 (V(n := v)) ?R {}" "keeps s1 s2" "disk s2 = disk s1" "disk_log s2 = disk_log s1"
    unfolding R by auto
  have lh2: "lh s2 = lh s1" using keeps_log [OF s2(3)] by simp
  have k2: "keeps (s\<lparr>lh := lh s2\<rparr>) s2" using kt s1(4) s2(3) lh2 by (cases s, cases t) (auto simp: keeps_def)
  have g2: "log_dev s2 = log_dev s" "log_start s2 = log_start s" using keeps_log [OF k2] by simp_all
  have nz: "n \<noteq> hdrblk (log_start s)" using n by blast
  have len: "length (logged bl n) < NBUF" using room logged_simps(3) [of bl n] by linarith
  have "log_inv d s2 (V(n := v)) (logged bl n)"
    unfolding log_inv_def using s2(2) s1(7-9) lh2 g2 h len n nz by (simp add: log_held_def)
  then show ?thesis using s1(1,5,6) s2 k2 by (auto simp: t_def)
qed

text \<open>The pattern of every metadata update in \<open>fs.c\<close>: read the block, change it, \<open>log_write\<close>, release.\<close>

definition logged_update :: "'z klog_scheme \<Rightarrow> nat \<Rightarrow> uint \<Rightarrow> uint \<Rightarrow> (uint8 list \<Rightarrow> uint8 list) \<Rightarrow> 'z klog_scheme res" where
  "logged_update s me d n f =
     bind_res (bread s me d n) (\<lambda>(b, s).
     bind_res (log_write b (set_data b (f (buf_data b s)) s)) (\<lambda>s. brelse s me b))"

lemma logged_update_ok:
  assumes inv: "log_inv d s V bl" and n: "n \<notin> log_area (log_start s)" and room: "Suc (length bl) < NBUF"
    and tx: "int (length bl) < log_size s - 1" "0 < outstanding s"
  shows "\<exists>s'. logged_update s me d n f = Inr s' \<and> log_inv d s' (V(n := f (V n))) (logged bl n) \<and>
    disk s' = disk s \<and> disk_log s' = disk_log s \<and> keeps (s\<lparr>lh := lh s'\<rparr>) s'"
proof -
  obtain b s1 where b: "bread s me d n = Inr (b, s1)" "log_held d s1 V bl me n b" "keeps s s1" "disk s1 = disk s" "disk_log s1 = disk_log s"
    "buf_data b s1 = V n" using log_hold [OF inv] by metis
  obtain s2 s3 where s: "log_write b (set_data b (f (V n)) s1) = Inr s2" "brelse s2 me b = Inr s3"
    "log_inv d s3 (V(n := f (V n))) (logged bl n)" "disk s3 = disk s1" "disk_log s3 = disk_log s1" "keeps (s1\<lparr>lh := lh s3\<rparr>) s3"
    using log_change [OF b(2), of "f (V n)"] keeps_log [OF b(3)] n room tx by auto
  have "keeps (s\<lparr>lh := lh s3\<rparr>) s3" using b(3) s(6) by (cases s, cases s1) (auto simp: keeps_def)
  then show ?thesis using b s by (simp add: logged_update_def)
qed

section \<open>The cache at boot\<close>

definition binit_step :: "nat \<Rightarrow> 'z kbio_scheme \<Rightarrow> 'z kbio_scheme" where
  "binit_step b s = link_front b (buf_upd b (\<lambda>x. x\<lparr>b_lock := initsleeplock ''buffer''\<rparr>) s)"

lemma binit_step_bufs: "binit_step b s = s\<lparr>bufs := bufs (binit_step b s)\<rparr>"
  by (simp add: binit_step_def link_front_def Let_def buf_upd_def)

lemma binit_steps:
  assumes "ring s []" "k \<le> NBUF"
  shows "ring (fold binit_step [0..<k] s) (rev [0..<k]) \<and>
    (\<forall>b. payload (bufs (fold binit_step [0..<k] s) b) =
      payload (if b < k then (bufs s b)\<lparr>b_lock := initsleeplock ''buffer''\<rparr> else bufs s b)) \<and>
    fold binit_step [0..<k] s = s\<lparr>bufs := bufs (fold binit_step [0..<k] s)\<rparr>"
  using assms(2)
proof (induction k)
  case 0
  then show ?case using assms(1) by simp
next
  case (Suc k)
  define t where "t = fold binit_step [0..<k] s"
  define u where "u = buf_upd k (\<lambda>x. x\<lparr>b_lock := initsleeplock ''buffer''\<rparr>) t"
  have IH: "ring t (rev [0..<k])" "t = s\<lparr>bufs := bufs t\<rparr>"
    "\<And>b. payload (bufs t b) = payload (if b < k then (bufs s b)\<lparr>b_lock := initsleeplock ''buffer''\<rparr> else bufs s b)"
    using Suc unfolding t_def by auto
  have f: "fold binit_step [0..<Suc k] s = link_front k u" by (simp add: t_def u_def binit_step_def)
  have "ring u (rev [0..<k])" unfolding u_def by (rule ring_same_links [OF IH(1)]) simp_all
  then have "ring (link_front k u) (rev [0..<Suc k])" using ring_link_front [of u "rev [0..<k]" k] Suc.prems by simp
  moreover have "payload (bufs (link_front k u) b) = payload (if b < Suc k then (bufs s b)\<lparr>b_lock := initsleeplock ''buffer''\<rparr> else bufs s b)" for b
    unfolding payload_links using IH(3) [of b] by (cases "b = k") (auto simp: u_def payload_def)
  moreover have "link_front k u = s\<lparr>bufs := bufs (link_front k u)\<rparr>"
    using binit_step_bufs [of k t] IH(2) unfolding binit_step_def u_def [symmetric] by (metis kbio.surjective kbio.update_convs(1))
  ultimately show ?case unfolding f by blast
qed

lemma binit_ok:
  assumes "\<And>b. b < NBUF \<Longrightarrow> b_dev (bufs s b) \<noteq> d \<and> b_refcnt (bufs s b) = 0"
  shows "cache d (binit s) (disk s) (\<lambda>_. 0) {}" "binit s = s\<lparr>bufs := bufs (binit s)\<rparr>"
proof -
  define t where "t = buf_upd NBUF (\<lambda>x. x\<lparr>b_prev := NBUF, b_next := NBUF\<rparr>) s"
  have b: "binit s = fold binit_step [0..<NBUF] t" by (simp add: binit_def t_def binit_step_def [abs_def])
  have "ring t []" by (simp add: ring_def t_def)
  note st = binit_steps [OF this order_refl, folded b]
  have r: "ring (binit s) (rev [0..<NBUF])"
    and p: "\<And>b. payload (bufs (binit s) b) = payload (if b < NBUF then (bufs t b)\<lparr>b_lock := initsleeplock ''buffer''\<rparr> else bufs t b)"
    and m: "binit s = t\<lparr>bufs := bufs (binit s)\<rparr>" using st by blast+
  show eq: "binit s = s\<lparr>bufs := bufs (binit s)\<rparr>" by (subst m) (simp add: t_def buf_upd_def)
  have dk: "disk (binit s) = disk s" by (subst eq) simp
  have ok: "b_dev (bufs (binit s) b) \<noteq> d" "b_refcnt (bufs (binit s) b) = 0" "\<not> sl_locked (b_lock (bufs (binit s) b))" if "b < NBUF" for b
    using p [of b] that assms [OF that] by (auto simp: payload_def t_def initsleeplock_def)
  have "\<exists>xs. ring (binit s) xs \<and> set xs = {..<NBUF}" using r by (intro exI [of _ "rev [0..<NBUF]"]) auto
  then show "cache d (binit s) (disk s) (\<lambda>_. 0) {}" unfolding cache_def buf_ok_def dk using ok by auto
qed


section \<open>Properties\<close>

lemma cache_log_fields [simp]:
  fixes s :: "'z klog_scheme"
  shows "cache d (s\<lparr>outstanding := x\<rparr>) V P L = cache d s V P L" "cache d (s\<lparr>committing := c\<rparr>) V P L = cache d s V P L"
    "cache d (wakeup s w ch) V P L = cache d s V P L"
  by (simp_all add: cache_def ring_def wakeup_procs)

lemma wakeup_log_fields [simp]:
  fixes s :: "'z klog_scheme"
  shows "lh (wakeup s w ch) = lh s" "log_dev (wakeup s w ch) = log_dev s" "log_start (wakeup s w ch) = log_start s"
    "disk (wakeup s w ch) = disk s" "disk_log (wakeup s w ch) = disk_log s" "outstanding (wakeup s w ch) = outstanding s"
    "committing (wakeup s w ch) = committing s"
  by (simp_all add: wakeup_procs)

lemma log_area_proper: "hdrblk st - 1 \<notin> log_area st"
proof
  assume "hdrblk st - 1 \<in> log_area st"
  then consider "hdrblk st - 1 = hdrblk st" | i where "i < 29" "hdrblk st - 1 = logblk st i" by (auto simp: log_area_def)
  then show False
  proof cases
    case 2
    then have "of_nat (Suc (Suc i)) = (0 :: uint)" by (simp add: logblk_def algebra_simps)
    then have "unat (of_nat (Suc (Suc i)) :: uint) = 0" by (metis unat_0)
    then show False using 2 by (simp add: unat_of_nat del: of_nat_Suc)
  qed simp
qed

text \<open>The end of the last operation of a transaction: it commits, and leaves an empty log.\<close>

lemma end_op_commits:
  assumes inv: "log_inv d s V bl" and o: "outstanding s = 1" "\<not> committing s"
  shows "\<exists>s' ws c. end_op s me = Inr s' \<and> disk_log s' = disk_log s @ ws \<and> outstanding s' = 0 \<and> \<not> committing s' \<and>
    disk s' = apply_writes ws (disk s) \<and> log_inv d s' (apply_writes ws V) [] \<and> c \<le> length ws \<and>
    (\<forall>m k. m \<notin> log_area (log_start s) \<longrightarrow>
       valid_hdr (log_start s) (apply_writes (take k ws) (disk s) (hdrblk (log_start s))) \<and>
       replay (log_start s) (apply_writes (take k ws) (disk s)) m = (if k < c then disk s m else V m))"
proof -
  define t where "t = s\<lparr>outstanding := 0, committing := True\<rparr>"
  have ti: "log_inv d t V bl" "disk t = disk s" "disk_log t = disk_log s" "log_start t = log_start s"
    using inv by (simp_all add: t_def log_inv_def)
  have enter: "end_op_enter s me = Inr (True, t)" using o by (simp add: end_op_enter_def t_def Let_def)
  have B: "length (V (hdrblk (log_start s))) = BSIZE" "get32 (V (hdrblk (log_start s))) 0 = 0" using inv by (simp_all add: log_inv_def)
  note c = log_invD [OF inv]
  show ?thesis
  proof (cases "bl = []")
    case True
    then have V: "V = disk s" using log_inv_clean [OF inv] by (auto simp: fun_eq_iff)
    let ?s' = "wakeup (t\<lparr>committing := False\<rparr>) (Some me) ChLog"
    have e: "end_op s me = Inr ?s'" using enter c(4) True by (simp add: end_op_def commit_def t_def)
    have "log_inv d ?s' V []" using ti(1) True by (simp add: log_inv_def)
    then show ?thesis using e B V replay_empty [of "disk s"] valid_empty
      by (intro exI [of _ ?s'] exI [of _ "[]"] exI [of _ 0]) (simp add: t_def)
  next
    case False
    let ?ws = "commit_writes (log_start s) V bl"
    obtain s1 where s1: "commit t me = Inr s1" "wrote d (clear_lh t) V ?ws s1 (\<lambda>_. 0)"
      using commit_ok [OF ti(1) False] ti(4) by auto
    let ?s' = "wakeup (s1\<lparr>committing := False\<rparr>) (Some me) ChLog"
    have e: "end_op s me = Inr ?s'" using enter s1(1) by (simp add: end_op_def)
    have k1: "keeps (clear_lh t) s1" and d1: "disk s1 = apply_writes ?ws (disk s)" "disk_log s1 = disk_log s @ ?ws"
      using s1(2) ti by (simp_all add: wrote_def clear_lh_def)
    note g1 = keeps_log [OF k1]
    have H: "apply_writes ?ws V (hdrblk (log_start s)) = put32 (hdr_bytes (V (hdrblk (log_start s))) (length bl) bl) 0 0"
      by (simp add: commit_writes_def Let_def)
    have "log_inv d ?s' (apply_writes ?ws V) []"
      using s1(2) g1 c hdr_bytes_ok(1) [OF B(1) c(6), of bl] H
      by (simp add: log_inv_def wrote_def clear_lh_def t_def NBUF_def BSIZE_def)
    moreover have "Suc (length bl) \<le> length ?ws" by (simp add: commit_writes_def Let_def)
    ultimately show ?thesis using e d1 g1 replay_commit [OF inv]
      by (intro exI [of _ ?s'] exI [of _ ?ws] exI [of _ "Suc (length bl)"]) (simp add: t_def clear_lh_def less_Suc_eq_le)
  qed
qed

text \<open>C2: the file system survives a crash. When the last operation of a transaction ends, its blocks are committed; if the machine
  stops after any number of the block writes this takes, and the log is recovered from what is then on disk, every block
  outside the log has its contents from before the transaction or every block has the contents the transaction
  gave it. The change from one to the other happens at a single write, and has happened when \<open>end_op\<close> returns.\<close>

theorem commit_crash_safe:
  assumes "log_inv d s V bl" "outstanding s = 1" "\<not> committing s"
  shows "\<exists>s' ws c. end_op s me = Inr s' \<and> disk_log s' = disk_log s @ ws \<and> disk s' = apply_writes ws (disk s) \<and>
    log_inv d s' (apply_writes ws V) [] \<and> c \<le> length ws \<and>
    (\<forall>k r. rebooted d (log_start s) (apply_writes (take k ws) (disk s)) r \<longrightarrow>
       (\<exists>r'. recover_from_log r me' = Inr r' \<and>
          (\<forall>m. m \<notin> log_area (log_start s) \<longrightarrow> disk r' m = (if k < c then disk s m else V m))))"
proof -
  let ?st = "log_start s"
  obtain s' ws c where s': "end_op s me = Inr s'" "disk_log s' = disk_log s @ ws" "disk s' = apply_writes ws (disk s)"
    "log_inv d s' (apply_writes ws V) []" "c \<le> length ws"
    and rp: "\<And>m k. m \<notin> log_area ?st \<Longrightarrow> valid_hdr ?st (apply_writes (take k ws) (disk s) (hdrblk ?st)) \<and>
       replay ?st (apply_writes (take k ws) (disk s)) m = (if k < c then disk s m else V m)"
    using end_op_commits [OF assms] by metis
  have "\<exists>r'. recover_from_log r me' = Inr r' \<and> (\<forall>m. m \<notin> log_area ?st \<longrightarrow> disk r' m = (if k < c then disk s m else V m))"
    if r: "rebooted d ?st (apply_writes (take k ws) (disk s)) r" for k r
    using recover_replays [OF r, of me'] rp [OF log_area_proper] rp [of _ k] unfolding rebooted_def by metis
  then show ?thesis using s' by blast
qed


text \<open>A machine with an empty disk and a fresh cache, inside an operation.\<close>

definition zero_buf :: buf where
  "zero_buf = \<lparr>b_valid = False, b_dev = 0, b_blockno = 0, b_lock = initsleeplock [], b_refcnt = 0, b_prev = 0, b_next = 0, b_data = []\<rparr>"

definition fresh_log :: klog where
  "fresh_log = \<lparr>mem = \<lambda>_. 0, freelist = 0, nump_using = \<lambda>_. 0, console = [], procs = \<lambda>_. idle_proc,
     ticks = 0, nextpid = 1, initproc = None, tramp_pa = 0, forkret_pc = 0,
     bufs = \<lambda>_. zero_buf, disk = \<lambda>_. replicate BSIZE 0, disk_log = [],
     log_start = 2, log_size = 30, outstanding = 1, committing = False, log_dev = 1,
     lh = \<lparr>lh_n = 0, lh_block = replicate 30 0\<rparr>\<rparr>"

lemma get32_replicate: "off + 4 \<le> n \<Longrightarrow> get32 (replicate n 0) off = 0"
proof -
  assume "off + 4 \<le> n"
  then have "slice (replicate n 0) off 4 = replicate 4 (0 :: uint8)" by (simp add: slice_def min_def)
  also have "\<dots> = [0, 0, 0, 0]" by code_simp
  finally show ?thesis by (simp add: get32_def nat_of_le_def)
qed

lemma fresh_log_inv:
  "log_inv 1 (binit fresh_log) (\<lambda>_. replicate BSIZE 0) []" "outstanding (binit fresh_log) = 1" "\<not> committing (binit fresh_log)"
  "log_start (binit fresh_log) = 2" "log_size (binit fresh_log) = 30" "disk (binit fresh_log) = (\<lambda>_. replicate BSIZE 0)"
  "rebooted 1 2 (\<lambda>_. replicate BSIZE 0) (binit fresh_log)"
proof -
  have "b_dev (bufs fresh_log b) \<noteq> 1 \<and> b_refcnt (bufs fresh_log b) = 0" for b by (simp add: fresh_log_def zero_buf_def)
  note b = binit_ok [of fresh_log 1, OF this]
  have c: "cache 1 (binit fresh_log) (\<lambda>_. replicate BSIZE 0) (\<lambda>_. 0) {}" using b(1) by (simp add: fresh_log_def)
  have f: "log_dev (binit fresh_log) = 1" "lh (binit fresh_log) = \<lparr>lh_n = 0, lh_block = replicate 30 0\<rparr>"
    "outstanding (binit fresh_log) = 1" "\<not> committing (binit fresh_log)" "log_start (binit fresh_log) = 2"
    "log_size (binit fresh_log) = 30" "disk (binit fresh_log) = (\<lambda>_. replicate BSIZE 0)"
    by (subst b(2), simp add: fresh_log_def)+
  show "log_inv 1 (binit fresh_log) (\<lambda>_. replicate BSIZE 0) []"
    using c f by (simp add: log_inv_def NBUF_def get32_replicate BSIZE_def)
  show "outstanding (binit fresh_log) = 1" "\<not> committing (binit fresh_log)" "log_start (binit fresh_log) = 2" "log_size (binit fresh_log) = 30"
    "disk (binit fresh_log) = (\<lambda>_. replicate BSIZE 0)" by (fact f)+
  show "rebooted 1 2 (\<lambda>_. replicate BSIZE 0) (binit fresh_log)" using c f by (simp add: rebooted_def)
qed

lemma hundred_not_log: "(100 :: uint) \<notin> log_area 2"
proof
  assume "(100 :: uint) \<in> log_area 2"
  then obtain i where "i < 29" "(100 :: uint) = of_nat (i + 3)" by (auto simp: log_area_def logblk_def)
  then have "unat (100 :: uint) = unat (of_nat (i + 3) :: uint)" by simp
  then show False using \<open>i < 29\<close> by (simp add: unat_of_nat del: of_nat_add)
qed

lemma fresh_update:
  "\<exists>s. logged_update (binit fresh_log) 0 1 100 (\<lambda>_. replicate BSIZE 7) = Inr s \<and>
    log_inv 1 s ((\<lambda>_. replicate BSIZE 0)(100 := replicate BSIZE 7)) [100] \<and> outstanding s = 1 \<and> \<not> committing s \<and>
    log_start s = 2 \<and> disk s = (\<lambda>_. replicate BSIZE 0)"
proof -
  obtain s where s: "logged_update (binit fresh_log) 0 1 100 (\<lambda>_. replicate BSIZE 7) = Inr s"
    "log_inv 1 s ((\<lambda>_. replicate BSIZE 0)(100 := replicate BSIZE 7)) [100]" "disk s = (\<lambda>_. replicate BSIZE 0)"
    "keeps ((binit fresh_log)\<lparr>lh := lh s\<rparr>) s"
    using logged_update_ok [OF fresh_log_inv(1), of 100 0 "\<lambda>_. replicate BSIZE 7"] hundred_not_log fresh_log_inv(2,4,5,6)
    by (auto simp: NBUF_def logged_def)
  then show ?thesis using keeps_log [OF s(4)] fresh_log_inv by simp
qed

theorem commit_crash_safe_witness:
  "\<exists>s s' ws c. logged_update (binit fresh_log) 0 1 100 (\<lambda>_. replicate BSIZE 7) = Inr s \<and> end_op s 0 = Inr s' \<and>
    disk_log s' = disk_log s @ ws \<and> c \<le> length ws \<and>
    (\<forall>k r. rebooted 1 2 (apply_writes (take k ws) (disk s)) r \<longrightarrow>
       (\<exists>r'. recover_from_log r 0 = Inr r' \<and> disk r' 100 = (if k < c then replicate BSIZE 0 else replicate BSIZE 7)))"
proof -
  obtain s where s: "logged_update (binit fresh_log) 0 1 100 (\<lambda>_. replicate BSIZE 7) = Inr s"
    "log_inv 1 s ((\<lambda>_. replicate BSIZE 0)(100 := replicate BSIZE 7)) [100]" "outstanding s = 1" "\<not> committing s"
    "log_start s = 2" "disk s = (\<lambda>_. replicate BSIZE 0)" using fresh_update by blast
  show ?thesis using commit_crash_safe [OF s(2-4), of 0 0] s hundred_not_log by fastforce
qed

text \<open>C8: recovery after a crash computes \<open>replay\<close>: every block the header names gets the contents of its log block, every other
  block outside the log keeps its own, and the header is cleared. A crash during recovery does no harm: wherever it stops, a new recovery ends with the same contents.\<close>

theorem recover_refines_replay:
  assumes "rebooted d st D s" "valid_hdr st (D (hdrblk st))"
  shows "\<exists>s' ws. recover_from_log s me = Inr s' \<and> disk_log s' = disk_log s @ ws \<and>
    (\<forall>m. m \<notin> log_area st \<longrightarrow> disk s' m = replay st D m) \<and> get32 (disk s' (hdrblk st)) 0 = 0 \<and>
    (\<forall>k r. rebooted d st (apply_writes (take k ws) D) r \<longrightarrow>
       (\<exists>r'. recover_from_log r me = Inr r' \<and> (\<forall>m. m \<notin> log_area st \<longrightarrow> disk r' m = replay st D m)))"
proof -
  obtain s' D' where s': "recover_from_log s me = Inr s'" "disk_log s' = disk_log s @ recovery_writes st D" "disk s' = D'"
    "\<forall>m. m \<notin> log_area st \<longrightarrow> D' m = replay st D m" "get32 (D' (hdrblk st)) 0 = 0"
    using recover_replays [OF assms, of me] unfolding rebooted_def by blast
  have rv: "valid_hdr st (apply_writes (take k (recovery_writes st D)) D (hdrblk st)) \<and>
    (\<forall>m. m \<notin> log_area st \<longrightarrow> replay st (apply_writes (take k (recovery_writes st D)) D) m = replay st D m)" for k
    using replay_recovery [where D = D and st = st] assms(2) log_area_proper [of st] by blast
  have "\<exists>r'. recover_from_log r me = Inr r' \<and> (\<forall>m. m \<notin> log_area st \<longrightarrow> disk r' m = replay st D m)"
    if r: "rebooted d st (apply_writes (take k (recovery_writes st D)) D) r" for k r
    using recover_replays [OF r, of me] rv unfolding rebooted_def by metis
  then show ?thesis using s' by blast
qed

text \<open>A disk whose header names block 100.\<close>

definition crashed_disk :: blocks where
  "crashed_disk = (\<lambda>_. replicate BSIZE 0)(2 := hdr_bytes (replicate BSIZE 0) 1 [100], 3 := replicate BSIZE 7)"

lemma crashed_disk_ok: "valid_hdr 2 (crashed_disk 2)" "replay 2 crashed_disk 100 = replicate BSIZE 7"
proof -
  have h: "crashed_disk 2 = hdr_bytes (replicate BSIZE 0) 1 [100]" by (simp add: crashed_disk_def)
  have l: "hdr_list (crashed_disk 2) = [100]" unfolding h by (subst hdr_list_hdr_bytes) simp_all
  have g: "get32 (crashed_disk 2) 0 = 1" "length (crashed_disk 2) = BSIZE" unfolding h by (subst hdr_bytes_ok, simp_all)+
  show "valid_hdr 2 (crashed_disk 2)" unfolding valid_hdr_def l g(1) using g(2) hundred_not_log by simp
  show "replay 2 crashed_disk 100 = replicate BSIZE 7"
    by (simp add: replay_def replay_writes_def l logblk_def) (simp add: crashed_disk_def)
qed

theorem recover_refines_replay_witness:
  "\<exists>s'. recover_from_log (binit (fresh_log\<lparr>disk := crashed_disk\<rparr>)) 0 = Inr s' \<and> disk s' 100 = replicate BSIZE 7"
proof -
  let ?f = "fresh_log\<lparr>disk := crashed_disk\<rparr>"
  have "b_dev (bufs ?f b) \<noteq> 1 \<and> b_refcnt (bufs ?f b) = 0" for b by (simp add: fresh_log_def zero_buf_def)
  note b = binit_ok [of ?f 1, OF this]
  have f: "log_dev (binit ?f) = 1" "lh (binit ?f) = \<lparr>lh_n = 0, lh_block = replicate 30 0\<rparr>" "log_start (binit ?f) = 2" "disk (binit ?f) = crashed_disk"
    by (subst b(2), simp add: fresh_log_def)+
  have r: "rebooted 1 2 crashed_disk (binit ?f)" using b(1) f by (simp add: rebooted_def)
  show ?thesis using recover_refines_replay [OF r, of 0] crashed_disk_ok hundred_not_log by auto
qed


text \<open>C7: the buffer cache implements a map from block numbers to contents. \<open>bread\<close> of a block nobody has locked succeeds when a buffer is
  unreferenced or holds the block, and gives the current contents; releasing it leaves the map and the counts as they were, and
  \<open>bwrite\<close> of new contents changes exactly that block, in the cache and on disk.\<close>

theorem cache_refines_blocks:
  assumes "cache d s V P L" "n \<notin> L" "P n \<noteq> 0 \<or> card {m. P m \<noteq> 0} < NBUF"
  shows "\<exists>b s1. bread s me d n = Inr (b, s1) \<and> b_data (bufs s1 b) = V n \<and> disk s1 = disk s \<and>
    (\<exists>s2. brelse s1 me b = Inr s2 \<and> cache d s2 V P L \<and> disk s2 = disk s) \<and>
    (\<forall>v. \<exists>s2 s3. bwrite (set_data b v s1) me b = Inr s2 \<and> brelse s2 me b = Inr s3 \<and>
       cache d s3 (V(n := v)) P L \<and> disk s3 = (disk s)(n := v))"
proof -
  obtain b s1 where b: "bread s me d n = Inr (b, s1)" "cache d s1 V (P(n := P n + 1)) (insert n L)" "owns d s1 me b n" "disk s1 = disk s"
    using bread_ok [OF assms, of me] by metis
  have P: "(P(n := P n + 1))(n := (P(n := P n + 1)) n - 1) = P" and L: "insert n L - {n} = L" using assms(2) by auto
  have rel: "\<exists>s2. brelse s1 me b = Inr s2 \<and> cache d s2 V P L \<and> disk s2 = disk s"
  proof (rule brelse_ok [OF b(2,3)])
    show "(P(n := P n + 1)) n = 1 \<Longrightarrow> V n = disk s1 n" using cacheD(5) [OF assms(1), of n] b(4) by simp
  qed (use P L b(4) in auto)
  have "\<exists>s2 s3. bwrite (set_data b v s1) me b = Inr s2 \<and> brelse s2 me b = Inr s3 \<and> cache d s3 (V(n := v)) P L \<and> disk s3 = (disk s)(n := v)" for v
  proof -
    have o: "owns d (set_data b v s1) me b n" using b(3) by (simp add: owns_set_data)
    note w = bwrite_ok [OF set_data_ok [OF b(2,3), of v] o]
    let ?s2 = "(set_data b v s1)\<lparr>disk := (disk s1)(n := v), disk_log := disk_log s1 @ [(n, v)]\<rparr>"
    have c: "cache d ?s2 (V(n := v)) (P(n := P n + 1)) (insert n L)" "owns d ?s2 me b n" using w(2) o by (simp_all add: owns_disk)
    have "\<exists>s3. brelse ?s2 me b = Inr s3 \<and> cache d s3 (V(n := v)) P L \<and> disk s3 = (disk s)(n := v)"
      by (rule brelse_ok [OF c]) (use P L b(4) in auto)
    then show ?thesis using w(1) by auto
  qed
  then show ?thesis using b rel owns_data [OF b(2,3)] by blast
qed

theorem cache_refines_blocks_witness:
  "\<exists>b s1. bread (binit fresh_log) 0 1 100 = Inr (b, s1) \<and> b_data (bufs s1 b) = replicate BSIZE 0"
  using cache_refines_blocks [OF log_invD(1) [OF fresh_log_inv(1)], of 100 0] by (auto simp: NBUF_def)

end
