(* ===== verification/Fsblocks.thy ===== *)
theory Fsblocks
  imports Fs Crash
begin

text \<open>
  Correctness of the block allocator of \<open>kernel/fs.c\<close>, inside a transaction: the free map is
  the set of blocks whose bit is set, \<open>balloc\<close> adds a block that was not in it and zeroes it, \<open>bfree\<close>
  takes one out.
\<close>

section \<open>Frames\<close>

text \<open>Two states that agree on everything above the log header.\<close>

definition fkeeps :: "'z klog_scheme \<Rightarrow> 'z klog_scheme \<Rightarrow> bool" where
  "fkeeps s s' \<longleftrightarrow> keeps (s\<lparr>lh := lh s'\<rparr>) s'"

lemma fkeeps_fields:
  fixes s s' :: "'z kfs_scheme"
  assumes "fkeeps s s'"
  shows "sb s' = sb s" "inodes s' = inodes s" "log_start s' = log_start s" "log_dev s' = log_dev s" "log_size s' = log_size s"
    "outstanding s' = outstanding s" "committing s' = committing s" "kfs.more s' = kfs.more s" "p_pid (procs s' i) = p_pid (procs s i)"
  using assms by (cases s, cases s', simp add: fkeeps_def keeps_def)+

lemma fkeeps_refl [simp]: "fkeeps s s"
  by (simp add: fkeeps_def)

lemma fkeeps_trans: "fkeeps s t \<Longrightarrow> fkeeps t u \<Longrightarrow> fkeeps s u"
  by (cases s, cases t, cases u) (auto simp: fkeeps_def keeps_def)

lemma keeps_fkeeps: "keeps s s' \<Longrightarrow> fkeeps s s'"
  by (cases s, cases s') (auto simp: fkeeps_def keeps_def)

lemma kprint_kfs [simp]:
  fixes s :: "'z klog_scheme"
  shows "log_inv d (kprint m s) V bl = log_inv d s V bl" "fkeeps s (kprint m s)"
  by (simp_all add: kprint_def log_inv_def cache_def ring_def fkeeps_def keeps_def)

text \<open>Room in the transaction for \<open>k\<close> more blocks.\<close>

definition tx_room :: "'z klog_scheme \<Rightarrow> uint list \<Rightarrow> nat \<Rightarrow> bool" where
  "tx_room s bl k \<longleftrightarrow> length bl + k < NBUF \<and> int (length bl + k) \<le> log_size s - 1 \<and> 0 < outstanding s"

lemma tx_room_logged:
  fixes s s' :: "'z kfs_scheme"
  assumes "tx_room s bl (Suc k)" "fkeeps s s'"
  shows "tx_room s' (logged bl n) k"
  using assms(1) logged_simps(3) [of bl n] unfolding tx_room_def fkeeps_fields [OF assms(2)] by linarith

lemma tx_room_same:
  fixes s s' :: "'z kfs_scheme"
  assumes "tx_room s bl k" "fkeeps s s'"
  shows "tx_room s' bl k"
  using assms fkeeps_fields [OF assms(2)] by (auto simp: tx_room_def)

lemma tx_room_mono: "tx_room s bl k \<Longrightarrow> j \<le> k \<Longrightarrow> tx_room s bl j"
  by (auto simp: tx_room_def)

lemma log_change_tx:
  fixes s :: "'z kfs_scheme"
  assumes "log_held d s V bl me n b" "n \<notin> log_area (log_start s)" "tx_room s bl (Suc k)"
  shows "\<exists>s1 s2. log_write b (set_data b v s) = Inr s1 \<and> brelse s1 me b = Inr s2 \<and> log_inv d s2 (V(n := v)) (logged bl n) \<and> fkeeps s s2"
  using log_change [OF assms(1,2), of v] assms(3) by (fastforce simp: tx_room_def fkeeps_def)

lemma bzero_ok:
  assumes "log_inv d s V bl" "n \<notin> log_area (log_start s)" "tx_room s bl (Suc k)"
  shows "\<exists>s'. bzero s me d n = Inr s' \<and> log_inv d s' (V(n := replicate BSIZE 0)) (logged bl n) \<and> fkeeps s s'"
proof -
  have eq: "bzero s me d n = logged_update s me d n (\<lambda>_. replicate BSIZE 0)"
    by (simp add: bzero_def logged_update_def Let_def)
  show ?thesis unfolding eq using logged_update_ok [OF assms(1,2), of me "\<lambda>_. replicate BSIZE 0"] assms(3)
    by (fastforce simp: tx_room_def fkeeps_def)
qed


section \<open>The free map\<close>

definition bmap_block :: "superblock \<Rightarrow> nat \<Rightarrow> uint" where
  "bmap_block su k = of_nat k + sb_bmapstart su"

definition bit_used :: "superblock \<Rightarrow> blocks \<Rightarrow> nat \<Rightarrow> bool" where
  "bit_used su V b \<longleftrightarrow> V (bmap_block su (b div 8192)) ! (b mod 8192 div 8) AND bit_mask (b mod 8192) \<noteq> 0"

definition mark_bit :: "uint8 list \<Rightarrow> nat \<Rightarrow> uint8 list" where
  "mark_bit d bi = d[bi div 8 := d ! (bi div 8) OR bit_mask bi]"

definition clear_bit :: "uint8 list \<Rightarrow> nat \<Rightarrow> uint8 list" where
  "clear_bit d bi = d[bi div 8 := d ! (bi div 8) AND NOT (bit_mask bi)]"

text \<open>
  A disk on which allocation is safe: the free map lies outside the log, and no block it shows
  as free is in the log or in the map itself.
\<close>

definition disk_ok :: "int \<Rightarrow> superblock \<Rightarrow> blocks \<Rightarrow> bool" where
  "disk_ok st su V \<longleftrightarrow>
     (\<forall>k. k * 8192 < unat (sb_size su) \<longrightarrow> length (V (bmap_block su k)) = BSIZE \<and> bmap_block su k \<notin> log_area st) \<and>
     (\<forall>b < unat (sb_size su). \<not> bit_used su V b \<longrightarrow> of_nat b \<notin> log_area st \<and>
        (\<forall>k. k * 8192 < unat (sb_size su) \<longrightarrow> of_nat b \<noteq> bmap_block su k))"

lemma BBLOCK_block:
  assumes "b < 2 ^ 32"
  shows "BBLOCK (of_nat b) su = bmap_block su (b div 8192)"
proof -
  have "(of_nat b :: uint) div 8192 = of_nat (b div 8192)"
  proof (rule unsigned_word_eqI)
    have "b div 8192 < 2 ^ 32" using assms by simp
    then show "unat ((of_nat b :: uint) div 8192) = unat (of_nat (b div 8192) :: uint)" using assms by (simp add: unat_div unat_of_nat)
  qed
  then show ?thesis by (simp add: BBLOCK_def BPB_def bmap_block_def)
qed

lemma bmap_block_inj:
  assumes "bmap_block su j = bmap_block su k" "j < 2 ^ 32" "k < 2 ^ 32"
  shows "j = k"
proof -
  have "(of_nat j :: uint) = of_nat k" using assms(1) by (simp add: bmap_block_def)
  then have "unat (of_nat j :: uint) = unat (of_nat k :: uint)" by simp
  then show ?thesis using assms(2,3) by (simp add: unat_of_nat)
qed

lemma bit_mask_test: "x AND bit_mask bi = 0 \<longleftrightarrow> \<not> bit x (bi mod 8)"
proof
  assume "x AND bit_mask bi = 0"
  then have "\<not> bit (x AND bit_mask bi) (bi mod 8)" by simp
  then show "\<not> bit x (bi mod 8)" by (simp add: bit_mask_def bit_simps)
next
  assume "\<not> bit x (bi mod 8)"
  then show "x AND bit_mask bi = 0" by (intro bit_eqI) (auto simp: bit_mask_def bit_simps)
qed

lemma bit_of_mask: "bit (bit_mask bi) n \<longleftrightarrow> n = bi mod 8"
  by (auto simp: bit_mask_def bit_simps)

lemma mark_clear_bits:
  assumes "length d = BSIZE" "bi < 8192" "bj < 8192"
  shows "mark_bit d bi ! (bj div 8) AND bit_mask bj \<noteq> 0 \<longleftrightarrow> bj = bi \<or> d ! (bj div 8) AND bit_mask bj \<noteq> 0"
    "clear_bit d bi ! (bj div 8) AND bit_mask bj \<noteq> 0 \<longleftrightarrow> bj \<noteq> bi \<and> d ! (bj div 8) AND bit_mask bj \<noteq> 0"
    "length (mark_bit d bi) = BSIZE" "length (clear_bit d bi) = BSIZE"
proof -
  have len: "bi div 8 < length d" "bj div 8 < length d" using assms by (auto simp: BSIZE_def)
  have eq: "bj = bi \<longleftrightarrow> bj div 8 = bi div 8 \<and> bj mod 8 = bi mod 8" by (metis mult_div_mod_eq)
  show "mark_bit d bi ! (bj div 8) AND bit_mask bj \<noteq> 0 \<longleftrightarrow> bj = bi \<or> d ! (bj div 8) AND bit_mask bj \<noteq> 0"
    unfolding bit_mask_test eq using len by (auto simp: mark_bit_def nth_list_update bit_simps bit_of_mask)
  show "clear_bit d bi ! (bj div 8) AND bit_mask bj \<noteq> 0 \<longleftrightarrow> bj \<noteq> bi \<and> d ! (bj div 8) AND bit_mask bj \<noteq> 0"
    unfolding bit_mask_test eq using len by (auto simp: clear_bit_def nth_list_update bit_simps bit_of_mask)
qed (use assms in \<open>simp_all add: mark_bit_def clear_bit_def\<close>)


section \<open>Allocation\<close>

lemma find_upt:
  "find P [0..<n] = Some i \<Longrightarrow> i < n \<and> P i"
  "find P [0..<n] = None \<Longrightarrow> j < n \<Longrightarrow> \<not> P j"
  by (auto simp: find_Some_iff find_None_iff)

text \<open>What \<open>balloc\<close> leaves when it has taken block \<open>a\<close>.\<close>

definition alloc_view :: "superblock \<Rightarrow> blocks \<Rightarrow> nat \<Rightarrow> blocks" where
  "alloc_view su V a = (V(bmap_block su (a div 8192) := mark_bit (V (bmap_block su (a div 8192))) (a mod 8192)))(of_nat a := replicate BSIZE 0)"

lemma balloc_group:
  fixes s :: "'z kfs_scheme"
  assumes inv: "log_inv d s V bl" and su: "sb s = su" and ok: "disk_ok (log_start s) su V" and room: "tx_room s bl 2"
    and k: "k * 8192 < unat (sb_size su)"
  shows "(\<exists>s1. balloc_loop s me d (k * 8192 # bs) = balloc_loop s1 me d bs \<and> log_inv d s1 V bl \<and> fkeeps s s1 \<and>
      (\<forall>bi < 8192. k * 8192 + bi < unat (sb_size su) \<longrightarrow> bit_used su V (k * 8192 + bi))) \<or>
    (\<exists>a s1. balloc_loop s me d (k * 8192 # bs) = Inr (of_nat a, s1) \<and> a < unat (sb_size su) \<and> \<not> bit_used su V a \<and>
      log_inv d s1 (alloc_view su V a) (logged (logged bl (bmap_block su (a div 8192))) (of_nat a)) \<and> fkeeps s s1)"
proof -
  let ?n = "bmap_block su k"
  have sz: "unat (sb_size su) < 2 ^ 32" using unsigned_less [of "sb_size su", where 'a = nat] by simp
  have B: "BBLOCK (of_nat (k * 8192)) su = ?n" using BBLOCK_block [of "k * 8192" su] k sz by simp
  have bpb: "unat BPB = 8192" by (simp add: BPB_def)
  obtain b s1 where b: "bread s me d ?n = Inr (b, s1)" "log_held d s1 V bl me ?n b" "keeps s s1" "disk s1 = disk s" "buf_data b s1 = V ?n"
    using log_hold [OF inv] by metis
  note g = fkeeps_fields [OF keeps_fkeeps [OF b(3)]]
  have used: "bit_used su V (k * 8192 + bi) \<longleftrightarrow> V ?n ! (bi div 8) AND bit_mask bi \<noteq> 0" if "bi < 8192" for bi
    using that by (simp add: bit_used_def)
  let ?P = "\<lambda>bi. k * 8192 + bi < unat (sb_size (sb s1)) \<and> buf_data b s1 ! (bi div 8) AND bit_mask bi = 0"
  show ?thesis
  proof (cases "find ?P [0..<unat BPB]")
    case None
    obtain s2 where s2: "brelse s1 me b = Inr s2" "log_inv d s2 V bl" "keeps s1 s2"
      using log_release [OF b(2)] log_inv_clean [OF inv] b(4) by metis
    have "balloc_loop s me d (k * 8192 # bs) = balloc_loop s2 me d bs"
      using None su B b(1) s2(1) by (simp add: case_prod_beta)
    moreover have "\<forall>bi < 8192. k * 8192 + bi < unat (sb_size su) \<longrightarrow> bit_used su V (k * 8192 + bi)"
      using find_upt(2) [OF None] used b(5) g su bpb by auto
    ultimately show ?thesis using s2(2) fkeeps_trans [OF keeps_fkeeps [OF b(3)] keeps_fkeeps [OF s2(3)]] by blast
  next
    case (Some bi)
    then have bi: "bi < 8192" "k * 8192 + bi < unat (sb_size su)" "\<not> bit_used su V (k * 8192 + bi)"
      using find_upt(1) [OF Some] used [of bi] b(5) g su bpb by auto
    define a where "a = k * 8192 + bi"
    let ?V = "V(?n := mark_bit (V ?n) bi)"
    have n: "?n \<notin> log_area (log_start s)" using ok k by (auto simp: disk_ok_def)
    have a: "of_nat a \<notin> log_area (log_start s)" using ok bi unfolding a_def [symmetric] by (simp add: disk_ok_def)
    have r1: "tx_room s1 bl (Suc 1)" using tx_room_same [OF room keeps_fkeeps [OF b(3)]] by (simp add: numeral_2_eq_2)
    obtain s2 s3 where s3: "log_write b (set_data b (mark_bit (V ?n) bi) s1) = Inr s2" "brelse s2 me b = Inr s3"
      "log_inv d s3 ?V (logged bl ?n)" "fkeeps s1 s3"
      using log_change_tx [OF b(2) _ r1, of "mark_bit (V ?n) bi"] n g by auto
    note k3 = fkeeps_trans [OF keeps_fkeeps [OF b(3)] s3(4)]
    have r3: "tx_room s3 (logged bl ?n) (Suc 0)" using tx_room_logged [OF r1 s3(4)] by simp
    obtain s4 where s4: "bzero s3 me d (of_nat a) = Inr s4"
      "log_inv d s4 (?V(of_nat a := replicate BSIZE 0)) (logged (logged bl ?n) (of_nat a))" "fkeeps s3 s4"
      using bzero_ok [OF s3(3) _ r3, of "of_nat a" me] a fkeeps_fields(3) [OF k3] by auto
    have "balloc_loop s me d (k * 8192 # bs) = Inr (of_nat a, s4)"
      using Some su B b(1,5) s3(1,2) s4(1) by (simp add: case_prod_beta Let_def mark_bit_def a_def)
    moreover have "a div 8192 = k" "a mod 8192 = bi" using bi(1) by (simp_all add: a_def)
    ultimately show ?thesis using s4(2) bi(2,3) [folded a_def] fkeeps_trans [OF k3 s4(3)] unfolding alloc_view_def by metis
  qed
qed

lemma balloc_loop_ok:
  fixes s :: "'z kfs_scheme"
  assumes "log_inv d s V bl" "sb s = su" "disk_ok (log_start s) su V" "tx_room s bl 2"
    and "\<forall>k \<in> set ks. k * 8192 < unat (sb_size su)"
  shows "(\<exists>s1. balloc_loop s me d (map (\<lambda>k. k * 8192) ks) = Inr (0, s1) \<and> log_inv d s1 V bl \<and> fkeeps s s1 \<and>
      (\<forall>k \<in> set ks. \<forall>bi < 8192. k * 8192 + bi < unat (sb_size su) \<longrightarrow> bit_used su V (k * 8192 + bi))) \<or>
    (\<exists>a s1. balloc_loop s me d (map (\<lambda>k. k * 8192) ks) = Inr (of_nat a, s1) \<and> a < unat (sb_size su) \<and> \<not> bit_used su V a \<and>
      log_inv d s1 (alloc_view su V a) (logged (logged bl (bmap_block su (a div 8192))) (of_nat a)) \<and> fkeeps s s1)"
  using assms
proof (induction ks arbitrary: s)
  case Nil
  then show ?case by (intro disjI1) simp
next
  case (Cons k ks)
  have k: "k * 8192 < unat (sb_size su)" using Cons.prems(5) by simp
  from balloc_group [OF Cons.prems(1-4) k, of me "map (\<lambda>k. k * 8192) ks"] consider
    (skip) s1 where "balloc_loop s me d (k * 8192 # map (\<lambda>k. k * 8192) ks) = balloc_loop s1 me d (map (\<lambda>k. k * 8192) ks)"
      "log_inv d s1 V bl" "fkeeps s s1" "\<forall>bi < 8192. k * 8192 + bi < unat (sb_size su) \<longrightarrow> bit_used su V (k * 8192 + bi)"
    | (found) a s1 where "balloc_loop s me d (k * 8192 # map (\<lambda>k. k * 8192) ks) = Inr (of_nat a, s1)" "a < unat (sb_size su)" "\<not> bit_used su V a"
      "log_inv d s1 (alloc_view su V a) (logged (logged bl (bmap_block su (a div 8192))) (of_nat a))" "fkeeps s s1" by metis
  then show ?case
  proof cases
    case skip
    have p: "sb s1 = su" "disk_ok (log_start s1) su V" "tx_room s1 bl 2"
      using fkeeps_fields [OF skip(3)] Cons.prems(2,3) tx_room_same [OF Cons.prems(4) skip(3)] by simp_all
    show ?thesis using Cons.IH [OF skip(2) p] Cons.prems(5) skip fkeeps_trans [OF skip(3)] by fastforce
  next
    case found
    then show ?thesis by (intro disjI2) (auto simp del: balloc_loop.simps)
  qed
qed


definition allocated :: "superblock \<Rightarrow> blocks \<Rightarrow> nat set" where
  "allocated su V = {b. b < unat (sb_size su) \<and> bit_used su V b}"

lemma balloc_ok:
  fixes s :: "'z kfs_scheme"
  assumes inv: "log_inv d s V bl" and ok: "disk_ok (log_start s) (sb s) V" and room: "tx_room s bl 2"
  shows "(\<exists>s1. balloc s me d = Inr (0, s1) \<and> log_inv d s1 V bl \<and> fkeeps s s1 \<and> allocated (sb s) V = {..<unat (sb_size (sb s))}) \<or>
    (\<exists>a s1. balloc s me d = Inr (of_nat a, s1) \<and> a < unat (sb_size (sb s)) \<and> a \<notin> allocated (sb s) V \<and>
      log_inv d s1 (alloc_view (sb s) V a) (logged (logged bl (bmap_block (sb s) (a div 8192))) (of_nat a)) \<and> fkeeps s s1)"
proof -
  let ?z = "unat (sb_size (sb s))" let ?ks = "[0..<(?z + unat BPB - 1) div unat BPB]"
  have bpb: "unat BPB = 8192" by (simp add: BPB_def)
  have ks: "\<forall>k \<in> set ?ks. k * 8192 < ?z" using bpb by (auto simp: less_eq_div_iff_mult_less_eq Suc_le_eq [symmetric])
  have all: "b div 8192 \<in> set ?ks" if "b < ?z" for b using that bpb by simp
  have eq: "balloc s me d = balloc_loop s me d (map (\<lambda>k. k * 8192) ?ks)" unfolding balloc_def bpb by simp
  from balloc_loop_ok [OF inv refl ok room ks, of me] show ?thesis
  proof (elim disjE exE conjE)
    fix s1 assume a: "balloc_loop s me d (map (\<lambda>k. k * 8192) ?ks) = Inr (0, s1)" "log_inv d s1 V bl" "fkeeps s s1"
      "\<forall>k \<in> set ?ks. \<forall>bi < 8192. k * 8192 + bi < ?z \<longrightarrow> bit_used (sb s) V (k * 8192 + bi)"
    have "bit_used (sb s) V b" if "b < ?z" for b
      using bspec [OF a(4) all [OF that]] that spec [of _ "b mod 8192"] by (metis div_mult_mod_eq mod_less_divisor zero_less_numeral)
    then show ?thesis using a eq by (auto simp: allocated_def)
  next
    fix a s1 assume "balloc_loop s me d (map (\<lambda>k. k * 8192) ?ks) = Inr (of_nat a, s1)" "a < ?z" "\<not> bit_used (sb s) V a"
      "log_inv d s1 (alloc_view (sb s) V a) (logged (logged bl (bmap_block (sb s) (a div 8192))) (of_nat a))" "fkeeps s s1"
    then show ?thesis using eq by (intro disjI2) (auto simp: allocated_def)
  qed
qed

lemma size_less: "b < unat (sb_size su) \<Longrightarrow> b < 2 ^ 32"
  using unsigned_less [of "sb_size su", where 'a = nat] by simp

text \<open>The free map after a bit has been set or cleared.\<close>

lemma bit_used_change:
  assumes ok: "disk_ok st su V" and a: "a < unat (sb_size su)" and b: "b < unat (sb_size su)"
    and W: "\<And>k. k * 8192 < unat (sb_size su) \<Longrightarrow> W (bmap_block su k) = (if k = a div 8192 then f (V (bmap_block su k)) (a mod 8192) else V (bmap_block su k))"
  shows "f = mark_bit \<Longrightarrow> bit_used su W b \<longleftrightarrow> b = a \<or> bit_used su V b"
    "f = clear_bit \<Longrightarrow> bit_used su W b \<longleftrightarrow> b \<noteq> a \<and> bit_used su V b"
proof -
  have kb: "b div 8192 * 8192 < unat (sb_size su)" "a div 8192 * 8192 < unat (sb_size su)"
    using a b div_times_less_eq_dividend [of b 8192] div_times_less_eq_dividend [of a 8192] by linarith+
  have len: "length (V (bmap_block su (b div 8192))) = BSIZE" using ok kb(1) by (simp add: disk_ok_def)
  have eq: "b = a \<longleftrightarrow> b div 8192 = a div 8192 \<and> b mod 8192 = a mod 8192" by (metis div_mult_mod_eq)
  note mc = mark_clear_bits [OF len, of "a mod 8192" "b mod 8192"]
  show "f = mark_bit \<Longrightarrow> bit_used su W b \<longleftrightarrow> b = a \<or> bit_used su V b"
    using W [OF kb(1)] mc(1) eq by (auto simp: bit_used_def)
  show "f = clear_bit \<Longrightarrow> bit_used su W b \<longleftrightarrow> b \<noteq> a \<and> bit_used su V b"
    using W [OF kb(1)] mc(2) eq by (auto simp: bit_used_def)
qed

lemma bmap_blocks_eq:
  assumes "j * 8192 < unat (sb_size su)" "k * 8192 < unat (sb_size su)"
  shows "bmap_block su j = bmap_block su k \<longleftrightarrow> j = k"
  using bmap_block_inj [of su j k] size_less [OF assms(1)] size_less [OF assms(2)] by auto

lemma alloc_view_ok:
  assumes ok: "disk_ok st su V" and a: "a < unat (sb_size su)" "\<not> bit_used su V a"
  shows "allocated su (alloc_view su V a) = insert a (allocated su V)" "disk_ok st su (alloc_view su V a)"
    "alloc_view su V a (of_nat a) = replicate BSIZE 0"
    "m \<noteq> of_nat a \<Longrightarrow> m \<noteq> bmap_block su (a div 8192) \<Longrightarrow> alloc_view su V a m = V m"
proof -
  have kb: "a div 8192 * 8192 < unat (sb_size su)" using a(1) div_times_less_eq_dividend [of a 8192] by linarith
  have ne: "of_nat a \<noteq> bmap_block su k" if "k * 8192 < unat (sb_size su)" for k using ok a that by (simp add: disk_ok_def)
  have W: "alloc_view su V a (bmap_block su k) = (if k = a div 8192 then mark_bit (V (bmap_block su k)) (a mod 8192) else V (bmap_block su k))"
    if "k * 8192 < unat (sb_size su)" for k
    using ne [OF that] bmap_blocks_eq [OF that kb] by (auto simp: alloc_view_def)
  note u = bit_used_change(1) [OF ok a(1) _ W refl]
  show "allocated su (alloc_view su V a) = insert a (allocated su V)" using u a(1) by (auto simp: allocated_def)
  show "disk_ok st su (alloc_view su V a)" using ok u W by (auto simp: disk_ok_def mark_bit_def)
  show "alloc_view su V a (of_nat a) = replicate BSIZE 0" by (simp add: alloc_view_def)
  show "m \<noteq> of_nat a \<Longrightarrow> m \<noteq> bmap_block su (a div 8192) \<Longrightarrow> alloc_view su V a m = V m" by (simp add: alloc_view_def)
qed

lemma bfree_ok:
  fixes s :: "'z kfs_scheme"
  assumes inv: "log_inv d s V bl" and ok: "disk_ok (log_start s) (sb s) V" and room: "tx_room s bl 1" and b: "b < unat (sb_size (sb s))"
  shows "if bit_used (sb s) V b
    then \<exists>s1. bfree s me d (of_nat b) = Inr s1 \<and> fkeeps s s1 \<and>
      log_inv d s1 (V(bmap_block (sb s) (b div 8192) := clear_bit (V (bmap_block (sb s) (b div 8192))) (b mod 8192)))
        (logged bl (bmap_block (sb s) (b div 8192)))
    else bfree s me d (of_nat b) = Inl (Panic ''freeing free block'')"
proof -
  let ?n = "bmap_block (sb s) (b div 8192)"
  have kb: "b div 8192 * 8192 < unat (sb_size (sb s))" using b div_times_less_eq_dividend [of b 8192] by linarith
  have B: "BBLOCK (of_nat b) (sb s) = ?n" using BBLOCK_block size_less [OF b] by blast
  have bi: "unat (of_nat b mod BPB) = b mod 8192" using size_less [OF b] by (simp add: BPB_def unat_mod unat_of_nat)
  obtain x s1 where x: "bread s me d ?n = Inr (x, s1)" "log_held d s1 V bl me ?n x" "keeps s s1" "buf_data x s1 = V ?n"
    using log_hold [OF inv] by metis
  show ?thesis
  proof (cases "bit_used (sb s) V b")
    case True
    have n: "?n \<notin> log_area (log_start s1)" using ok kb fkeeps_fields(3) [OF keeps_fkeeps [OF x(3)]] by (simp add: disk_ok_def)
    have r: "tx_room s1 bl (Suc 0)" using tx_room_same [OF room keeps_fkeeps [OF x(3)]] by simp
    obtain s2 s3 where s3: "log_write x (set_data x (clear_bit (V ?n) (b mod 8192)) s1) = Inr s2" "brelse s2 me x = Inr s3"
      "log_inv d s3 (V(?n := clear_bit (V ?n) (b mod 8192))) (logged bl ?n)" "fkeeps s1 s3"
      using log_change_tx [OF x(2) n r, of "clear_bit (V ?n) (b mod 8192)"] by blast
    have "bfree s me d (of_nat b) = Inr s3"
      using x(1,4) s3(1,2) True bi B by (simp add: bfree_def Let_def clear_bit_def bit_used_def)
    then show ?thesis using True s3(3) fkeeps_trans [OF keeps_fkeeps [OF x(3)] s3(4)] by auto
  next
    case False
    then show ?thesis using x(1,4) bi B by (simp add: bfree_def Let_def bit_used_def)
  qed
qed


section \<open>Properties\<close>


text \<open>C10: \<open>bfree\<close> takes a block in use out of the free map, and nothing else; freeing a block that is not in use panics.\<close>

theorem bfree_frees:
  fixes s :: "'z kfs_scheme"
  assumes "log_inv d s V bl" "disk_ok (log_start s) (sb s) V" "tx_room s bl 1" "b < unat (sb_size (sb s))"
  shows "if b \<in> allocated (sb s) V
    then \<exists>s' V' bl'. bfree s me d (of_nat b) = Inr s' \<and> log_inv d s' V' bl' \<and> allocated (sb s) V' = allocated (sb s) V - {b} \<and>
      (\<forall>m. m \<noteq> BBLOCK (of_nat b) (sb s) \<longrightarrow> V' m = V m)
    else bfree s me d (of_nat b) = Inl (Panic ''freeing free block'')"
proof (cases "b \<in> allocated (sb s) V")
  case True
  let ?n = "bmap_block (sb s) (b div 8192)"
  define W where "W = V(?n := clear_bit (V ?n) (b mod 8192))"
  have u: "bit_used (sb s) V b" using True by (simp add: allocated_def)
  obtain s1 where s1: "bfree s me d (of_nat b) = Inr s1" "log_inv d s1 W (logged bl ?n)"
    using bfree_ok [OF assms, of me] u by (auto simp: W_def)
  have kb: "b div 8192 * 8192 < unat (sb_size (sb s))" using assms(4) div_times_less_eq_dividend [of b 8192] by linarith
  have W: "W (bmap_block (sb s) k) = (if k = b div 8192 then clear_bit (V (bmap_block (sb s) k)) (b mod 8192) else V (bmap_block (sb s) k))"
    if "k * 8192 < unat (sb_size (sb s))" for k using bmap_blocks_eq [OF that kb] by (auto simp: W_def)
  have "allocated (sb s) W = allocated (sb s) V - {b}"
    using bit_used_change(2) [OF assms(2,4) _ W refl] by (auto simp: allocated_def)
  moreover have "BBLOCK (of_nat b) (sb s) = ?n" using BBLOCK_block size_less [OF assms(4)] by blast
  ultimately show ?thesis using True s1 by (auto simp: W_def)
next
  case False
  then show ?thesis using bfree_ok [OF assms, of me] assms(4) by (simp add: allocated_def)
qed

text \<open>A small disk: 64 blocks, the first 48 in use.\<close>

definition fresh_fs :: kfs where
  "fresh_fs = klog.extend (fresh_log\<lparr>disk := (\<lambda>_. replicate BSIZE 0)(45 := replicate 6 255 @ replicate 1018 0)\<rparr>)
     \<lparr>sb = \<lparr>sb_magic = FSMAGIC, sb_size = 64, sb_nblocks = 18, sb_ninodes = 200, sb_nlog = 30,
        sb_logstart = 2, sb_inodestart = 32, sb_bmapstart = 45\<rparr>,
      inodes = \<lambda>_. \<lparr>i_dev = 0, i_inum = 0, i_ref = 0, i_lock = initsleeplock [], i_valid = False, i_type = 0, i_major = 0,
        i_minor = 0, i_nlink = 0, i_size = 0, i_addrs = replicate 13 0\<rparr>\<rparr>"

definition fresh_view :: blocks where
  "fresh_view = (\<lambda>_. replicate BSIZE 0)(45 := replicate 6 255 @ replicate 1018 0)"

lemma fresh_fs_inv:
  "log_inv 1 (binit fresh_fs) fresh_view []" "tx_room (binit fresh_fs) [] 20" "log_start (binit fresh_fs) = 2" "sb (binit fresh_fs) = sb fresh_fs"
proof -
  have "b_dev (bufs fresh_fs b) \<noteq> 1 \<and> b_refcnt (bufs fresh_fs b) = 0" for b
    by (simp add: fresh_fs_def fresh_log_def zero_buf_def klog.defs)
  note b = binit_ok [of fresh_fs 1, OF this]
  have c: "cache 1 (binit fresh_fs) fresh_view (\<lambda>_. 0) {}" using b(1) by (simp add: fresh_fs_def fresh_log_def klog.defs fresh_view_def)
  have f: "log_dev (binit fresh_fs) = 1" "lh (binit fresh_fs) = \<lparr>lh_n = 0, lh_block = replicate 30 0\<rparr>"
    "outstanding (binit fresh_fs) = 1" "log_start (binit fresh_fs) = 2" "log_size (binit fresh_fs) = 30" "sb (binit fresh_fs) = sb fresh_fs"
    by (subst b(2), simp add: fresh_fs_def fresh_log_def klog.defs)+
  show "log_inv 1 (binit fresh_fs) fresh_view []"
    using c f by (simp add: log_inv_def NBUF_def get32_replicate BSIZE_def fresh_view_def)
  show "tx_room (binit fresh_fs) [] 20" using f by (simp add: tx_room_def NBUF_def)
  show "log_start (binit fresh_fs) = 2" "sb (binit fresh_fs) = sb fresh_fs" by (fact f)+
qed

lemma log_area_2: "m \<in> log_area 2 \<Longrightarrow> unat m < 32"
  by (auto simp: log_area_def logblk_def unat_word_ariths unat_of_nat)

lemma fresh_used:
  assumes "b < 64"
  shows "bit_used (sb fresh_fs) fresh_view b \<longleftrightarrow> b < 48"
proof -
  have e: "(255 :: uint8) = - 1" by simp
  have "bit (255 :: uint8) (b mod 8)" unfolding e by (simp add: bit_simps)
  then show ?thesis using assms
    by (auto simp: bit_used_def bmap_block_def fresh_fs_def fresh_view_def klog.defs nth_append bit_mask_test)
qed

lemma fresh_disk_ok: "disk_ok 2 (sb fresh_fs) fresh_view" "0 \<in> allocated (sb fresh_fs) fresh_view" "50 \<notin> allocated (sb fresh_fs) fresh_view"
proof -
  have z: "sb_size (sb fresh_fs) = 64" "\<And>k. bmap_block (sb fresh_fs) k = of_nat k + 45"
    by (simp_all add: fresh_fs_def klog.defs bmap_block_def)
  have "of_nat b \<notin> log_area 2" "of_nat b \<noteq> (45 :: uint)" if b: "b < 64" "\<not> b < 48" for b
  proof -
    have u: "unat (of_nat b :: uint) = b" using b(1) by (simp add: unat_of_nat)
    then show "of_nat b \<notin> log_area 2" using log_area_2 [of "of_nat b"] b by auto
    show "of_nat b \<noteq> (45 :: uint)" using u b by force
  qed
  moreover have "(45 :: uint) \<notin> log_area 2" using log_area_2 [of 45] by auto
  ultimately show "disk_ok 2 (sb fresh_fs) fresh_view"
    using fresh_used by (auto simp: disk_ok_def z fresh_view_def BSIZE_def)
  show "0 \<in> allocated (sb fresh_fs) fresh_view" "50 \<notin> allocated (sb fresh_fs) fresh_view"
    using fresh_used [of 0] fresh_used [of 50] by (simp_all add: allocated_def z)
qed


theorem bfree_frees_witness:
  "(\<exists>s'. bfree (binit fresh_fs) 0 1 7 = Inr s') \<and> bfree (binit fresh_fs) 0 1 50 = Inl (Panic ''freeing free block'')"
proof -
  have r: "tx_room (binit fresh_fs) [] 1" using fresh_fs_inv(2) by (rule tx_room_mono) simp
  have z: "unat (sb_size (sb fresh_fs)) = 64" by (simp add: fresh_fs_def klog.defs)
  have "7 \<in> allocated (sb fresh_fs) fresh_view" using fresh_used [of 7] z by (simp add: allocated_def)
  then have a: "7 \<in> allocated (sb (binit fresh_fs)) fresh_view" "50 \<notin> allocated (sb (binit fresh_fs)) fresh_view"
    unfolding fresh_fs_inv(4) using fresh_disk_ok(3) by simp_all
  have ok: "disk_ok (log_start (binit fresh_fs)) (sb (binit fresh_fs)) fresh_view"
    "7 < unat (sb_size (sb (binit fresh_fs)))" "50 < unat (sb_size (sb (binit fresh_fs)))"
    unfolding fresh_fs_inv(3,4) using fresh_disk_ok(1) z by simp_all
  have "\<exists>s'. bfree (binit fresh_fs) 0 1 (of_nat 7) = Inr s'"
    using bfree_frees [OF fresh_fs_inv(1) ok(1) r ok(2), of 0] a(1) by (simp only: if_True) blast
  moreover have "bfree (binit fresh_fs) 0 1 (of_nat 50) = Inl (Panic ''freeing free block'')"
    using bfree_frees [OF fresh_fs_inv(1) ok(1) r ok(3), of 0] a(2) by (simp only: if_False)
  ultimately show ?thesis by simp
qed

end
