(* ===== verification/Fsfile.thy ===== *)
theory Fsfile
  imports Fsblocks
begin

text \<open>
  Correctness of inodes and file contents, \<open>kernel/fs.c\<close>. An inode's on-disk form is read back as
  it was written. The contents of a file are the bytes of its blocks in order (\<open>fbyte\<close>);
  \<open>readi\<close> returns them, and \<open>writei\<close> into blocks that exist replaces them.
\<close>

section \<open>On-disk inodes\<close>

lemma get_put_other:
  "off + 2 \<le> length bs \<Longrightarrow> off' + 2 \<le> length bs \<Longrightarrow> off' + 2 \<le> off \<or> off + 2 \<le> off' \<Longrightarrow> get16 (put16 bs off v) off' = get16 bs off'"
  "off + 4 \<le> length bs \<Longrightarrow> off' + 2 \<le> length bs \<Longrightarrow> off' + 2 \<le> off \<or> off + 4 \<le> off' \<Longrightarrow> get16 (put32 bs off w) off' = get16 bs off'"
  "off + 2 \<le> length bs \<Longrightarrow> off' + 4 \<le> length bs \<Longrightarrow> off' + 4 \<le> off \<or> off + 2 \<le> off' \<Longrightarrow> get32 (put16 bs off v) off' = get32 bs off'"
  by (simp_all add: get16_def get32_def put16_def put32_def slice_overwrite_other)

lemma store_addrs:
  fixes a :: "uint list"
  assumes "off + 64 \<le> length d" "k \<le> 13"
  defines "d' \<equiv> fold (\<lambda>k d. put32 d (off + 12 + 4 * k) (a ! k)) [0..<k] d"
  shows "length d' = length d \<and> (\<forall>j < k. get32 d' (off + 12 + 4 * j) = a ! j) \<and>
    (\<forall>p. p + 2 \<le> length d \<longrightarrow> p + 2 \<le> off + 12 \<or> off + 64 \<le> p \<longrightarrow> get16 d' p = get16 d p) \<and>
    (\<forall>p. p + 4 \<le> length d \<longrightarrow> p + 4 \<le> off + 12 \<or> off + 64 \<le> p \<longrightarrow> get32 d' p = get32 d p)"
  unfolding d'_def using assms(2)
proof (induction k)
  case (Suc k)
  then show ?case using assms(1) by (auto simp: get_put_other get32_put32_other less_Suc_eq)
qed simp

text \<open>An inode written to its place in a block is read back from there, and its neighbours are untouched.\<close>

lemma load_store_dinode:
  assumes "off + 64 \<le> length d" "length (i_addrs x) = 13"
  shows "load_dinode (store_dinode d off x) off y =
    y\<lparr>i_type := i_type x, i_major := i_major x, i_minor := i_minor x, i_nlink := i_nlink x, i_size := i_size x, i_addrs := i_addrs x\<rparr>"
    "length (store_dinode d off x) = length d"
    "off' + 64 \<le> length d \<Longrightarrow> off' + 64 \<le> off \<or> off + 64 \<le> off' \<Longrightarrow> load_dinode (store_dinode d off x) off' y = load_dinode d off' y"
proof -
  define d0 where "d0 = put32 (put16 (put16 (put16 (put16 d off (i_type x)) (off + 2) (i_major x)) (off + 4) (i_minor x)) (off + 6) (i_nlink x)) (off + 8) (i_size x)"
  have l0: "length d0 = length d" using assms(1) by (simp add: d0_def)
  have g0: "get16 d0 off = i_type x" "get16 d0 (off + 2) = i_major x" "get16 d0 (off + 4) = i_minor x" "get16 d0 (off + 6) = i_nlink x"
    "get32 d0 (off + 8) = i_size x"
    unfolding d0_def using assms(1) by (simp_all add: get_put_other get32_put32_other)
  have o0: "p + 64 \<le> length d \<Longrightarrow> p + 64 \<le> off \<or> off + 64 \<le> p \<Longrightarrow> q \<le> 62 \<Longrightarrow> get16 d0 (p + q) = get16 d (p + q)"
    "p + 64 \<le> length d \<Longrightarrow> p + 64 \<le> off \<or> off + 64 \<le> p \<Longrightarrow> q \<le> 60 \<Longrightarrow> get32 d0 (p + q) = get32 d (p + q)" for p q
    unfolding d0_def using assms(1) by (auto simp: get_put_other get32_put32_other)
  have st: "store_dinode d off x = fold (\<lambda>k d. put32 d (off + 12 + 4 * k) (i_addrs x ! k)) [0..<13] d0"
    by (simp add: store_dinode_def Let_def d0_def NDIRECT_def del: upt_Suc)
  have 13: "(13 :: nat) \<le> 13" by simp
  note a = store_addrs [OF _ 13, of off d0 "i_addrs x", folded st]
  have addrs: "map (\<lambda>k. get32 (store_dinode d off x) (off + 12 + 4 * k)) [0..<13] = i_addrs x"
    using a l0 assms by (intro nth_equalityI) auto
  show "length (store_dinode d off x) = length d" using a l0 assms(1) by simp
  show "load_dinode (store_dinode d off x) off y =
    y\<lparr>i_type := i_type x, i_major := i_major x, i_minor := i_minor x, i_nlink := i_nlink x, i_size := i_size x, i_addrs := i_addrs x\<rparr>"
    using a l0 g0 assms(1) addrs by (simp add: load_dinode_def NDIRECT_def del: upt_Suc)
  assume o: "off' + 64 \<le> length d" "off' + 64 \<le> off \<or> off + 64 \<le> off'"
  have "map (\<lambda>k. get32 (store_dinode d off x) (off' + 12 + 4 * k)) [0..<13] = map (\<lambda>k. get32 d (off' + 12 + 4 * k)) [0..<13]"
    using a l0 assms(1) o o0(2) [OF o, of "12 + 4 * k" for k] by (intro map_cong refl) (auto simp: add.assoc)
  then show "load_dinode (store_dinode d off x) off' y = load_dinode d off' y"
    using a l0 assms(1) o o0(1) [OF o, of 0] o0(1) [OF o, of 2] o0(1) [OF o, of 4] o0(1) [OF o, of 6] o0(2) [OF o, of 8]
    by (auto simp: load_dinode_def NDIRECT_def simp del: upt_Suc)
qed


lemma log_inode_upd [simp]:
  fixes s :: "'z kfs_scheme"
  shows "log_inv d (inode_upd i f s) V bl = log_inv d s V bl" "log_held d (inode_upd i f s) V bl me n b = log_held d s V bl me n b"
    "bufs (inode_upd i f s) = bufs s" "disk (inode_upd i f s) = disk s" "disk_log (inode_upd i f s) = disk_log s" "sb (inode_upd i f s) = sb s"
    "procs (inode_upd i f s) = procs s" "inodes (inode_upd i f s) = (inodes s)(i := f (inodes s i))"
  by (simp_all add: inode_upd_def log_inv_def log_held_def cache_def ring_def owns_def holdingsleep_def)

lemma dinode_off_less: "dinode_off i + 64 \<le> BSIZE"
proof -
  have "unat (i mod IPB) < 16" by (simp add: IPB_def unat_mod)
  then show ?thesis by (simp add: dinode_off_def DINODE_SIZE_def BSIZE_def)
qed

lemma iupdate_ok:
  fixes s :: "'z kfs_scheme"
  assumes inv: "log_inv d s V bl" and x: "x = inodes s ip" "i_dev x = d" and n: "n = IBLOCK (i_inum x) (sb s)" "n \<notin> log_area (log_start s)"
    and room: "tx_room s bl 1"
  shows "\<exists>s'. iupdate s me ip = Inr s' \<and> log_inv d s' (V(n := store_dinode (V n) (dinode_off (i_inum x)) x)) (logged bl n) \<and> fkeeps s s'"
proof -
  obtain b s1 where b: "bread s me d n = Inr (b, s1)" "log_held d s1 V bl me n b" "keeps s s1" "buf_data b s1 = V n"
    using log_hold [OF inv] by metis
  note g = fkeeps_fields [OF keeps_fkeeps [OF b(3)]]
  have r: "tx_room s1 bl (Suc 0)" using tx_room_same [OF room keeps_fkeeps [OF b(3)]] by simp
  obtain s2 s3 where s3: "log_write b (set_data b (store_dinode (V n) (dinode_off (i_inum x)) x) s1) = Inr s2" "brelse s2 me b = Inr s3"
    "log_inv d s3 (V(n := store_dinode (V n) (dinode_off (i_inum x)) x)) (logged bl n)" "fkeeps s1 s3"
    using log_change_tx [OF b(2) _ r] n(2) g(3) by metis
  have "iupdate s me ip = Inr s3" using b(1,4) s3(1,2) x n(1) g(2) by (simp add: iupdate_def Let_def)
  then show ?thesis using s3(3) fkeeps_trans [OF keeps_fkeeps [OF b(3)] s3(4)] by blast
qed

lemma ilock_loads:
  fixes s :: "'z kfs_scheme"
  assumes inv: "log_inv d s V bl" and y: "i_dev (inodes s j) = d" "\<not> i_valid (inodes s j)" "1 \<le> i_ref (inodes s j)" "\<not> sl_locked (i_lock (inodes s j))"
    and z: "z = load_dinode (V (IBLOCK (i_inum (inodes s j)) (sb s))) (dinode_off (i_inum (inodes s j))) (inodes s j)" "i_type z \<noteq> 0"
  shows "\<exists>s'. ilock s me (Some j) = Inr s' \<and> log_inv d s' V bl \<and>
    inodes s' = (inodes s)(j := z\<lparr>i_lock := (i_lock (inodes s j))\<lparr>sl_locked := True, sl_pid := p_pid (procs s me)\<rparr>, i_valid := True\<rparr>)"
proof -
  let ?x = "inodes s j" let ?n = "IBLOCK (i_inum ?x) (sb s)" let ?o = "dinode_off (i_inum ?x)"
  let ?lk = "(i_lock ?x)\<lparr>sl_locked := True, sl_pid := p_pid (procs s me)\<rparr>"
  define t where "t = inode_upd j (\<lambda>x. x\<lparr>i_lock := ?lk\<rparr>) s"
  have it: "log_inv d t V bl" "inodes t = (inodes s)(j := ?x\<lparr>i_lock := ?lk\<rparr>)" "sb t = sb s" using inv by (simp_all add: t_def)
  obtain b s1 where b: "bread t me d ?n = Inr (b, s1)" "log_held d s1 V bl me ?n b" "keeps t s1" "disk s1 = disk t" "buf_data b s1 = V ?n"
    using log_hold [OF it(1)] by metis
  note g = fkeeps_fields [OF keeps_fkeeps [OF b(3)]]
  define u where "u = inode_upd j (load_dinode (V ?n) ?o) s1"
  have hu: "log_held d u V bl me ?n b" "disk u = disk t" using b(2,4) by (simp_all add: u_def)
  obtain s2 where s2: "brelse u me b = Inr s2" "log_inv d s2 V bl" "keeps u s2"
    using log_release [OF hu(1)] log_inv_clean [OF it(1)] hu(2) by metis
  define s' where "s' = inode_upd j (\<lambda>x. x\<lparr>i_valid := True\<rparr>) s2"
  have i2: "inodes s2 = (inodes s)(j := load_dinode (V ?n) ?o (?x\<lparr>i_lock := ?lk\<rparr>))"
    using fkeeps_fields(2) [OF keeps_fkeeps [OF s2(3)]] g(2) it(2) by (simp add: u_def)
  have zl: "load_dinode (V ?n) ?o (?x\<lparr>i_lock := ?lk\<rparr>) = z\<lparr>i_lock := ?lk\<rparr>" by (simp add: z(1) load_dinode_def)
  have "i_type (inodes s2 j) \<noteq> 0" using z(2) i2 zl by simp
  then have "ilock s me (Some j) = Inr s'"
    using y b(1,5) s2(1) it g(2) by (simp add: ilock_def acquiresleep_alt Let_def t_def [symmetric] u_def [symmetric] s'_def [symmetric])
  then show ?thesis using s2(2) i2 zl by (simp add: s'_def)
qed


section \<open>File contents\<close>

text \<open>The disk block that holds block \<open>k\<close> of a file, 0 if there is none, and byte \<open>j\<close> of the file.\<close>

definition fblock :: "blocks \<Rightarrow> inode \<Rightarrow> nat \<Rightarrow> uint" where
  "fblock V x k =
     (if k < NDIRECT then i_addrs x ! k
      else if i_addrs x ! NDIRECT = 0 then 0
      else get32 (V (i_addrs x ! NDIRECT)) (4 * (k - NDIRECT)))"

definition fbyte :: "blocks \<Rightarrow> inode \<Rightarrow> nat \<Rightarrow> uint8" where
  "fbyte V x j = V (fblock V x (j div BSIZE)) ! (j mod BSIZE)"

text \<open>A file whose blocks are distinct, of full size, outside the log, and different from its indirect block.\<close>

definition file_ok :: "int \<Rightarrow> blocks \<Rightarrow> inode \<Rightarrow> bool" where
  "file_ok st V x \<longleftrightarrow> length (i_addrs x) = 13 \<and> (\<forall>a. length (V a) = BSIZE) \<and>
     (\<forall>i j. fblock V x i = fblock V x j \<longrightarrow> fblock V x i \<noteq> 0 \<longrightarrow> i < MAXFILE \<longrightarrow> j < MAXFILE \<longrightarrow> i = j) \<and>
     (\<forall>i < MAXFILE. fblock V x i \<noteq> 0 \<longrightarrow> fblock V x i \<notin> log_area st \<and> (i_addrs x ! NDIRECT \<noteq> 0 \<longrightarrow> fblock V x i \<noteq> i_addrs x ! NDIRECT))"

lemma read_block:
  fixes s :: "'z kfs_scheme"
  assumes inv: "log_inv d s V bl"
  obtains b s1 s2 where "bread s me d n = Inr (b, s1)" "buf_data b s1 = V n" "fkeeps s s1" "brelse s1 me b = Inr s2" "log_inv d s2 V bl" "fkeeps s s2"
proof -
  obtain b s1 where b: "bread s me d n = Inr (b, s1)" "log_held d s1 V bl me n b" "keeps s s1" "disk s1 = disk s" "buf_data b s1 = V n"
    using log_hold [OF inv] by metis
  obtain s2 where s2: "brelse s1 me b = Inr s2" "log_inv d s2 V bl" "keeps s1 s2"
    using log_release [OF b(2)] log_inv_clean [OF inv] b(4) by metis
  show thesis by (rule that [OF b(1,5) keeps_fkeeps [OF b(3)] s2(1,2) fkeeps_trans [OF keeps_fkeeps [OF b(3)] keeps_fkeeps [OF s2(3)]]])
qed

text \<open>\<open>bmap\<close> on a block that exists.\<close>

lemma bmap_mapped:
  fixes s :: "'z kfs_scheme"
  assumes inv: "log_inv d s V bl" and x: "inodes s ip = x" "i_dev x = d" and k: "unat bn < MAXFILE" "fblock V x (unat bn) \<noteq> 0"
  shows "\<exists>s'. bmap s me ip bn = Inr (fblock V x (unat bn), s') \<and> log_inv d s' V bl \<and> fkeeps s s'"
proof (cases "unat bn < NDIRECT")
  case True
  then show ?thesis using assms by (simp add: bmap_def fblock_def Let_def)
next
  case False
  let ?i = "i_addrs x ! NDIRECT"
  have ge: "12 \<le> unat bn" using False by (simp add: NDIRECT_def)
  then have "of_nat NDIRECT \<le> bn" by (simp add: NDIRECT_def word_le_nat_alt)
  then have sub: "unat (bn - of_nat NDIRECT) = unat bn - NDIRECT" by (simp add: unat_sub NDIRECT_def)
  have i: "?i \<noteq> 0" using k(2) False by (auto simp: fblock_def split: if_splits)
  have fb: "fblock V x (unat bn) = get32 (V ?i) (4 * (unat bn - NDIRECT))" using False i by (simp add: fblock_def)
  obtain b s1 s2 where r: "bread s me d ?i = Inr (b, s1)" "buf_data b s1 = V ?i" "fkeeps s s1" "brelse s1 me b = Inr s2"
    "log_inv d s2 V bl" "fkeeps s s2" using read_block [OF inv] by metis
  have "bmap s me ip bn = Inr (fblock V x (unat bn), s2)"
    using False k x i sub r fb by (simp add: bmap_def Let_def MAXFILE_def)
  then show ?thesis using r(5,6) by blast
qed

text \<open>The words of one round of the copy loops, as numbers.\<close>

lemma chunk_word:
  fixes off n tot :: uint
  assumes "tot < n"
  defines "m \<equiv> min (n - tot) (of_nat BSIZE - off mod of_nat BSIZE) :: uint"
  shows "unat m = min (unat n - unat tot) (BSIZE - unat off mod BSIZE)" "unat (off mod of_nat BSIZE) = unat off mod BSIZE"
    "unat (off div of_nat BSIZE) = unat off div BSIZE" "0 < unat m"
proof -
  have o: "unat (off mod 1024) = unat off mod 1024" "unat (off div 1024) = unat off div 1024" by (simp_all add: unat_mod unat_div)
  have "off mod 1024 \<le> (1024 :: uint)" by (simp add: word_le_nat_alt o)
  then have d: "unat (1024 - off mod 1024) = 1024 - unat off mod 1024" by (simp add: unat_sub o)
  have nt: "unat (n - tot) = unat n - unat tot" using assms(1) by (simp add: unat_sub order_less_imp_le)
  have "unat m = min (unat (n - tot)) (unat (1024 - off mod 1024))"
    by (simp add: m_def BSIZE_def min_def word_le_nat_alt)
  then show m: "unat m = min (unat n - unat tot) (BSIZE - unat off mod BSIZE)" using d nt by (simp add: BSIZE_def)
  show "unat (off mod of_nat BSIZE) = unat off mod BSIZE" "unat (off div of_nat BSIZE) = unat off div BSIZE" using o by (simp_all add: BSIZE_def)
  have "unat tot < unat n" using assms(1) by (simp add: word_less_nat_alt)
  then show "0 < unat m" unfolding m by (simp add: BSIZE_def)
qed

text \<open>A chunk within one block is a run of bytes of the file.\<close>

lemma in_block:
  fixes r q B :: nat
  assumes "r < B"
  shows "(q * B + r) div B = q" "(q * B + r) mod B = r"
  using assms by simp_all

lemma chunk_bytes:
  assumes "pos mod BSIZE + m \<le> BSIZE" "length (V (fblock V x (pos div BSIZE))) = BSIZE"
  shows "slice (V (fblock V x (pos div BSIZE))) (pos mod BSIZE) m = map (fbyte V x) [pos..<pos + m]"
proof (rule nth_equalityI)
  show "length (slice (V (fblock V x (pos div BSIZE))) (pos mod BSIZE) m) = length (map (fbyte V x) [pos..<pos + m])" using assms by simp
  fix i assume "i < length (slice (V (fblock V x (pos div BSIZE))) (pos mod BSIZE) m)"
  then have i: "i < m" using assms by simp
  have l: "pos mod BSIZE + i < BSIZE" using i assms(1) by simp
  have "(pos + i) div BSIZE = pos div BSIZE" "(pos + i) mod BSIZE = pos mod BSIZE + i"
    using in_block [OF l, of "pos div BSIZE"] by (simp_all add: add.assoc [symmetric] mod_add_left_eq)
  then show "slice (V (fblock V x (pos div BSIZE))) (pos mod BSIZE) m ! i = map (fbyte V x) [pos..<pos + m] ! i"
    using i assms by (simp add: slice_def fbyte_def)
qed


text \<open>The state of a copy loop: where it is and how much is left, without overflow, on blocks that exist.\<close>

definition span_ok :: "blocks \<Rightarrow> inode \<Rightarrow> uint \<Rightarrow> uint \<Rightarrow> uint \<Rightarrow> bool" where
  "span_ok V x off n tot \<longleftrightarrow> tot \<le> n \<and> unat off + (unat n - unat tot) \<le> MAXFILE * BSIZE \<and>
     (\<forall>j. unat off \<le> j \<longrightarrow> j < unat off + (unat n - unat tot) \<longrightarrow> fblock V x (j div BSIZE) \<noteq> 0)"

lemma span_step:
  assumes sp: "span_ok V x off n tot" and lt: "tot < n"
  defines "m \<equiv> min (n - tot) (of_nat BSIZE - off mod of_nat BSIZE)"
  shows "unat (off + m) = unat off + unat m" "unat (tot + m) = unat tot + unat m" "span_ok V x (off + m) n (tot + m)"
    "unat n - unat (tot + m) < unat n - unat tot" "unat off mod BSIZE + unat m \<le> BSIZE" "unat off div BSIZE < MAXFILE"
    "fblock V x (unat off div BSIZE) \<noteq> 0" "unat n - unat tot = unat m + (unat n - unat (tot + m))"
proof -
  note c = chunk_word [OF lt, of off, folded m_def]
  have mx: "MAXFILE * BSIZE = 274432" by (simp add: MAXFILE_def NDIRECT_def NINDIRECT_def BSIZE_def)
  have tn: "unat tot < unat n" using lt by (simp add: word_less_nat_alt)
  have end_: "unat off + (unat n - unat tot) \<le> 274432" using sp mx by (simp add: span_ok_def)
  have ml: "unat m \<le> unat n - unat tot" "unat off mod BSIZE + unat m \<le> BSIZE" using c(1) by (auto simp: BSIZE_def min_def)
  show o: "unat (off + m) = unat off + unat m" using end_ ml(1) by (intro unat_add_lem [THEN iffD1]) simp
  show t: "unat (tot + m) = unat tot + unat m"
    using ml(1) tn unsigned_less [of n, where 'a = nat] by (intro unat_add_lem [THEN iffD1]) simp
  show "unat off mod BSIZE + unat m \<le> BSIZE" by (fact ml(2))
  show "unat n - unat (tot + m) < unat n - unat tot" "unat n - unat tot = unat m + (unat n - unat (tot + m))"
    using t c(4) ml(1) tn by simp_all
  show "fblock V x (unat off div BSIZE) \<noteq> 0" using sp tn by (auto simp: span_ok_def)
  have "unat off < MAXFILE * BSIZE" using sp tn by (auto simp: span_ok_def)
  then show "unat off div BSIZE < MAXFILE" by (simp add: less_mult_imp_div_less)
  have le: "tot + m \<le> n" using t ml(1) tn by (simp add: word_le_nat_alt)
  have "unat off + unat m + (unat n - (unat tot + unat m)) = unat off + (unat n - unat tot)" using ml(1) tn by simp
  then show "span_ok V x (off + m) n (tot + m)" using sp le unfolding span_ok_def o t by auto
qed

lemma readi_loop_ok:
  fixes s :: "'z kfs_scheme"
  assumes "log_inv d s V bl" "inodes s ip = x" "i_dev x = d" "file_ok st V x" "span_ok V x off n tot" "unat n - unat tot < fuel"
  shows "\<exists>s'. readi_loop fuel s me ip LocalDst off n tot acc =
      Inr (sint n, acc @ map (fbyte V x) [unat off..<unat off + (unat n - unat tot)], s') \<and> log_inv d s' V bl \<and> fkeeps s s'"
  using assms
proof (induction fuel arbitrary: s off tot acc)
  case (Suc fuel)
  show ?case
  proof (cases "tot < n")
    case False
    then have "tot = n" using Suc.prems(5) by (simp add: span_ok_def)
    then show ?thesis using Suc.prems(1) by auto
  next
    case True
    define m where "m = min (n - tot) (of_nat BSIZE - off mod of_nat BSIZE)"
    note sp = span_step [OF Suc.prems(5) True, folded m_def] and cw = chunk_word [OF True, of off, folded m_def]
    let ?a = "fblock V x (unat off div BSIZE)"
    obtain s1 where s1: "bmap s me ip (off div of_nat BSIZE) = Inr (?a, s1)" "log_inv d s1 V bl" "fkeeps s s1"
      using bmap_mapped [OF Suc.prems(1-3), of "off div of_nat BSIZE" me] sp(6,7) cw(3) by auto
    note g1 = fkeeps_fields(2) [OF s1(3)]
    obtain b s2 s3 where r: "bread s1 me d ?a = Inr (b, s2)" "buf_data b s2 = V ?a" "fkeeps s1 s2" "brelse s2 me b = Inr s3"
      "log_inv d s3 V bl" "fkeeps s1 s3" using read_block [OF s1(2)] by metis
    have k3: "fkeeps s s3" by (rule fkeeps_trans [OF s1(3) r(6)])
    have bytes: "slice (V ?a) (unat off mod BSIZE) (unat m) = map (fbyte V x) [unat off..<unat off + unat m]"
      using chunk_bytes [OF sp(5)] Suc.prems(4) by (simp add: file_ok_def)
    have x3: "inodes s3 ip = x" using fkeeps_fields(2) [OF k3] Suc.prems(2) by simp
    have fu: "unat n - unat (tot + m) < fuel" using sp(4) Suc.prems(6) by simp
    obtain s' where s': "readi_loop fuel s3 me ip LocalDst (off + m) n (tot + m) (acc @ map (fbyte V x) [unat off..<unat off + unat m]) =
        Inr (sint n, (acc @ map (fbyte V x) [unat off..<unat off + unat m]) @ map (fbyte V x) [unat (off + m)..<unat (off + m) + (unat n - unat (tot + m))], s')"
      "log_inv d s' V bl" "fkeeps s3 s'"
      using Suc.IH [OF r(5) x3 Suc.prems(3,4) sp(3) fu] by metis
    have step: "readi_loop (Suc fuel) s me ip LocalDst off n tot acc =
        readi_loop fuel s3 me ip LocalDst (off + m) n (tot + m) (acc @ map (fbyte V x) [unat off..<unat off + unat m])"
      using True s1(1) r(1,2,4) sp(7) Suc.prems(2,3) g1 bytes cw(2)
      by (simp add: Let_def m_def [symmetric] dst_copy_def)
    have cat: "map (fbyte V x) [unat off..<unat off + unat m] @ map (fbyte V x) [unat (off + m)..<unat (off + m) + (unat n - unat (tot + m))]
        = map (fbyte V x) [unat off..<unat off + (unat n - unat tot)]"
      unfolding sp(1) map_append [symmetric] upt_add_eq_append [symmetric, OF le_add1] using sp(8) by (simp add: add.assoc)
    show ?thesis unfolding step using s' cat fkeeps_trans [OF k3 s'(3)] by simp
  qed
qed simp


section \<open>Writing\<close>

text \<open>One block of a file changed in place.\<close>

lemma nth_overwrite:
  assumes "p + length c \<le> length xs" "i < length xs"
  shows "overwrite xs p c ! i = (if p \<le> i \<and> i < p + length c then c ! (i - p) else xs ! i)"
  using assms by (auto simp: overwrite_def nth_append)

lemma file_write:
  assumes ok: "file_ok st V x" and k: "k < MAXFILE" "fblock V x k \<noteq> 0" and c: "p + length c \<le> BSIZE"
  defines "V' \<equiv> V(fblock V x k := overwrite (V (fblock V x k)) p c)"
  shows "fblock V' x = fblock V x" "file_ok st V' x"
    "j < MAXFILE * BSIZE \<Longrightarrow> fbyte V' x j = (if k * BSIZE + p \<le> j \<and> j < k * BSIZE + p + length c then c ! (j - (k * BSIZE + p)) else fbyte V x j)"
proof -
  let ?a = "fblock V x k"
  have ind: "i_addrs x ! NDIRECT \<noteq> 0 \<Longrightarrow> ?a \<noteq> i_addrs x ! NDIRECT" using ok k by (simp add: file_ok_def)
  have len: "length (V b) = BSIZE" for b using ok by (simp add: file_ok_def)
  show fb: "fblock V' x = fblock V x"
  proof
    fix i
    show "fblock V' x i = fblock V x i" using ind by (auto simp: fblock_def V'_def)
  qed
  show "file_ok st V' x" using ok c len unfolding file_ok_def fb by (auto simp: V'_def)
  assume j: "j < MAXFILE * BSIZE"
  have jm: "j mod BSIZE < BSIZE" by (simp add: BSIZE_def)
  show "fbyte V' x j = (if k * BSIZE + p \<le> j \<and> j < k * BSIZE + p + length c then c ! (j - (k * BSIZE + p)) else fbyte V x j)"
  proof (cases "j div BSIZE = k")
    case True
    have e: "j = k * BSIZE + j mod BSIZE" using True by (metis div_mult_mod_eq)
    have "fbyte V' x j = overwrite (V ?a) p c ! (j mod BSIZE)" using True fb by (simp add: fbyte_def V'_def)
    also have "\<dots> = (if p \<le> j mod BSIZE \<and> j mod BSIZE < p + length c then c ! (j mod BSIZE - p) else V ?a ! (j mod BSIZE))"
      using c len jm by (intro nth_overwrite) auto
    also have "\<dots> = (if k * BSIZE + p \<le> j \<and> j < k * BSIZE + p + length c then c ! (j - (k * BSIZE + p)) else fbyte V x j)"
      using True by (subst (4 5 6) e) (simp add: fbyte_def)
    finally show ?thesis .
  next
    case False
    have jk: "j div BSIZE < MAXFILE" using j by (simp add: less_mult_imp_div_less)
    have "fblock V x (j div BSIZE) \<noteq> ?a" using ok False k jk unfolding file_ok_def by metis
    moreover have "\<not> (k * BSIZE + p \<le> j \<and> j < k * BSIZE + p + length c)"
    proof
      assume a: "k * BSIZE + p \<le> j \<and> j < k * BSIZE + p + length c"
      then have "j = k * BSIZE + (j - k * BSIZE)" "j - k * BSIZE < BSIZE" using c by auto
      then show False using False in_block(1) [of "j - k * BSIZE" BSIZE k] by simp
    qed
    ultimately show ?thesis using fb by (auto simp: fbyte_def V'_def)
  qed
qed

text \<open>The number of blocks a write of \<open>r\<close> bytes at \<open>p\<close> may touch.\<close>

definition touched :: "nat \<Rightarrow> nat \<Rightarrow> nat" where
  "touched p r = (if r = 0 then 0 else Suc ((p mod BSIZE + r) div BSIZE))"

lemma touched_step:
  assumes "0 < r" "m = min r (BSIZE - p mod BSIZE)"
  shows "Suc (touched (p + m) (r - m)) \<le> touched p r"
proof (cases "m = r")
  case False
  then have m: "m = BSIZE - p mod BSIZE" "m < r" using assms(2) by (auto simp: min_def)
  have pm: "p mod BSIZE < BSIZE" by (simp add: BSIZE_def)
  have e: "p + m = p div BSIZE * BSIZE + BSIZE" using m(1) pm by (metis add.assoc add_diff_inverse_nat div_mult_mod_eq less_imp_le_nat linorder_not_less)
  have "(p + m) mod BSIZE = 0" unfolding e by simp
  moreover have "p mod BSIZE + r = BSIZE + (r - m)" using m pm by simp
  moreover have "(BSIZE + (r - m)) div BSIZE = Suc ((r - m) div BSIZE)" by (simp add: BSIZE_def)
  ultimately show ?thesis using assms(1) m by (simp add: touched_def)
qed (use assms in \<open>simp add: touched_def\<close>)

lemma writei_loop_ok:
  fixes s :: "'z kfs_scheme"
  assumes "log_inv d s V bl" "inodes s ip = x" "i_dev x = d" "file_ok (log_start s) V x" "span_ok V x off n tot" "unat n - unat tot < fuel"
    "tx_room s bl (touched (unat off) (unat n - unat tot) + j)" "unat n \<le> length bs"
  shows "\<exists>s' V' bl'. writei_loop fuel s me ip (LocalSrc bs) off n tot = Inr (n, off + (n - tot), s') \<and> log_inv d s' V' bl' \<and> fkeeps s s' \<and>
    file_ok (log_start s) V' x \<and> fblock V' x = fblock V x \<and> tx_room s' bl' j \<and>
    (\<forall>m. (\<forall>i < MAXFILE. m \<noteq> fblock V x i) \<longrightarrow> V' m = V m) \<and>
    (\<forall>i < MAXFILE * BSIZE. fbyte V' x i =
       (if unat off \<le> i \<and> i < unat off + (unat n - unat tot) then bs ! (unat tot + (i - unat off)) else fbyte V x i))"
  using assms
proof (induction fuel arbitrary: s V bl off tot)
  case (Suc fuel)
  show ?case
  proof (cases "tot < n")
    case False
    then have "tot = n" using Suc.prems(5) by (simp add: span_ok_def)
    moreover have "tx_room s bl j" using Suc.prems(7) by (rule tx_room_mono) simp
    ultimately show ?thesis using Suc.prems(1,4) by (intro exI [of _ s] exI [of _ V] exI [of _ bl]) auto
  next
    case True
    define m where "m = min (n - tot) (of_nat BSIZE - off mod of_nat BSIZE)"
    note sp = span_step [OF Suc.prems(5) True, folded m_def] and cw = chunk_word [OF True, of off, folded m_def]
    let ?k = "unat off div BSIZE" let ?p = "unat off mod BSIZE" let ?a = "fblock V x ?k" let ?c = "slice bs (unat tot) (unat m)"
    let ?V = "V(?a := overwrite (V ?a) ?p ?c)"
    have tn: "unat tot < unat n" using True by (simp add: word_less_nat_alt)
    have lc: "length ?c = unat m" using Suc.prems(8) sp(8) tn by simp
    obtain s1 where s1: "bmap s me ip (off div of_nat BSIZE) = Inr (?a, s1)" "log_inv d s1 V bl" "fkeeps s s1"
      using bmap_mapped [OF Suc.prems(1-3), of "off div of_nat BSIZE" me] sp(6,7) cw(3) by auto
    obtain b s2 where b: "bread s1 me d ?a = Inr (b, s2)" "log_held d s2 V bl me ?a b" "keeps s1 s2" "buf_data b s2 = V ?a"
      using log_hold [OF s1(2)] by metis
    note k2 = fkeeps_trans [OF s1(3) keeps_fkeeps [OF b(3)]]
    have na: "?a \<notin> log_area (log_start s2)" using Suc.prems(4) sp(6,7) fkeeps_fields(3) [OF k2] by (simp add: file_ok_def)
    let ?q = "touched (unat (off + m)) (unat n - unat (tot + m)) + j"
    have left: "unat n - unat (tot + m) = unat n - unat tot - unat m" using sp(8) by linarith
    have "Suc (touched (unat off + unat m) (unat n - unat tot - unat m)) \<le> touched (unat off) (unat n - unat tot)"
      by (rule touched_step [OF _ cw(1)]) (use tn in linarith)
    then have "Suc ?q \<le> touched (unat off) (unat n - unat tot) + j" unfolding sp(1) left by linarith
    then have r2: "tx_room s2 bl (Suc ?q)" using tx_room_mono tx_room_same [OF Suc.prems(7) k2] by blast
    obtain s3 s4 where s4: "log_write b (set_data b (overwrite (V ?a) ?p ?c) s2) = Inr s3" "brelse s3 me b = Inr s4"
      "log_inv d s4 ?V (logged bl ?a)" "fkeeps s2 s4" using log_change_tx [OF b(2) na r2] by metis
    note k4 = fkeeps_trans [OF k2 s4(4)]
    note w = file_write [OF Suc.prems(4) sp(6,7), of ?p ?c, unfolded lc, OF sp(5)]
    have x4: "inodes s4 ip = x" "file_ok (log_start s4) ?V x" using fkeeps_fields(2,3) [OF k4] Suc.prems(2) w(2) by simp_all
    have sp4: "span_ok ?V x (off + m) n (tot + m)" using sp(3) unfolding span_ok_def w(1) .
    have fu: "unat n - unat (tot + m) < fuel" using sp(4) Suc.prems(6) by simp
    have r4: "tx_room s4 (logged bl ?a) ?q" by (rule tx_room_logged [OF r2 s4(4)])
    have step: "writei_loop (Suc fuel) s me ip (LocalSrc bs) off n tot = writei_loop fuel s4 me ip (LocalSrc bs) (off + m) n (tot + m)"
      using True s1(1) b(1,4) s4(1,2) sp(7) Suc.prems(2,3) fkeeps_fields(2) [OF s1(3)] cw(2)
      by (simp add: Let_def m_def [symmetric] src_copy_def)
    obtain s' V' bl' where s': "writei_loop fuel s4 me ip (LocalSrc bs) (off + m) n (tot + m) = Inr (n, off + m + (n - (tot + m)), s')"
      "log_inv d s' V' bl'" "fkeeps s4 s'" "file_ok (log_start s4) V' x" "fblock V' x = fblock ?V x" "tx_room s' bl' j"
      "\<forall>m. (\<forall>i < MAXFILE. m \<noteq> fblock ?V x i) \<longrightarrow> V' m = ?V m"
      "\<forall>i < MAXFILE * BSIZE. fbyte V' x i = (if unat (off + m) \<le> i \<and> i < unat (off + m) + (unat n - unat (tot + m))
         then bs ! (unat (tot + m) + (i - unat (off + m))) else fbyte ?V x i)"
      using Suc.IH [OF s4(3) x4(1) Suc.prems(3) x4(2) sp4 fu r4 Suc.prems(8)] by blast
    have bytes: "fbyte V' x i = (if unat off \<le> i \<and> i < unat off + (unat n - unat tot) then bs ! (unat tot + (i - unat off)) else fbyte V x i)"
      if i: "i < MAXFILE * BSIZE" for i
    proof -
      have e: "?k * BSIZE + ?p = unat off" by simp
      have "?c ! (i - unat off) = bs ! (unat tot + (i - unat off))" if "unat off \<le> i" "i < unat off + unat m"
        using that sp(8) Suc.prems(8) tn by (simp add: slice_def)
      then show ?thesis using s'(8) i w(3) [OF i, unfolded e] sp(8) unfolding sp(1,2) by (auto simp: add.assoc)
    qed
    have others: "\<forall>m. (\<forall>i < MAXFILE. m \<noteq> fblock V x i) \<longrightarrow> V' m = V m" using s'(7) sp(6) unfolding w(1) by auto
    have off: "off + m + (n - (tot + m)) = off + (n - tot)" by (simp add: algebra_simps)
    have ok': "file_ok (log_start s) V' x" using s'(4) fkeeps_fields(3) [OF k4] by simp
    have res: "writei_loop (Suc fuel) s me ip (LocalSrc bs) off n tot = Inr (n, off + (n - tot), s')" using step s'(1) off by simp
    have all: "\<forall>i < MAXFILE * BSIZE. fbyte V' x i =
       (if unat off \<le> i \<and> i < unat off + (unat n - unat tot) then bs ! (unat tot + (i - unat off)) else fbyte V x i)"
      using bytes by blast
    show ?thesis using res s'(2) fkeeps_trans [OF k4 s'(3)] ok' s'(5) [unfolded w(1)] s'(6) others all by metis
  qed
qed simp


declare readi_loop.simps [simp del] writei_loop.simps [simp del]

section \<open>Properties\<close>

lemma file_view_cong:
  assumes ok: "file_ok st V x" and V': "\<And>i. i < MAXFILE \<Longrightarrow> V' (fblock V x i) = V (fblock V x i)"
    "i_addrs x ! NDIRECT \<noteq> 0 \<Longrightarrow> V' (i_addrs x ! NDIRECT) = V (i_addrs x ! NDIRECT)" and len: "\<And>a. length (V' a) = BSIZE"
  shows "fblock V' x = fblock V x" "file_ok st V' x" "j < MAXFILE * BSIZE \<Longrightarrow> fbyte V' x j = fbyte V x j"
proof -
  show fb: "fblock V' x = fblock V x" using V'(2) by (auto simp: fblock_def fun_eq_iff)
  show "file_ok st V' x" using ok len unfolding file_ok_def fb by blast
  assume "j < MAXFILE * BSIZE"
  then have "j div BSIZE < MAXFILE" by (simp add: less_mult_imp_div_less)
  then show "fbyte V' x j = fbyte V x j" using V'(1) fb by (simp add: fbyte_def)
qed

lemma size_consts: "MAXFILE * BSIZE = 274432"
  by (simp add: MAXFILE_def NDIRECT_def NINDIRECT_def BSIZE_def)

lemma count_word:
  assumes "n \<le> 274432"
  shows "unat (of_nat n :: uint) = n" "sint (of_nat n :: uint) = int n"
proof -
  show u: "unat (of_nat n :: uint) = n" using assms by (simp add: unat_of_nat)
  have "uint (of_nat n :: uint) = int n" using u by (metis uint_nat)
  then show "sint (of_nat n :: uint) = int n" using sint32_cases [of "of_nat n"] assms by auto
qed

text \<open>The file an open inode stands for, with all its blocks allocated.\<close>

definition whole_file :: "'z kfs_scheme \<Rightarrow> blocks \<Rightarrow> nat \<Rightarrow> bool" where
  "whole_file s V ip \<longleftrightarrow> file_ok (log_start s) V (inodes s ip) \<and> unat (i_size (inodes s ip)) \<le> MAXFILE * BSIZE \<and>
     (\<forall>j < unat (i_size (inodes s ip)). fblock V (inodes s ip) (j div BSIZE) \<noteq> 0)"

lemma readi_ok:
  fixes s :: "'z kfs_scheme"
  assumes inv: "log_inv d s V bl" "i_dev (inodes s ip) = d" and f: "whole_file s V ip" and n: "unat off + n \<le> unat (i_size (inodes s ip))"
  shows "\<exists>s'. readi s me ip LocalDst off (of_nat n) = Inr (int n, map (fbyte V (inodes s ip)) [unat off..<unat off + n], s') \<and>
    log_inv d s' V bl \<and> fkeeps s s'"
proof -
  let ?x = "inodes s ip"
  have sz: "unat (i_size ?x) \<le> 274432" using f size_consts by (simp add: whole_file_def)
  have n0: "n \<le> 274432" using n sz by simp
  note w = count_word [OF n0]
  have o: "unat (off + of_nat n) = unat off + n" using n sz w by (subst unat_add_lem [THEN iffD1]) auto
  have g: "\<not> (i_size ?x < off \<or> off + of_nat n < off)" "\<not> i_size ?x < off + of_nat n" using n o by (auto simp: word_less_nat_alt)
  have sp: "span_ok V ?x off (of_nat n) 0" using f n w by (auto simp: span_ok_def whole_file_def)
  have "\<exists>s'. readi_loop (Suc n) s me ip LocalDst off (of_nat n) 0 [] =
      Inr (sint (of_nat n :: uint), [] @ map (fbyte V ?x) [unat off..<unat off + (unat (of_nat n :: uint) - unat (0 :: uint))], s') \<and> log_inv d s' V bl \<and> fkeeps s s'"
    by (rule readi_loop_ok [OF inv(1) refl inv(2) _ sp]) (use f w in \<open>auto simp: whole_file_def\<close>)
  then show ?thesis using g w by (simp add: readi_def Let_def)
qed

text \<open>C4: what \<open>writei\<close> has written to a file, \<open>readi\<close> reads back. Writing bytes within the file, inside a transaction with room for the blocks concerned, returns their
  number; reading the same range then gives exactly these bytes, and every other byte of the file is what it was.\<close>

theorem writei_readi_roundtrip:
  fixes s :: "'z kfs_scheme"
  assumes "log_inv d s V bl" "i_dev (inodes s ip) = d" "whole_file s V ip" "unat off + length bs \<le> unat (i_size (inodes s ip))"
    "nb = IBLOCK (i_inum (inodes s ip)) (sb s)" "nb \<notin> log_area (log_start s)" "nb \<noteq> i_addrs (inodes s ip) ! NDIRECT"
    "\<forall>i < MAXFILE. nb \<noteq> fblock V (inodes s ip) i" "tx_room s bl (touched (unat off) (length bs) + 1)"
  shows "\<exists>s1 s2 V1 bl1. writei s me ip (LocalSrc bs) off (of_nat (length bs)) = Inr (int (length bs), s1) \<and>
    readi s1 me ip LocalDst off (of_nat (length bs)) = Inr (int (length bs), bs, s2) \<and>
    log_inv d s1 V1 bl1 \<and> whole_file s1 V1 ip \<and> inodes s1 = inodes s \<and>
    (\<forall>j < MAXFILE * BSIZE. \<not> (unat off \<le> j \<and> j < unat off + length bs) \<longrightarrow> fbyte V1 (inodes s ip) j = fbyte V (inodes s ip) j)"
proof -
  let ?x = "inodes s ip" let ?n = "length bs" let ?w = "of_nat ?n :: uint"
  have sz: "unat (i_size ?x) \<le> 274432" using assms(3) size_consts by (simp add: whole_file_def)
  have n0: "?n \<le> 274432" using assms(4) sz by simp
  note w = count_word [OF n0]
  have o: "unat (off + ?w) = unat off + ?n" using assms(4) sz w by (subst unat_add_lem [THEN iffD1]) auto
  have g: "\<not> (i_size ?x < off \<or> off + ?w < off)" "\<not> i_size ?x < off + ?w" "\<not> MAXFILE * BSIZE < unat (off + ?w)"
    using assms(4) o sz size_consts by (auto simp: word_less_nat_alt)
  have sp: "span_ok V ?x off ?w 0" using assms(3,4) w by (auto simp: span_ok_def whole_file_def)
  have ok: "file_ok (log_start s) V ?x" using assms(3) by (simp add: whole_file_def)
  have room: "tx_room s bl (touched (unat off) (unat ?w - unat (0 :: uint)) + 1)" using assms(9) w by simp
  obtain s1 V1 bl1 where s1: "writei_loop (Suc ?n) s me ip (LocalSrc bs) off ?w 0 = Inr (?w, off + (?w - 0), s1)" "log_inv d s1 V1 bl1" "fkeeps s s1"
    "file_ok (log_start s) V1 ?x" "fblock V1 ?x = fblock V ?x" "tx_room s1 bl1 1" "\<forall>m. (\<forall>i < MAXFILE. m \<noteq> fblock V ?x i) \<longrightarrow> V1 m = V m"
    "\<forall>i < MAXFILE * BSIZE. fbyte V1 ?x i = (if unat off \<le> i \<and> i < unat off + (unat ?w - unat (0 :: uint)) then bs ! (unat (0 :: uint) + (i - unat off)) else fbyte V ?x i)"
    using writei_loop_ok [OF assms(1) refl assms(2) ok sp _ room, of "Suc ?n" bs me] w by auto
  note g1 = fkeeps_fields [OF s1(3)]
  define W where "W = V1(nb := store_dinode (V1 nb) (dinode_off (i_inum ?x)) ?x)"
  obtain s2 where s2: "iupdate s1 me ip = Inr s2" "log_inv d s2 W (logged bl1 nb)" "fkeeps s1 s2"
    using iupdate_ok [OF s1(2) _ _ _ _ s1(6), of ?x ip nb me] g1 assms(2,5,6) by (auto simp: W_def)
  note k2 = fkeeps_trans [OF s1(3) s2(3)]
  have len: "length (V1 a) = BSIZE" "length (i_addrs ?x) = 13" for a using s1(4) by (simp_all add: file_ok_def)
  have "dinode_off (i_inum ?x) + 64 \<le> length (V1 nb)" using dinode_off_less len(1) by simp
  then have lV: "length (W a) = BSIZE" for a using len load_store_dinode(2) by (simp add: W_def)
  have p1: "W (fblock V1 ?x i) = V1 (fblock V1 ?x i)" if "i < MAXFILE" for i using s1(5) assms(8) that by (auto simp: W_def)
  have p2: "W (i_addrs ?x ! NDIRECT) = V1 (i_addrs ?x ! NDIRECT)" using assms(7) by (auto simp: W_def)
  note c = file_view_cong [OF s1(4) p1 p2 lV]
  have fb: "fblock W ?x = fblock V ?x" "file_ok (log_start s) W ?x" "\<And>j. j < MAXFILE * BSIZE \<Longrightarrow> fbyte W ?x j = fbyte V1 ?x j"
    using c s1(5) by simp_all
  have wr: "writei s me ip (LocalSrc bs) off ?w = Inr (int ?n, s2)"
    using g s1(1) s2(1) w g1(2) by (simp add: writei_def Let_def)
  have wf: "whole_file s2 W ip" using assms(3) fb(1,2) fkeeps_fields(2,3) [OF k2] by (simp add: whole_file_def)
  obtain s3 where s3: "readi s2 me ip LocalDst off ?w = Inr (int ?n, map (fbyte W ?x) [unat off..<unat off + ?n], s3)"
    using readi_ok [OF s2(2) _ wf, of off ?n me] assms(2,4) fkeeps_fields(2) [OF k2] by auto
  have "map (fbyte W ?x) [unat off..<unat off + ?n] = bs"
    using fb(3) s1(8) assms(4) sz w size_consts by (intro nth_equalityI) auto
  moreover have "\<forall>j < MAXFILE * BSIZE. \<not> (unat off \<le> j \<and> j < unat off + ?n) \<longrightarrow> fbyte W ?x j = fbyte V ?x j"
    using fb(3) s1(8) w by auto
  ultimately show ?thesis using wr s3 s2(2) wf fkeeps_fields(2) [OF k2] by metis
qed


text \<open>C11: an inode survives its eviction from the inode table. After \<open>iupdate\<close> has written it, locking any table entry for the same inode that
  has not been read in yet gives it the type, device numbers, link count, size and block addresses that were written.\<close>

theorem iupdate_ilock_roundtrip:
  fixes s :: "'z kfs_scheme"
  assumes "log_inv d s V bl" "x = inodes s ip" "i_dev x = d" "length (i_addrs x) = 13" "i_type x \<noteq> 0"
    "nb = IBLOCK (i_inum x) (sb s)" "nb \<notin> log_area (log_start s)" "length (V nb) = BSIZE" "tx_room s bl 1"
    "i_dev (inodes s j) = d" "i_inum (inodes s j) = i_inum x" "\<not> i_valid (inodes s j)" "1 \<le> i_ref (inodes s j)" "\<not> sl_locked (i_lock (inodes s j))"
  shows "\<exists>s1 s2. iupdate s me ip = Inr s1 \<and> inodes s1 = inodes s \<and> ilock s1 me (Some j) = Inr s2 \<and>
    i_type (inodes s2 j) = i_type x \<and> i_major (inodes s2 j) = i_major x \<and> i_minor (inodes s2 j) = i_minor x \<and>
    i_nlink (inodes s2 j) = i_nlink x \<and> i_size (inodes s2 j) = i_size x \<and> i_addrs (inodes s2 j) = i_addrs x \<and>
    i_valid (inodes s2 j) \<and> holdingsleep s1 me (i_lock (inodes s2 j))"
proof -
  let ?o = "dinode_off (i_inum x)" let ?y = "inodes s j"
  define W where "W = V(nb := store_dinode (V nb) ?o x)"
  obtain s1 where s1: "iupdate s me ip = Inr s1" "log_inv d s1 W (logged bl nb)" "fkeeps s s1"
    using iupdate_ok [OF assms(1,2,3,6,7,9), of me] by (auto simp: W_def)
  note g = fkeeps_fields [OF s1(3)]
  have "?o + 64 \<le> length (V nb)" using dinode_off_less assms(8) by simp
  then have z: "load_dinode (W nb) ?o ?y = ?y\<lparr>i_type := i_type x, i_major := i_major x, i_minor := i_minor x, i_nlink := i_nlink x,
      i_size := i_size x, i_addrs := i_addrs x\<rparr>" (is "_ = ?z") using load_store_dinode(1) [of ?o "V nb" x] assms(4) by (simp add: W_def)
  have j: "inodes s1 j = ?y" "sb s1 = sb s" using g by simp_all
  have "\<exists>s2. ilock s1 me (Some j) = Inr s2 \<and> log_inv d s2 W (logged bl nb) \<and>
    inodes s2 = (inodes s1)(j := ?z\<lparr>i_lock := (i_lock (inodes s1 j))\<lparr>sl_locked := True, sl_pid := p_pid (procs s1 me)\<rparr>, i_valid := True\<rparr>)"
    by (rule ilock_loads [OF s1(2)]) (use assms(5,6,10-14) j z in simp_all)
  then show ?thesis using s1(1) g(2) by (auto simp: holdingsleep_def)
qed

text \<open>The small disk with one file of ten bytes, open in slot 0, and an entry for it in slot 1 that has not been read.\<close>

definition one_file :: inode where
  "one_file = \<lparr>i_dev = 1, i_inum = 1, i_ref = 1, i_lock = initsleeplock [], i_valid = True, i_type = T_FILE, i_major = 0,
     i_minor = 0, i_nlink = 1, i_size = 10, i_addrs = 47 # replicate 12 0\<rparr>"

definition file_fs :: kfs where
  "file_fs = (binit fresh_fs)\<lparr>inodes := (inodes (binit fresh_fs))(0 := one_file, 1 := one_file\<lparr>i_valid := False\<rparr>)\<rparr>"

lemma file_fs_ok:
  "log_inv 1 file_fs fresh_view []" "tx_room file_fs [] 20" "log_start file_fs = 2" "sb file_fs = sb fresh_fs"
  "inodes file_fs 0 = one_file" "inodes file_fs 1 = one_file\<lparr>i_valid := False\<rparr>" "length (fresh_view a) = BSIZE"
proof -
  have e: "file_fs = inode_upd 1 (\<lambda>_. one_file\<lparr>i_valid := False\<rparr>) (inode_upd 0 (\<lambda>_. one_file) (binit fresh_fs))"
    by (simp add: file_fs_def inode_upd_def)
  show "log_inv 1 file_fs fresh_view []" "sb file_fs = sb fresh_fs" unfolding e using fresh_fs_inv by simp_all
  show "tx_room file_fs [] 20" "log_start file_fs = 2" using fresh_fs_inv by (simp_all add: file_fs_def tx_room_def)
  show "inodes file_fs 0 = one_file" "inodes file_fs 1 = one_file\<lparr>i_valid := False\<rparr>" by (simp_all add: file_fs_def)
  show "length (fresh_view a) = BSIZE" by (simp add: fresh_view_def BSIZE_def)
qed

lemma one_file_block: "fblock fresh_view one_file i = (if i = 0 then 47 else 0)" if "i < MAXFILE"
  using that by (cases i) (auto simp: fblock_def one_file_def NDIRECT_def)

lemma one_file_whole: "whole_file file_fs fresh_view 0"
proof -
  have "(47 :: uint) \<notin> log_area 2" using log_area_2 [of 47] by auto
  then have "file_ok 2 fresh_view one_file"
    using one_file_block file_fs_ok(7) unfolding file_ok_def by (auto simp: one_file_def NDIRECT_def split: if_splits)
  moreover have "j < 10 \<Longrightarrow> j div BSIZE = 0" for j by (simp add: BSIZE_def)
  ultimately show ?thesis using one_file_block [of 0] file_fs_ok(3,5) size_consts
    by (auto simp: whole_file_def MAXFILE_def NDIRECT_def one_file_def [symmetric]) (simp_all add: one_file_def)
qed

theorem writei_readi_roundtrip_witness:
  "\<exists>s1 s2. writei file_fs 0 0 (LocalSrc [104, 105]) 3 2 = Inr (2, s1) \<and> readi s1 0 0 LocalDst 3 2 = Inr (2, [104, 105], s2)"
proof -
  have nb: "IBLOCK (i_inum one_file) (sb fresh_fs) = 32" by (simp add: IBLOCK_def IPB_def one_file_def fresh_fs_def klog.defs)
  have "(32 :: uint) \<notin> log_area 2" using log_area_2 [of 32] by auto
  moreover have "tx_room file_fs [] (touched (unat (3 :: uint)) (length [104, 105 :: uint8]) + 1)"
    using file_fs_ok(2) by (rule tx_room_mono) (simp add: touched_def BSIZE_def)
  moreover have "\<forall>i < MAXFILE. (32 :: uint) \<noteq> fblock fresh_view one_file i" using one_file_block by auto
  ultimately show ?thesis
    using writei_readi_roundtrip [OF file_fs_ok(1) _ one_file_whole, of 3 "[104, 105]" 32 0] file_fs_ok(3-5) nb
    by (auto simp: one_file_def NDIRECT_def)
qed

theorem iupdate_ilock_roundtrip_witness:
  "\<exists>s1 s2. iupdate file_fs 0 0 = Inr s1 \<and> ilock s1 0 (Some 1) = Inr s2 \<and> i_size (inodes s2 1) = 10"
proof -
  have nb: "IBLOCK (i_inum one_file) (sb fresh_fs) = 32" by (simp add: IBLOCK_def IPB_def one_file_def fresh_fs_def klog.defs)
  have "(32 :: uint) \<notin> log_area 2" using log_area_2 [of 32] by auto
  moreover have "tx_room file_fs [] 1" using file_fs_ok(2) by (rule tx_room_mono) simp
  ultimately show ?thesis
    using iupdate_ilock_roundtrip [OF file_fs_ok(1) refl, of 0 32 1 0] file_fs_ok(3-7) nb
    by (auto simp: one_file_def T_FILE_def initsleeplock_def)
qed

end
