(* ===== verification/Mkfs.thy ===== *)
theory Mkfs
  imports Fsfile
begin

text \<open>
  The program that builds the file-system image, \<open>mkfs/mkfs.c\<close>. The image file is a map from sector numbers to
  blocks with its length in sectors; the host's \<open>lseek\<close> and \<open>write\<close> succeed, and a \<open>read\<close> beyond the end of the image ends the program
  (\<open>die\<close>). \<open>xint\<close> and \<open>xshort\<close> are the little-endian \<open>put32\<close>, \<open>get32\<close>, \<open>put16\<close> and \<open>get16\<close>. A file to be copied is its name on the command line with the
  pieces \<open>read\<close> gives, none of them empty.
\<close>

section \<open>Definitions\<close>

record mkfs =
  m_img :: blocks
  m_sectors :: nat
  m_sb :: superblock
  freeinode :: uint
  freeblock :: uint

definition NINODES :: nat where "NINODES = 200"
definition nbitmap :: nat where "nbitmap = FSSIZE div (BSIZE * 8) + 1"
definition ninodeblocks :: nat where "ninodeblocks = NINODES div unat IPB + 1"
definition nlog :: nat where "nlog = nat LOGSIZE"
definition zeroes :: "uint8 list" where "zeroes = replicate BSIZE 0"

text \<open>The offset \<open>sec * BSIZE\<close> is computed in 32 bits.\<close>

definition sect :: "uint \<Rightarrow> uint" where
  "sect sec = sec * 1024 div 1024"

definition wsect :: "uint \<Rightarrow> uint8 list \<Rightarrow> mkfs \<Rightarrow> mkfs" where
  "wsect sec buf s = s\<lparr>m_img := (m_img s)(sect sec := buf), m_sectors := max (m_sectors s) (Suc (unat (sect sec)))\<rparr>"

definition rsect :: "uint \<Rightarrow> mkfs \<Rightarrow> uint8 list res" where
  "rsect sec s = (if unat (sect sec) < m_sectors s then Inr (m_img s (sect sec)) else Inl (Panic ''read''))"

text \<open>A \<open>struct dinode\<close> is held in the fields an inode shares with it; \<open>bzero\<close> of one.\<close>

definition zero_dinode :: inode where
  "zero_dinode = \<lparr>i_dev = 0, i_inum = 0, i_ref = 0, i_lock = initsleeplock [], i_valid = False, i_type = 0,
     i_major = 0, i_minor = 0, i_nlink = 0, i_size = 0, i_addrs = replicate 13 0\<rparr>"

definition winode :: "uint \<Rightarrow> inode \<Rightarrow> mkfs \<Rightarrow> mkfs res" where
  "winode inum ip s =
     (let bn = IBLOCK inum (m_sb s)
      in bind_res (rsect bn s) (\<lambda>buf. Inr (wsect bn (store_dinode buf (dinode_off inum) ip) s)))"

definition rinode :: "uint \<Rightarrow> mkfs \<Rightarrow> inode res" where
  "rinode inum s =
     bind_res (rsect (IBLOCK inum (m_sb s)) s) (\<lambda>buf. Inr (load_dinode buf (dinode_off inum) zero_dinode))"

definition mkfs_ialloc :: "uint16 \<Rightarrow> mkfs \<Rightarrow> (uint \<times> mkfs) res" where
  "mkfs_ialloc type s =
     (let inum = freeinode s;
          s = s\<lparr>freeinode := inum + 1\<rparr>;
          din = zero_dinode\<lparr>i_type := type, i_nlink := 1, i_size := 0\<rparr>
      in bind_res (winode inum din s) (\<lambda>s. Inr (inum, s)))"

definition mkfs_balloc :: "int \<Rightarrow> mkfs \<Rightarrow> mkfs res" where
  "mkfs_balloc used s =
     (if \<not> used < 8192 then Inl (Panic ''assert'')
      else
        let buf = fold (\<lambda>i buf. buf[i div 8 := buf ! (i div 8) OR bit_mask i]) [0..<nat used] zeroes
        in Inr (wsect (sb_bmapstart (m_sb s)) buf s))"

text \<open>The block for block \<open>fbn\<close> of the file, allocated if there is none.\<close>

definition file_sector :: "nat \<Rightarrow> inode \<Rightarrow> mkfs \<Rightarrow> (uint \<times> inode \<times> mkfs) res" where
  "file_sector fbn din s =
     (if fbn < NDIRECT then
        let (din, s) = (if i_addrs din ! fbn = 0
              then (din\<lparr>i_addrs := (i_addrs din)[fbn := freeblock s]\<rparr>, s\<lparr>freeblock := freeblock s + 1\<rparr>) else (din, s))
        in Inr (i_addrs din ! fbn, din, s)
      else
        let (din, s) = (if i_addrs din ! NDIRECT = 0
              then (din\<lparr>i_addrs := (i_addrs din)[NDIRECT := freeblock s]\<rparr>, s\<lparr>freeblock := freeblock s + 1\<rparr>) else (din, s))
        in bind_res (rsect (i_addrs din ! NDIRECT) s) (\<lambda>indirect.
             if get32 indirect (4 * (fbn - NDIRECT)) = 0 then
               let indirect = put32 indirect (4 * (fbn - NDIRECT)) (freeblock s);
                   s = wsect (i_addrs din ! NDIRECT) indirect (s\<lparr>freeblock := freeblock s + 1\<rparr>)
               in Inr (get32 indirect (4 * (fbn - NDIRECT)), din, s)
             else Inr (get32 indirect (4 * (fbn - NDIRECT)), din, s)))"

text \<open>The loop of \<open>iappend\<close>: \<open>p\<close> holds the \<open>n\<close> bytes still to be written.\<close>

function iappend_loop :: "uint8 list \<Rightarrow> uint \<Rightarrow> inode \<Rightarrow> mkfs \<Rightarrow> (uint \<times> inode \<times> mkfs) res" where
  "iappend_loop p off din s =
     (if p = [] then Inr (off, din, s)
      else
        let fbn = off div 1024
        in if \<not> unat fbn < MAXFILE then Inl (Panic ''assert'')
           else
             bind_res (file_sector (unat fbn) din s) (\<lambda>(x, din, s).
             let n1 = min (length p) (unat ((fbn + 1) * 1024 - off))
             in bind_res (rsect x s) (\<lambda>buf.
                let s = wsect x (overwrite buf (unat (off - fbn * 1024)) (take n1 p)) s
                in iappend_loop (drop n1 p) (off + of_nat n1) din s)))"
  by pat_completeness auto
termination
proof (relation "measure (\<lambda>(p, off, din, s). length p)", goal_cases)
  case (2 p off din s)
  have "(off div 1024 + 1) * 1024 - off \<noteq> 0"
  proof
    assume "(off div 1024 + 1) * 1024 - off = 0"
    moreover have "off = off div 1024 * 1024 + off mod 1024" by (simp add: div_mult_mod_eq)
    ultimately have "off div 1024 * 1024 + 1024 = off div 1024 * 1024 + off mod 1024" by (simp add: algebra_simps)
    then have "(1024 :: uint) = off mod 1024" by (simp only: add_left_cancel)
    moreover have "off mod 1024 < 1024" by (simp add: word_less_nat_alt unat_mod)
    ultimately show False by simp
  qed
  then have "0 < unat ((off div 1024 + 1) * 1024 - off)" by (simp add: unat_gt_0)
  then show ?case using 2 by simp
qed simp

declare iappend_loop.simps [simp del]

definition iappend :: "uint \<Rightarrow> uint8 list \<Rightarrow> mkfs \<Rightarrow> mkfs res" where
  "iappend inum p s =
     bind_res (rinode inum s) (\<lambda>din.
     bind_res (iappend_loop p (i_size din) din s) (\<lambda>(off, din, s).
     winode inum (din\<lparr>i_size := off\<rparr>) s))"

definition mkfs_sb :: superblock where
  "mkfs_sb =
     (let nmeta = 2 + nlog + ninodeblocks + nbitmap
      in \<lparr>sb_magic = FSMAGIC, sb_size = of_nat FSSIZE, sb_nblocks = of_nat (FSSIZE - nmeta), sb_ninodes = of_nat NINODES, sb_nlog = of_nat nlog,
          sb_logstart = 2, sb_inodestart = of_nat (2 + nlog), sb_bmapstart = of_nat (2 + nlog + ninodeblocks)\<rparr>)"

text \<open>The bytes of \<open>struct superblock\<close> at the start of a block.\<close>

definition encode_sb :: "superblock \<Rightarrow> uint8 list \<Rightarrow> uint8 list" where
  "encode_sb su d = overwrite d 0 (concat (map (\<lambda>v. le_of_nat 4 (unat v))
     [sb_magic su, sb_size su, sb_nblocks su, sb_ninodes su, sb_nlog su, sb_logstart su, sb_inodestart su, sb_bmapstart su]))"

definition dirent_bytes :: "uint \<Rightarrow> uint8 list \<Rightarrow> uint8 list" where
  "dirent_bytes inum name = le_of_nat 2 (unat (ucast inum :: uint16)) @ name"

text \<open>The name a file gets in the root directory: without \<open>user/\<close> and without a leading underscore.\<close>

definition shortname :: "uint8 list \<Rightarrow> uint8 list res" where
  "shortname arg =
     (let n = (if take 5 arg = [117, 115, 101, 114, 47] then drop 5 arg else arg)
      in if 47 \<in> set n then Inl (Panic ''assert'')
         else Inr (case n of [] \<Rightarrow> n | c # n' \<Rightarrow> if c = 95 then n' else n))"

type_synonym input_file = "uint8 list \<times> uint8 list list"

definition add_file :: "input_file \<Rightarrow> mkfs \<Rightarrow> mkfs res" where
  "add_file f s =
     (case f of (arg, pieces) \<Rightarrow>
        bind_res (shortname arg) (\<lambda>name.
        bind_res (mkfs_ialloc T_FILE s) (\<lambda>(inum, s).
        bind_res (strncpy (name @ [0]) DIRSIZ) (\<lambda>de_name.
        bind_res (iappend ROOTINO (dirent_bytes inum de_name) s) (\<lambda>s.
        fold_res (iappend inum) pieces s)))))"

definition mkfs_start :: mkfs where
  "mkfs_start =
     (let nmeta = 2 + nlog + ninodeblocks + nbitmap;
          s = \<lparr>m_img = \<lambda>_. zeroes, m_sectors = 0, m_sb = mkfs_sb, freeinode = 1, freeblock = of_nat nmeta\<rparr>;
          s = fold (\<lambda>i. wsect (of_nat i) zeroes) [0..<FSSIZE] s
      in wsect 1 (encode_sb (m_sb s) zeroes) s)"

definition mkfs_main :: "input_file list \<Rightarrow> mkfs res" where
  "mkfs_main files =
     bind_res (mkfs_ialloc T_DIR mkfs_start) (\<lambda>(rootino, s).
     if rootino \<noteq> ROOTINO then Inl (Panic ''assert'')
     else
       bind_res (iappend rootino (dirent_bytes rootino ([46] @ replicate 13 0)) s) (\<lambda>s.
       bind_res (iappend rootino (dirent_bytes rootino ([46, 46] @ replicate 12 0)) s) (\<lambda>s.
       bind_res (fold_res add_file files s) (\<lambda>s.
       bind_res (rinode rootino s) (\<lambda>din.
       let off = (i_size din div 1024 + 1) * 1024
       in bind_res (winode rootino (din\<lparr>i_size := off\<rparr>) s) (\<lambda>s.
          mkfs_balloc (sint (freeblock s)) s))))))"

section \<open>Who owns which block\<close>

text \<open>Slot \<open>k\<close> of an inode: its block \<open>k\<close>, and last its indirect block.\<close>

definition slot :: "blocks \<Rightarrow> inode \<Rightarrow> nat \<Rightarrow> uint" where
  "slot V x k = (if k = MAXFILE then i_addrs x ! NDIRECT else fblock V x k)"

text \<open>The image \<open>V\<close> with the inodes \<open>D\<close>: the blocks from \<open>F\<close> on are unused, every block below belongs to the metadata or to at most one slot of
  one inode, and file \<open>i\<close> holds the bytes \<open>C i\<close>.\<close>

definition slots_ok :: "blocks \<Rightarrow> (nat \<Rightarrow> inode) \<Rightarrow> nat \<Rightarrow> bool" where
  "slots_ok V D F \<longleftrightarrow> 46 \<le> F \<and> F \<le> 2002 \<and> (\<forall>a. length (V a) = BSIZE) \<and> (\<forall>a. F \<le> unat a \<longrightarrow> V a = zeroes) \<and>
     (\<forall>i. length (i_addrs (D i)) = 13) \<and>
     (\<forall>i k. k \<le> MAXFILE \<longrightarrow> slot V (D i) k \<noteq> 0 \<longrightarrow> 46 \<le> unat (slot V (D i) k) \<and> unat (slot V (D i) k) < F) \<and>
     (\<forall>i k i' k'. k \<le> MAXFILE \<longrightarrow> k' \<le> MAXFILE \<longrightarrow> slot V (D i) k \<noteq> 0 \<longrightarrow> slot V (D i) k = slot V (D i') k' \<longrightarrow> i = i' \<and> k = k')"

definition holds_bytes :: "blocks \<Rightarrow> inode \<Rightarrow> uint8 list \<Rightarrow> bool" where
  "holds_bytes V x bs \<longleftrightarrow> unat (i_size x) = length bs \<and> length bs \<le> MAXFILE * BSIZE \<and>
     (\<forall>j < length bs. slot V x (j div BSIZE) \<noteq> 0 \<and> fbyte V x j = bs ! j)"

definition image_ok :: "blocks \<Rightarrow> (nat \<Rightarrow> inode) \<Rightarrow> (nat \<Rightarrow> uint8 list) \<Rightarrow> nat \<Rightarrow> bool" where
  "image_ok V D C F \<longleftrightarrow> slots_ok V D F \<and> (\<forall>i. holds_bytes V (D i) (C i))"

lemma file_consts [simp]: "MAXFILE = 268" "NDIRECT = 12" "BSIZE = 1024"
  by (simp_all add: MAXFILE_def NDIRECT_def NINDIRECT_def BSIZE_def)

lemma slot_size [simp]: "slot V (x\<lparr>i_size := n\<rparr>) k = slot V x k" "fbyte V (x\<lparr>i_size := n\<rparr>) j = fbyte V x j"
  by (simp_all add: slot_def fblock_def fbyte_def)

lemma slots_okD:
  assumes "slots_ok V D F"
  shows "46 \<le> F" "F \<le> 2002" "length (V a) = 1024" "F \<le> unat a \<Longrightarrow> V a = zeroes" "length (i_addrs (D i)) = 13"
    and "k \<le> 268 \<Longrightarrow> slot V (D i) k \<noteq> 0 \<Longrightarrow> 46 \<le> unat (slot V (D i) k) \<and> unat (slot V (D i) k) < F"
    and "k \<le> 268 \<Longrightarrow> k' \<le> 268 \<Longrightarrow> slot V (D i) k \<noteq> 0 \<Longrightarrow> slot V (D i) k = slot V (D i') k' \<Longrightarrow> i = i' \<and> k = k'"
  using assms unfolding slots_ok_def file_consts by blast+

text \<open>A slot that was empty gets the next unused block.\<close>

lemma slots_alloc:
  assumes s: "slots_ok V D F" "F \<le> 2001" and k0: "k0 \<le> 268" "slot V (D n) k0 = 0"
    and V': "\<forall>a. length (V' a) = 1024" "\<forall>a. F < unat a \<longrightarrow> V' a = zeroes" and D': "\<forall>i. length (i_addrs (D' i)) = 13"
    and sl: "\<forall>i k. k \<le> 268 \<longrightarrow> slot V' (D' i) k = (if i = n \<and> k = k0 then of_nat F else slot V (D i) k)"
  shows "slots_ok V' D' (Suc F)"
proof -
  note d = slots_okD [OF s(1)]
  have F: "unat (of_nat F :: uint) = F" using s(2) by (simp add: unat_of_nat)
  have r: "46 \<le> unat (slot V' (D' i) k) \<and> unat (slot V' (D' i) k) < Suc F" if "k \<le> 268" "slot V' (D' i) k \<noteq> 0" for i k
    using that sl d(1) d(6) [of k i] F by (auto split: if_splits)
  have "i = i' \<and> k = k'" if k: "k \<le> 268" "k' \<le> 268" "slot V' (D' i) k \<noteq> 0" "slot V' (D' i) k = slot V' (D' i') k'" for i k i' k'
  proof -
    have ne: "slot V (D a) b \<noteq> of_nat F" if "b \<le> 268" for a b using d(1) d(6) [OF that, of a] F by (cases "slot V (D a) b = 0") (auto simp: unat_eq_0 [symmetric])
    show ?thesis using k sl d(7) [of k k' i i'] ne [of k i] ne [of k' i'] by (auto split: if_splits)
  qed
  then show ?thesis unfolding slots_ok_def file_consts using r V' D' s(2) d(1) by (auto simp: Suc_le_eq)
qed

text \<open>The bytes of a file depend on its slots and on its own blocks only.\<close>

lemma holds_bytes_cong:
  assumes "holds_bytes V x bs" "i_size x' = i_size x"
    and "\<And>k. k < 268 \<Longrightarrow> slot V x k \<noteq> 0 \<Longrightarrow> slot V' x' k = slot V x k \<and> V' (slot V x k) = V (slot V x k)"
  shows "holds_bytes V' x' bs"
proof -
  have "slot V' x' (j div 1024) \<noteq> 0 \<and> fbyte V' x' j = bs ! j" if j: "j < length bs" for j
  proof -
    have o: "slot V x (j div 1024) \<noteq> 0" "fbyte V x j = bs ! j" "length bs \<le> 274432" using assms(1) j by (auto simp: holds_bytes_def)
    then have k: "j div 1024 < 268" using j by simp
    then have "j div 1024 \<noteq> 268" by simp
    then show ?thesis using assms(3) [OF k o(1)] o by (simp add: fbyte_def slot_def)
  qed
  then show ?thesis using assms(1,2) by (simp add: holds_bytes_def)
qed

lemma image_alloc:
  assumes "image_ok V D C F" "slots_ok V' D' F'" "\<forall>i. i_size (D' i) = i_size (D i)"
    and "\<forall>i k. k \<le> 268 \<longrightarrow> slot V (D i) k \<noteq> 0 \<longrightarrow> slot V' (D' i) k = slot V (D i) k"
    and "\<forall>a. a \<noteq> b \<longrightarrow> V' a = V a" "b = 0 \<or> b = slot V (D n) 268"
  shows "image_ok V' D' C F'"
proof -
  have s: "slots_ok V D F" and h: "\<And>i. holds_bytes V (D i) (C i)" using assms(1) by (auto simp: image_ok_def)
  have "holds_bytes V' (D' i) (C i)" for i
  proof (rule holds_bytes_cong [OF h])
    fix k assume k: "k < 268" "slot V (D i) k \<noteq> 0"
    have "slot V (D i) k \<noteq> b" using slots_okD(7) [OF s, of k 268 i n] k assms(6) by auto
    then show "slot V' (D' i) k = slot V (D i) k \<and> V' (slot V (D i) k) = V (slot V (D i) k)" using assms(4,5) k by simp
  qed (use assms(3) in simp)
  then show ?thesis using assms(2) by (simp add: image_ok_def)
qed

lemma get_zeroes [simp]: "p + 4 \<le> 1024 \<Longrightarrow> get32 zeroes p = 0" "p + 2 \<le> 1024 \<Longrightarrow> get16 zeroes p = 0" "length zeroes = 1024"
proof -
  have n: "nat_of_le (replicate n 0) = 0" for n by (induction n) (simp_all add: nat_of_le_def)
  have "slice zeroes p m = replicate m 0" if "p + m \<le> 1024" for m using that by (simp add: zeroes_def slice_def)
  then show "p + 4 \<le> 1024 \<Longrightarrow> get32 zeroes p = 0" "p + 2 \<le> 1024 \<Longrightarrow> get16 zeroes p = 0" using n by (simp_all add: get32_def get16_def)
  show "length zeroes = 1024" by (simp add: zeroes_def)
qed

lemma image_direct:
  assumes "image_ok V E C F" "F \<le> 2001" "k < 12" "i_addrs (E n) ! k = 0"
  shows "image_ok V (E(n := (E n)\<lparr>i_addrs := (i_addrs (E n))[k := of_nat F]\<rparr>)) C (Suc F)" (is "image_ok V ?E C _")
proof -
  have s: "slots_ok V E F" using assms(1) by (simp add: image_ok_def)
  note l = slots_okD(5) [OF s]
  have z: "slot V (E n) k = 0" using assms(3,4) by (simp add: slot_def fblock_def)
  have sl: "\<forall>i k'. k' \<le> 268 \<longrightarrow> slot V (?E i) k' = (if i = n \<and> k' = k then of_nat F else slot V (E i) k')"
    using assms(3) l [of n] by (auto simp: slot_def fblock_def)
  have "slots_ok V ?E (Suc F)"
    by (rule slots_alloc [OF s assms(2) _ z _ _ _ sl]) (use assms(3) l slots_okD(3,4) [OF s] in auto)
  then show ?thesis
    by (rule image_alloc [OF assms(1), where b = 0 and n = n]) (use sl z in auto)
qed

lemma image_indirect:
  assumes "image_ok V E C F" "F \<le> 2001" "i_addrs (E n) ! 12 = 0"
  shows "image_ok V (E(n := (E n)\<lparr>i_addrs := (i_addrs (E n))[12 := of_nat F]\<rparr>)) C (Suc F)" (is "image_ok V ?E C _")
proof -
  have s: "slots_ok V E F" using assms(1) by (simp add: image_ok_def)
  note l = slots_okD(5) [OF s]
  have F: "unat (of_nat F :: uint) = F" using assms(2) by (simp add: unat_of_nat)
  have z: "slot V (E n) 268 = 0" using assms(3) by (simp add: slot_def)
  have v: "V (of_nat F) = zeroes" using slots_okD(4) [OF s, of "of_nat F"] F by simp
  have nz: "of_nat F \<noteq> (0 :: uint)" using F slots_okD(1) [OF s] by (metis not_numeral_le_zero unsigned_0)
  have sl: "\<forall>i k'. k' \<le> 268 \<longrightarrow> slot V (?E i) k' = (if i = n \<and> k' = 268 then of_nat F else slot V (E i) k')"
    using assms(3) l [of n] v nz by (auto simp: slot_def fblock_def)
  have "slots_ok V ?E (Suc F)"
    by (rule slots_alloc [OF s assms(2) _ z _ _ _ sl]) (use l slots_okD(3,4) [OF s] in auto)
  then show ?thesis
    by (rule image_alloc [OF assms(1), where b = 0 and n = n]) (use sl z in auto)
qed

lemma image_entry:
  assumes "image_ok V E C F" "F \<le> 2001" "12 \<le> k" "k < 268" "i_addrs (E n) ! 12 = b" "b \<noteq> 0" "get32 (V b) (4 * (k - 12)) = 0"
  shows "image_ok (V(b := put32 (V b) (4 * (k - 12)) (of_nat F))) E C (Suc F)" (is "image_ok ?V E C _")
proof -
  have s: "slots_ok V E F" using assms(1) by (simp add: image_ok_def)
  note d = slots_okD [OF s]
  have b: "slot V (E n) 268 = b" using assms(5) by (simp add: slot_def)
  have bF: "unat b < F" using d(6) [of 268 n] b assms(6) by simp
  have z: "slot V (E n) k = 0" using assms(3-7) by (simp add: slot_def fblock_def)
  have other: "i_addrs (E i) ! 12 \<noteq> b" if "i \<noteq> n" for i 
  proof
    assume "i_addrs (E i) ! 12 = b"
    then have "slot V (E n) 268 = slot V (E i) 268" using b by (simp add: slot_def)
    then show False using d(7) [of 268 268 n i] b assms(6) that by simp
  qed
  have g: "get32 (put32 (V b) (4 * (k - 12)) (of_nat F)) (4 * (k' - 12)) = (if k' = k then of_nat F else get32 (V b) (4 * (k' - 12)))"
    if "12 \<le> k'" "k' < 268" for k'
  proof (cases "k' = k")
    case False
    have "4 * (k' - 12) + 4 \<le> 4 * (k - 12) \<or> 4 * (k - 12) + 4 \<le> 4 * (k' - 12)" using that assms(3,4) False by linarith
    then show ?thesis using False that assms(3,4) d(3) [of b] by (simp add: get32_put32_other)
  qed (use that d(3) [of b] in simp)
  have "slot ?V (E i) k' = (if i = n \<and> k' = k then of_nat F else slot V (E i) k')" if k': "k' \<le> 268" for i k'
  proof -
    consider "k' = 268" | "k' < 12" | "12 \<le> k'" "k' < 268" using k' by linarith
    then show ?thesis
    proof cases
      case 3
      then show ?thesis using assms(5,6) other [of i] g [OF 3] by (cases "i = n") (simp_all add: slot_def fblock_def)
    qed (use assms(3,4) in \<open>simp_all add: slot_def fblock_def\<close>)
  qed
  then have sl: "\<forall>i k'. k' \<le> 268 \<longrightarrow> slot ?V (E i) k' = (if i = n \<and> k' = k then of_nat F else slot V (E i) k')" by blast
  have "slots_ok ?V E (Suc F)"
  proof (rule slots_alloc [OF s assms(2) _ z _ _ _ sl])
    show "\<forall>a. length (?V a) = 1024" using d(3) assms(3,4) by simp
    show "\<forall>a. F < unat a \<longrightarrow> ?V a = zeroes" using d(4) bF by auto
  qed (use assms(4) d(5) in auto)
  then show ?thesis
    by (rule image_alloc [OF assms(1), where b = b and n = n]) (use sl z b in auto)
qed

lemma sect_id [simp]: "unat a < 4194304 \<Longrightarrow> sect a = a"
proof -
  assume a: "unat a < 4194304"
  then have "unat (a * 1024) = unat a * 1024" by (simp add: unat_mult_lem [THEN iffD1])
  then show ?thesis by (intro unsigned_word_eqI [where 'a = nat]) (simp add: sect_def unat_div)
qed

lemma image_slot_nat: "image_ok V E C F \<Longrightarrow> k \<le> 268 \<Longrightarrow> unat (slot V (E i) k) < 2002"
  using slots_okD(2,6) by (cases "slot V (E i) k = 0") (fastforce simp: image_ok_def)+

text \<open>What the building steps leave alone: the size of the image, the superblock, the next inode number and the metadata blocks.\<close>

definition same_meta :: "mkfs \<Rightarrow> mkfs \<Rightarrow> bool" where
  "same_meta s s' \<longleftrightarrow> m_sectors s' = m_sectors s \<and> m_sb s' = m_sb s \<and> freeinode s' = freeinode s \<and> (\<forall>a. unat a < 46 \<longrightarrow> m_img s' a = m_img s a)"

lemma same_meta_trans: "same_meta s t \<Longrightarrow> same_meta t u \<Longrightarrow> same_meta s u"
  by (simp add: same_meta_def)

lemma small_word: "G \<le> 2002 \<Longrightarrow> unat (of_nat G :: uint) = G" "46 \<le> G \<Longrightarrow> G \<le> 2002 \<Longrightarrow> of_nat G \<noteq> (0 :: uint)"
proof -
  show u: "G \<le> 2002 \<Longrightarrow> unat (of_nat G :: uint) = G" by (simp add: unat_of_nat)
  show "46 \<le> G \<Longrightarrow> G \<le> 2002 \<Longrightarrow> of_nat G \<noteq> (0 :: uint)" using u by (metis not_numeral_le_zero unsigned_0)
qed

lemma size_addrs_swap [simp]: "x\<lparr>i_size := o1, i_addrs := a\<rparr> = x\<lparr>i_addrs := a, i_size := o1\<rparr>" for x :: inode
  by simp

lemma file_sector_direct:
  assumes "image_ok (m_img s) (D(n := din\<lparr>i_size := o1\<rparr>)) C F" "freeblock s = of_nat F" "F \<le> 2000" "k < 12" "file_sector k din s = Inr (y, din', s')"
  shows "\<exists>F'. image_ok (m_img s') (D(n := din'\<lparr>i_size := o1\<rparr>)) C F' \<and> freeblock s' = of_nat F' \<and> y = slot (m_img s') din' k \<and> y \<noteq> 0 \<and>
    (F' = F \<or> F' = Suc (unat y)) \<and> same_meta s s' \<and> din' = din\<lparr>i_addrs := i_addrs din'\<rparr>"
proof (cases "i_addrs din ! k = 0")
  case True
  let ?E = "D(n := din\<lparr>i_size := o1\<rparr>)"
  have l: "length (i_addrs din) = 13" using slots_okD(5) [of "m_img s" ?E F n] assms(1) by (simp add: image_ok_def)
  have F: "unat (of_nat F :: uint) = F" "46 \<le> F" using assms(1,3) slots_okD(1) by (auto simp: unat_of_nat image_ok_def)
  have e: "y = of_nat F" "din' = din\<lparr>i_addrs := (i_addrs din)[k := of_nat F]\<rparr>" "s' = s\<lparr>freeblock := of_nat F + 1\<rparr>"
    using assms(2,4,5) True l by (auto simp: file_sector_def)
  have "image_ok (m_img s) (?E(n := (?E n)\<lparr>i_addrs := (i_addrs (?E n))[k := of_nat F]\<rparr>)) C (Suc F)"
    by (rule image_direct [OF assms(1)]) (use assms(3,4) True in auto)
  moreover have "of_nat F \<noteq> (0 :: uint)" using F by (metis not_numeral_le_zero unsigned_0)
  ultimately show ?thesis using F l assms(4) unfolding e by (intro exI [of _ "Suc F"]) (simp add: same_meta_def slot_def fblock_def)
next
  case False
  then have e: "y = i_addrs din ! k" "din' = din" "s' = s" using assms(4,5) by (auto simp: file_sector_def)
  show ?thesis using assms(1,2,4) False unfolding e by (intro exI [of _ F]) (simp add: same_meta_def slot_def fblock_def)
qed

lemma file_sector_indirect:
  assumes "image_ok (m_img s) (D(n := din\<lparr>i_size := o1\<rparr>)) C F" "freeblock s = of_nat F" "F \<le> 2000" "12 \<le> k" "k < 268"
    "m_sectors s = 2000" "file_sector k din s = Inr (y, din', s')"
  shows "\<exists>F'. image_ok (m_img s') (D(n := din'\<lparr>i_size := o1\<rparr>)) C F' \<and> freeblock s' = of_nat F' \<and> y = slot (m_img s') din' k \<and> y \<noteq> 0 \<and>
    (F' = F \<or> F' = Suc (unat y)) \<and> same_meta s s' \<and> din' = din\<lparr>i_addrs := i_addrs din'\<rparr>"
proof -
  let ?E = "D(n := din\<lparr>i_size := o1\<rparr>)"
  have l: "length (i_addrs din) = 13" using slots_okD(5) [of "m_img s" ?E F n] assms(1) by (simp add: image_ok_def)
  have F46: "46 \<le> F" using assms(1) slots_okD(1) by (auto simp: image_ok_def)
  have F: "unat (of_nat G :: uint) = G" "46 \<le> G \<Longrightarrow> of_nat G \<noteq> (0 :: uint)" if "G \<le> 2001" for G
    using small_word [of G] that by auto
  define d1 G where "d1 = (if i_addrs din ! 12 = 0 then din\<lparr>i_addrs := (i_addrs din)[12 := of_nat F]\<rparr> else din)"
    and "G = (if i_addrs din ! 12 = 0 then Suc F else F)"
  define s1 where "s1 = (if i_addrs din ! 12 = 0 then s\<lparr>freeblock := freeblock s + 1\<rparr> else s)"
  have s1: "m_img s1 = m_img s" "m_sectors s1 = 2000" "freeblock s1 = of_nat G" using assms(2,6) by (simp_all add: s1_def G_def)
  have img: "image_ok (m_img s) (D(n := d1\<lparr>i_size := o1\<rparr>)) C G" and b0: "i_addrs d1 ! 12 \<noteq> 0"
    using assms(1) image_indirect [OF assms(1), of n] assms(3) l F [of F] F46 by (auto simp: d1_def G_def)
  define b where "b = i_addrs d1 ! 12"
  have bn: "unat b < 2002" using image_slot_nat [OF img, of 268 n] by (simp add: b_def slot_def)
  have e: "file_sector k din s = bind_res (rsect b s1) (\<lambda>indirect.
      if get32 indirect (4 * (k - 12)) = 0 then
        Inr (get32 (put32 indirect (4 * (k - 12)) (of_nat G)) (4 * (k - 12)), d1,
          wsect b (put32 indirect (4 * (k - 12)) (of_nat G)) (s1\<lparr>freeblock := of_nat G + 1\<rparr>))
      else Inr (get32 indirect (4 * (k - 12)), d1, s1))"
    using assms(2,4) by (cases "i_addrs din ! 12 = 0") (simp_all add: file_sector_def d1_def G_def s1_def b_def Let_def add.commute cong: if_cong)
  have bs: "unat b < 2000" and e': "rsect b s1 = Inr (m_img s b)" using assms(7) bn s1 unfolding e by (auto simp: rsect_def split: if_splits)
  have G: "G \<le> 2000"
  proof (cases "i_addrs din ! 12 = 0")
    case True
    then have "b = of_nat F" using l by (simp add: b_def d1_def)
    then show ?thesis using bs F(1) [of F] assms(3) True by (simp add: G_def)
  qed (simp add: G_def assms(3))
  have GF: "G = F \<or> get32 (m_img s b) (4 * (k - 12)) = 0"
  proof (cases "i_addrs din ! 12 = 0")
    case True
    then have "b = of_nat F" using l by (simp add: b_def d1_def)
    then have "m_img s b = zeroes" using slots_okD(4) [of "m_img s" ?E F b] assms(1,3) F(1) [of F] by (simp add: image_ok_def)
    then show ?thesis using assms(5) by simp
  qed (simp add: G_def)
  have len: "length (m_img s b) = 1024" using slots_okD(3) img unfolding image_ok_def by blast
  have k4: "4 * (k - 12) + 4 \<le> 1024" using assms(4,5) by simp
  have d1: "d1 = din\<lparr>i_addrs := i_addrs d1\<rparr>" and sm: "same_meta s s1" by (simp_all add: d1_def s1_def same_meta_def)
  have sl: "slot W d1 k = get32 (W b) (4 * (k - 12))" for W using assms(4,5) b0 by (simp add: slot_def fblock_def b_def)
  show ?thesis
  proof (cases "get32 (m_img s b) (4 * (k - 12)) = 0")
    case True
    let ?V = "(m_img s)(b := put32 (m_img s b) (4 * (k - 12)) (of_nat G))"
    have im: "image_ok ?V (D(n := d1\<lparr>i_size := o1\<rparr>)) C (Suc G)"
      by (rule image_entry [OF img]) (use G assms(4,5) b0 True in \<open>auto simp: b_def\<close>)
    have r: "y = of_nat G" "din' = d1" "s' = wsect b (put32 (m_img s b) (4 * (k - 12)) (of_nat G)) (s1\<lparr>freeblock := of_nat G + 1\<rparr>)"
      using assms(7) True len k4 unfolding e e' by auto
    have "46 \<le> unat b" using slots_okD(6) [of "m_img s" "D(n := d1\<lparr>i_size := o1\<rparr>)" G 268 n] img b0 by (simp add: image_ok_def slot_def b_def)
    then have m: "m_img s' = ?V" "freeblock s' = of_nat (Suc G)" "same_meta s s'"
      using r(3) bs s1 sm assms(6) by (auto simp: wsect_def same_meta_def)
    have "of_nat G \<noteq> (0 :: uint)" "unat (of_nat G :: uint) = G" using F [of G] G F46 by (auto simp: G_def split: if_splits)
    then show ?thesis using im m d1 r(1,2) sl [of ?V] len k4 by (intro exI [of _ "Suc G"]) simp
  next
    case False
    then have "y = get32 (m_img s b) (4 * (k - 12))" "din' = d1" "s' = s1" "G = F" using assms(7) GF unfolding e e' by auto
    then show ?thesis using img s1 False d1 sm sl by (intro exI [of _ F]) simp
  qed
qed

text \<open>Writing into a block of a file: the slots stay, and the file grows by the bytes written.\<close>

lemma slots_write:
  assumes "slots_ok V E F" "k < 268" "slot V (E n) k = y" "y \<noteq> 0" "length v = 1024"
  shows "k' \<le> 268 \<Longrightarrow> slot (V(y := v)) (E i) k' = slot V (E i) k'" "slots_ok (V(y := v)) E F"
proof -
  note d = slots_okD [OF assms(1)]
  have nb: "i_addrs (E i) ! 12 \<noteq> y" for i
  proof
    assume "i_addrs (E i) ! 12 = y"
    then have "slot V (E n) k = slot V (E i) 268" using assms(3) by (simp add: slot_def)
    then show False using d(7) [of k 268 n i] assms(2-4) by simp
  qed
  have "unat y < F" using d(6) [of k n] assms(2-4) by simp
  have sl: "slot (V(y := v)) (E i) k' = slot V (E i) k'" if "k' \<le> 268" for i k'
    using nb [of i] by (simp add: slot_def fblock_def)
  then show "k' \<le> 268 \<Longrightarrow> slot (V(y := v)) (E i) k' = slot V (E i) k'" .
  show "slots_ok (V(y := v)) E F"
  proof -
    have "\<forall>a. length ((V(y := v)) a) = 1024" "\<forall>a. F \<le> unat a \<longrightarrow> (V(y := v)) a = zeroes" using d(3,4) \<open>unat y < F\<close> assms(5) by auto
    then show ?thesis using assms(1) unfolding slots_ok_def file_consts by (simp only: sl cong: imp_cong) blast
  qed
qed

lemma image_write:
  assumes img: "image_ok V E C F" and k: "k = length (C n) div 1024" "k < 268" and y: "slot V (E n) k = y" "y \<noteq> 0"
    and q: "length (C n) mod 1024 + length q \<le> 1024"
  shows "image_ok (V(y := overwrite (V y) (length (C n) mod 1024) q)) (E(n := (E n)\<lparr>i_size := i_size (E n) + of_nat (length q)\<rparr>)) (C(n := C n @ q)) F"
    (is "image_ok ?V ?E ?C F")
proof -
  let ?c = "length (C n)" let ?v = "overwrite (V y) (?c mod 1024) q"
  have s: "slots_ok V E F" and h: "\<And>i. holds_bytes V (E i) (C i)" using img by (auto simp: image_ok_def)
  note d = slots_okD [OF s]
  have v: "length ?v = 1024" using q d(3) [of y] by simp
  note w = slots_write [OF s k(2) y v]
  have se: "slot W (?E i) k' = slot W (E i) k'" for W i k' by simp
  have ok: "slots_ok ?V ?E F" using w(2) by (simp add: slots_ok_def se)
  have c: "?c = 1024 * k + ?c mod 1024" using k(1) by simp
  have le: "?c + length q \<le> 274432" using c q k(2) by linarith
  have sz: "unat (i_size (E n)) = ?c" using h [of n] by (simp add: holds_bytes_def)
  have sz': "unat (i_size (E n) + of_nat (length q)) = ?c + length q" using sz le by (simp add: unat_word_ariths unat_of_nat)
  have other: "holds_bytes ?V (?E i) (?C i)" if "i \<noteq> n" for i
  proof -
    have "holds_bytes ?V (E i) (C i)"
    proof (rule holds_bytes_cong [OF h refl])
      fix k' assume k': "k' < 268" "slot V (E i) k' \<noteq> 0"
      have "slot V (E i) k' \<noteq> y" using d(7) [of k' k i n] k' k(2) y that by auto
      then show "slot ?V (E i) k' = slot V (E i) k' \<and> ?V (slot V (E i) k') = V (slot V (E i) k')" using w(1) k' by simp
    qed
    then show ?thesis using that by simp
  qed
  have byte: "slot ?V (E n) (j div 1024) \<noteq> 0 \<and> fbyte ?V (E n) j = (C n @ q) ! j" if j: "j < ?c + length q" for j
  proof -
    have jk: "j div 1024 < 268" using j le by simp
    have fb: "fbyte W (E n) j = W (slot W (E n) (j div 1024)) ! (j mod 1024)" for W using jk by (simp add: fbyte_def slot_def)
    have sv: "slot ?V (E n) (j div 1024) = slot V (E n) (j div 1024)" using w(1) jk by simp
    have "j div 1024 = k" if "\<not> j < ?c"
    proof -
      have "1024 * k \<le> j" "j < 1024 * k + 1024" using that j c q by linarith+
      then show ?thesis by simp
    qed
    then consider "j div 1024 \<noteq> k" "j < ?c" | "j div 1024 = k" by blast
    then show ?thesis
    proof cases
      case 1
      then have o: "slot V (E n) (j div 1024) \<noteq> 0" "fbyte V (E n) j = C n ! j" using h [of n] by (auto simp: holds_bytes_def)
      moreover have "slot V (E n) (j div 1024) \<noteq> y" using d(7) [of "j div 1024" k n n] o(1) 1 jk k(2) y by auto
      ultimately show ?thesis using 1 fb sv by (simp add: nth_append)
    next
      case 2
      have jm: "j = 1024 * k + j mod 1024" using 2 by auto
      have b: "fbyte ?V (E n) j = ?v ! (j mod 1024)" using fb sv 2 y by simp
      show ?thesis
      proof (cases "j < ?c")
        case True
        then have "fbyte V (E n) j = C n ! j" using h [of n] by (auto simp: holds_bytes_def)
        moreover have "j mod 1024 < ?c mod 1024" using True jm c by linarith
        ultimately show ?thesis using b fb [of V] 2 y sv True q d(3) [of y] by (simp add: nth_overwrite nth_append)
      next
        case False
        then have "j mod 1024 - ?c mod 1024 = j - ?c" "?c mod 1024 \<le> j mod 1024" "j mod 1024 < ?c mod 1024 + length q" using jm c j by linarith+
        then show ?thesis using b 2 y sv False q d(3) [of y] by (simp add: nth_overwrite nth_append)
      qed
    qed
  qed
  have "holds_bytes ?V (?E n) (?C n)" using byte sz' le by (simp add: holds_bytes_def)
  then show ?thesis using ok other unfolding image_ok_def by (metis (no_types, lifting))
qed

lemma block_words:
  fixes off :: uint
  assumes "unat off \<le> 274432"
  shows "unat (off div 1024) = unat off div 1024" "unat ((off div 1024 + 1) * 1024 - off) = 1024 - unat off mod 1024"
    "unat (off - off div 1024 * 1024) = unat off mod 1024"
proof -
  show d: "unat (off div 1024) = unat off div 1024" by (simp add: unat_div)
  define k m where "k = unat off div 1024" and "m = unat off mod 1024"
  have m: "m < 1024" by (simp add: m_def)
  have "unat off = 1024 * k + m" by (simp add: k_def m_def)
  then have "of_nat (unat off) = (of_nat (1024 * k + m) :: uint)" by (rule arg_cong)
  then have off: "off = 1024 * of_nat k + of_nat m" by simp
  have dk: "off div 1024 = of_nat k" unfolding k_def d [symmetric] by simp
  have "(off div 1024 + 1) * 1024 - off = 1024 - of_nat m" unfolding dk unfolding off by (simp add: algebra_simps)
  also have "\<dots> = of_nat (1024 - m)" using m by (simp add: of_nat_diff)
  finally have e: "(off div 1024 + 1) * 1024 - off = of_nat (1024 - m)" .
  show "unat ((off div 1024 + 1) * 1024 - off) = 1024 - unat off mod 1024" unfolding e m_def [symmetric]
    by (rule small_word(1)) simp
  have e: "off - off div 1024 * 1024 = of_nat m" unfolding dk unfolding off by (simp add: algebra_simps)
  show "unat (off - off div 1024 * 1024) = unat off mod 1024" unfolding e using m by (simp add: unat_of_nat m_def)
qed

lemma file_sector_ok:
  assumes "image_ok (m_img s) (D(n := din\<lparr>i_size := o1\<rparr>)) C F" "freeblock s = of_nat F" "F \<le> 2000" "k < 268" "m_sectors s = 2000"
    "file_sector k din s = Inr (y, din', s')"
  shows "\<exists>F'. image_ok (m_img s') (D(n := din'\<lparr>i_size := o1\<rparr>)) C F' \<and> freeblock s' = of_nat F' \<and> y = slot (m_img s') din' k \<and> y \<noteq> 0 \<and>
    (F' = F \<or> F' = Suc (unat y)) \<and> same_meta s s' \<and> din' = din\<lparr>i_addrs := i_addrs din'\<rparr>"
  using file_sector_direct [OF assms(1-3) _ assms(6)] file_sector_indirect [OF assms(1-3) _ assms(4,5,6)] by (cases "k < 12") auto

lemma iappend_loop_ok:
  assumes "image_ok (m_img s) (D(n := din\<lparr>i_size := off\<rparr>)) C F" "freeblock s = of_nat F" "F \<le> 2000" "m_sectors s = 2000"
    "iappend_loop p off din s = Inr (off', din', s')"
  shows "\<exists>F'. image_ok (m_img s') (D(n := din'\<lparr>i_size := off'\<rparr>)) (C(n := C n @ p)) F' \<and> freeblock s' = of_nat F' \<and> F' \<le> 2000 \<and>
    same_meta s s' \<and> din' = din\<lparr>i_addrs := i_addrs din'\<rparr>"
  using assms
proof (induction p arbitrary: off din s C F rule: length_induct)
  case (1 p)
  note prems = "1.prems"
  show ?case
  proof (cases "p = []")
    case True
    then have "off' = off" "din' = din" "s' = s" using prems(5) by (auto simp: iappend_loop.simps)
    then show ?thesis using True prems by (intro exI [of _ F]) (simp add: same_meta_def)
  next
    case False
    let ?c = "length (C n)" let ?k = "?c div 1024" let ?E = "D(n := din\<lparr>i_size := off\<rparr>)"
    have h: "holds_bytes (m_img s) (?E n) (C n)" using prems(1) by (simp only: image_ok_def)
    then have c: "unat off = ?c" "?c \<le> 274432" by (simp_all add: holds_bytes_def)
    then have "unat off \<le> 274432" by simp
    note w = block_words [OF this, unfolded c(1)]
    define n1 where "n1 = min (length p) (1024 - ?c mod 1024)"
    have n1: "0 < n1" "?c mod 1024 + n1 \<le> 1024" "n1 \<le> length p" using False by (auto simp: n1_def)
    have k: "?k < 268" using prems(5) False w(1) by (subst (asm) iappend_loop.simps) (simp add: Let_def split: if_splits)
    obtain y d1 s1 buf where fs: "file_sector ?k din s = Inr (y, d1, s1)" and rs: "rsect y s1 = Inr buf"
      and rest: "iappend_loop (drop n1 p) (off + of_nat n1) d1 (wsect y (overwrite buf (?c mod 1024) (take n1 p)) s1) = Inr (off', din', s')"
      using prems(5) False k w by (subst (asm) iappend_loop.simps) (auto simp: Let_def bind_res_Inr_iff n1_def)
    obtain F1 where F1: "image_ok (m_img s1) (D(n := d1\<lparr>i_size := off\<rparr>)) C F1" "freeblock s1 = of_nat F1" "y = slot (m_img s1) d1 ?k" "y \<noteq> 0"
      "F1 = F \<or> F1 = Suc (unat y)" "same_meta s s1" "d1 = din\<lparr>i_addrs := i_addrs d1\<rparr>"
      using file_sector_ok [OF prems(1-3) k prems(4) fs] by blast
    have y: "unat y < 2002" using image_slot_nat [OF F1(1), of ?k n] k F1(3) by simp
    have m1: "m_sectors s1 = 2000" using F1(6) prems(4) by (simp add: same_meta_def)
    have y2: "unat y < 2000" and buf: "buf = m_img s1 y" using rs y m1 by (auto simp: rsect_def split: if_splits)
    have F1le: "F1 \<le> 2000" using F1(5) prems(3) y2 by auto
    let ?V = "(m_img s1)(y := overwrite (m_img s1 y) (?c mod 1024) (take n1 p))"
    define s2 where "s2 = wsect y (overwrite buf (?c mod 1024) (take n1 p)) s1"
    have "46 \<le> unat y" using slots_okD(6) [of "m_img s1" "D(n := d1\<lparr>i_size := off\<rparr>)" F1 ?k n] F1(1,3,4) k by (simp add: image_ok_def)
    then have s2: "m_img s2 = ?V" "m_sectors s2 = 2000" "freeblock s2 = of_nat F1" "same_meta s1 s2"
      using y2 m1 F1(2) by (auto simp: s2_def wsect_def buf same_meta_def)
    have "image_ok ?V ((D(n := d1\<lparr>i_size := off\<rparr>))(n := ((D(n := d1\<lparr>i_size := off\<rparr>)) n)\<lparr>i_size := i_size ((D(n := d1\<lparr>i_size := off\<rparr>)) n) + of_nat (length (take n1 p))\<rparr>))
        (C(n := C n @ take n1 p)) F1"
      by (rule image_write [OF F1(1) refl k _ F1(4)]) (use n1 F1(3) in auto)
    then have im: "image_ok (m_img s2) (D(n := d1\<lparr>i_size := off + of_nat n1\<rparr>)) (C(n := C n @ take n1 p)) F1" using s2(1) n1(3) by (simp add: min_absorb2)
    have "length (drop n1 p) < length p" using n1 by simp
    from "1.IH" [rule_format, OF this im s2(3) F1le s2(2)] rest obtain F' where
      F': "image_ok (m_img s') (D(n := din'\<lparr>i_size := off'\<rparr>)) (C(n := C n @ p)) F'" "freeblock s' = of_nat F'" "F' \<le> 2000"
      "same_meta s2 s'" "din' = d1\<lparr>i_addrs := i_addrs din'\<rparr>" by (auto simp: s2_def)
    have "din' = din\<lparr>i_addrs := i_addrs din'\<rparr>" using F'(5) F1(7) by (metis inode.surjective inode.update_convs(11))
    then show ?thesis using F' same_meta_trans [OF same_meta_trans [OF F1(6) s2(4)] F'(4)] by blast
  qed
qed

section \<open>The inodes in the image\<close>

definition disk_inode :: "blocks \<Rightarrow> nat \<Rightarrow> inode" where
  "disk_inode V i = (if i < 208 then load_dinode (V (IBLOCK (of_nat i) mkfs_sb)) (dinode_off (of_nat i)) zero_dinode else zero_dinode)"

lemma sb_values: "sb_inodestart mkfs_sb = 32" "sb_bmapstart mkfs_sb = 45" "sb_size mkfs_sb = 2000" "sb_magic mkfs_sb = FSMAGIC"
  "sb_logstart mkfs_sb = 2" "sb_nlog mkfs_sb = 30" "sb_nblocks mkfs_sb = 1954" "sb_ninodes mkfs_sb = 200"
  by (simp_all add: mkfs_sb_def nlog_def ninodeblocks_def nbitmap_def LOGSIZE_def NINODES_def IPB_def FSSIZE_def)

lemma iblock_val:
  assumes "i < 208"
  shows "IBLOCK (of_nat i) mkfs_sb = of_nat (32 + i div 16)" "dinode_off (of_nat i) = 64 * (i mod 16)" "unat (IBLOCK (of_nat i) mkfs_sb) = 32 + i div 16"
proof -
  have u: "unat (of_nat i :: uint) = i" using assms by (simp add: unat_of_nat)
  have "(of_nat i :: uint) div 16 = of_nat (i div 16)"
    by (rule unsigned_word_eqI [where 'a = nat]) (use u assms in \<open>simp add: unat_div unat_of_nat\<close>)
  then show e: "IBLOCK (of_nat i) mkfs_sb = of_nat (32 + i div 16)" by (simp add: IBLOCK_def IPB_def sb_values add.commute)
  show "unat (IBLOCK (of_nat i) mkfs_sb) = 32 + i div 16" unfolding e using assms by (simp only: unat_of_nat) simp
  show "dinode_off (of_nat i) = 64 * (i mod 16)" using u by (simp add: dinode_off_def DINODE_SIZE_def IPB_def unat_mod)
qed

text \<open>An inode record that holds only what is on disk.\<close>

definition on_disk :: "inode \<Rightarrow> bool" where
  "on_disk x \<longleftrightarrow> length (i_addrs x) = 13 \<and> zero_dinode\<lparr>i_type := i_type x, i_major := i_major x, i_minor := i_minor x, i_nlink := i_nlink x,
     i_size := i_size x, i_addrs := i_addrs x\<rparr> = x"

lemma on_disk_load: "on_disk (load_dinode d p zero_dinode)" "on_disk zero_dinode"
  by (simp_all add: on_disk_def load_dinode_def zero_dinode_def del: upt_Suc)

lemma on_disk_upd: "on_disk x \<Longrightarrow> length a = 13 \<Longrightarrow> on_disk (x\<lparr>i_addrs := a, i_size := n\<rparr>)" "on_disk x \<Longrightarrow> on_disk (x\<lparr>i_size := n\<rparr>)"
  "on_disk x \<Longrightarrow> on_disk (x\<lparr>i_type := ty, i_nlink := l, i_size := n\<rparr>)"
  by (cases x; simp add: on_disk_def zero_dinode_def)+

lemma on_disk_inode: "on_disk (disk_inode V i)"
  by (simp add: disk_inode_def on_disk_load)

lemma disk_inode_cong: "(\<And>a. 32 \<le> unat a \<Longrightarrow> unat a < 45 \<Longrightarrow> V' a = V a) \<Longrightarrow> disk_inode V' = disk_inode V"
  using iblock_val(3) by (auto simp: disk_inode_def fun_eq_iff)

lemma disk_inode_write:
  assumes "n < 208" "on_disk x" "\<forall>a. length (V a) = 1024"
  defines "b \<equiv> IBLOCK (of_nat n) mkfs_sb"
  shows "disk_inode (V(b := store_dinode (V b) (dinode_off (of_nat n)) x)) = (disk_inode V)(n := x)"
proof
  fix i
  let ?V = "V(b := store_dinode (V b) (dinode_off (of_nat n)) x)"
  have o: "dinode_off (of_nat n) + 64 \<le> length (V b)" using assms(3) dinode_off_less by simp
  have l: "length (i_addrs x) = 13" using assms(2) by (simp add: on_disk_def)
  consider "i = n" | "i \<noteq> n" "i < 208" "i div 16 = n div 16" | "i \<noteq> n" "i < 208" "i div 16 \<noteq> n div 16" | "i \<noteq> n" "\<not> i < 208" by blast
  then show "disk_inode ?V i = ((disk_inode V)(n := x)) i"
  proof cases
    case 1
    then show ?thesis using assms(1,2) load_store_dinode(1) [OF o l, of zero_dinode] by (simp add: disk_inode_def b_def on_disk_def)
  next
    case 2
    then have "i mod 16 \<noteq> n mod 16" by (metis div_mult_mod_eq)
    then have p: "dinode_off (of_nat i) + 64 \<le> dinode_off (of_nat n) \<or> dinode_off (of_nat n) + 64 \<le> dinode_off (of_nat i)"
      using iblock_val(2) [OF assms(1)] iblock_val(2) [OF 2(2)] by linarith
    have b: "IBLOCK (of_nat i) mkfs_sb = b" using iblock_val(1) [OF assms(1)] iblock_val(1) [OF 2(2)] 2(3) by (simp add: b_def)
    have "dinode_off (of_nat i) + 64 \<le> length (V b)" using assms(3) dinode_off_less by simp
    then show ?thesis using 2 b load_store_dinode(3) [OF o l _ p, of zero_dinode] by (simp add: disk_inode_def)
  next
    case 3
    then have "IBLOCK (of_nat i) mkfs_sb \<noteq> b" using iblock_val(3) [OF assms(1)] iblock_val(3) [OF 3(2)] by (auto simp: b_def)
    then show ?thesis using 3 by (simp add: disk_inode_def)
  qed (auto simp: disk_inode_def assms(1))
qed

lemma image_meta:
  assumes "image_ok V E C F" "\<And>a. 46 \<le> unat a \<Longrightarrow> V' a = V a" "\<And>a. length (V' a) = 1024"
  shows "image_ok V' E C F"
proof -
  have s: "slots_ok V E F" and h: "\<And>i. holds_bytes V (E i) (C i)" using assms(1) by (auto simp: image_ok_def)
  note d = slots_okD [OF s]
  have "V' (i_addrs (E i) ! 12) = V (i_addrs (E i) ! 12)" if "i_addrs (E i) ! 12 \<noteq> 0" for i
    using d(6) [of 268 i] that assms(2) by (simp add: slot_def)
  then have sl: "slot V' (E i) k = slot V (E i) k" for i k by (simp add: slot_def fblock_def)
  have "\<forall>a. F \<le> unat a \<longrightarrow> V' a = zeroes" using d(1,4) assms(2) by auto
  then have "slots_ok V' E F" using s assms(3) by (simp add: slots_ok_def sl)
  moreover have "holds_bytes V' (E i) (C i)" for i
    by (rule holds_bytes_cong [OF h refl]) (use sl d(6) assms(2) in auto)
  ultimately show ?thesis by (simp add: image_ok_def)
qed

definition built :: "mkfs \<Rightarrow> (nat \<Rightarrow> uint8 list) \<Rightarrow> nat \<Rightarrow> bool" where
  "built s C F \<longleftrightarrow> m_sectors s = 2000 \<and> m_sb s = mkfs_sb \<and> freeblock s = of_nat F \<and> F \<le> 2000 \<and> image_ok (m_img s) (disk_inode (m_img s)) C F \<and>
     m_img s 1 = encode_sb mkfs_sb zeroes \<and> (\<forall>a. 2 \<le> unat a \<and> unat a < 32 \<or> unat a = 45 \<longrightarrow> m_img s a = zeroes)"

lemma built_length: "built s C F \<Longrightarrow> length (m_img s a) = 1024"
  unfolding built_def image_ok_def using slots_okD(3) by blast

lemma winode_ok:
  assumes "n < 208" "m_sectors s = 2000" "m_sb s = mkfs_sb" "\<forall>a. length (m_img s a) = 1024" "on_disk x"
  shows "\<exists>s'. winode (of_nat n) x s = Inr s' \<and> disk_inode (m_img s') = (disk_inode (m_img s))(n := x) \<and> (\<forall>a. length (m_img s' a) = 1024) \<and>
    (\<forall>a. \<not> (32 \<le> unat a \<and> unat a < 45) \<longrightarrow> m_img s' a = m_img s a) \<and> m_sectors s' = 2000 \<and> m_sb s' = mkfs_sb \<and> freeinode s' = freeinode s \<and> freeblock s' = freeblock s"
proof -
  let ?b = "IBLOCK (of_nat n) mkfs_sb" let ?v = "store_dinode (m_img s ?b) (dinode_off (of_nat n)) x"
  have b: "unat ?b = 32 + n div 16" "unat ?b < 45" using iblock_val(3) [OF assms(1)] assms(1) by auto
  have v: "length ?v = 1024"
    using load_store_dinode(2) [of "dinode_off (of_nat n)" "m_img s ?b" x] dinode_off_less [of "of_nat n"] assms(4,5) by (simp add: on_disk_def)
  have e: "winode (of_nat n) x s = Inr (s\<lparr>m_img := (m_img s)(?b := ?v)\<rparr>)"
    using b assms(2,3) by (simp add: winode_def rsect_def wsect_def Let_def)
  show ?thesis unfolding e using disk_inode_write [OF assms(1,5,4)] b v assms(2-4) 
    by (intro exI [of _ "s\<lparr>m_img := (m_img s)(?b := ?v)\<rparr>"]) auto
qed

lemma iappend_ok:
  assumes "built s C F" "n < 208" "iappend (of_nat n) p s = Inr s'"
  shows "\<exists>F'. built s' (C(n := C n @ p)) F' \<and> freeinode s' = freeinode s \<and> (\<forall>i. i_type (disk_inode (m_img s') i) = i_type (disk_inode (m_img s) i))"
proof -
  let ?D = "disk_inode (m_img s)"
  have b: "m_sectors s = 2000" "m_sb s = mkfs_sb" "freeblock s = of_nat F" "F \<le> 2000" "image_ok (m_img s) ?D C F" using assms(1) by (simp_all add: built_def)
  have "unat (IBLOCK (of_nat n) mkfs_sb) < 2000" using iblock_val(3) [OF assms(2)] assms(2) by simp
  then have "rinode (of_nat n) s = Inr (?D n)" using b assms(2) by (simp add: rinode_def rsect_def disk_inode_def)
  then obtain off din s1 where lp: "iappend_loop p (i_size (?D n)) (?D n) s = Inr (off, din, s1)"
    and w: "winode (of_nat n) (din\<lparr>i_size := off\<rparr>) s1 = Inr s'" using assms(3) by (auto simp: iappend_def bind_res_Inr_iff)
  have "image_ok (m_img s) (?D(n := (?D n)\<lparr>i_size := i_size (?D n)\<rparr>)) C F" using b(5) by simp
  from iappend_loop_ok [OF this b(3,4,1) lp] obtain F' where F': "image_ok (m_img s1) (?D(n := din\<lparr>i_size := off\<rparr>)) (C(n := C n @ p)) F'"
    "freeblock s1 = of_nat F'" "F' \<le> 2000" "same_meta s s1" "din = (?D n)\<lparr>i_addrs := i_addrs din\<rparr>" by blast
  have sm: "m_sectors s1 = 2000" "m_sb s1 = mkfs_sb" "freeinode s1 = freeinode s" "\<And>a. unat a < 46 \<Longrightarrow> m_img s1 a = m_img s a"
    using F'(4) b(1,2) by (auto simp: same_meta_def)
  have s1: "slots_ok (m_img s1) (?D(n := din\<lparr>i_size := off\<rparr>)) F'" using F'(1) by (simp only: image_ok_def)
  have l1: "\<forall>a. length (m_img s1 a) = 1024" "length (i_addrs din) = 13" using slots_okD(3) [OF s1] slots_okD(5) [OF s1, of n] by auto
  have od: "on_disk (din\<lparr>i_size := off\<rparr>)" using F'(5) on_disk_upd(1) [OF on_disk_inode [of "m_img s" n] l1(2), of off] by metis
  have D1: "disk_inode (m_img s1) = ?D" by (rule disk_inode_cong) (use sm(4) in auto)
  from winode_ok [OF assms(2) sm(1,2) l1(1) od] w have s': "disk_inode (m_img s') = ?D(n := din\<lparr>i_size := off\<rparr>)"
    "\<forall>a. length (m_img s' a) = 1024" "\<And>a. \<not> (32 \<le> unat a \<and> unat a < 45) \<Longrightarrow> m_img s' a = m_img s1 a" "m_sectors s' = 2000" "m_sb s' = mkfs_sb"
    "freeinode s' = freeinode s" "freeblock s' = of_nat F'" using D1 sm(3) F'(2) by auto
  have "image_ok (m_img s') (disk_inode (m_img s')) (C(n := C n @ p)) F'" unfolding s'(1)
    by (rule image_meta [OF F'(1)]) (use s'(2,3) in auto)
  moreover have "m_img s' a = m_img s a" if "unat a < 32 \<or> unat a = 45" for a using s'(3) [of a] sm(4) [of a] that by auto
  moreover have "i_type din = i_type (?D n)" by (subst F'(5)) simp
  ultimately show ?thesis using assms(1) s' F'(3) unfolding built_def by (intro exI [of _ F']) auto
qed

lemma slots_drop:
  assumes "slots_ok V E F" "\<And>i. length (i_addrs (E' i)) = 13" "\<And>i k. k \<le> 268 \<Longrightarrow> slot V (E' i) k = 0 \<or> slot V (E' i) k = slot V (E i) k"
  shows "slots_ok V E' F"
proof -
  note d = slots_okD [OF assms(1)]
  have "46 \<le> unat (slot V (E' i) k) \<and> unat (slot V (E' i) k) < F" if "k \<le> 268" "slot V (E' i) k \<noteq> 0" for i k
    using assms(3) [OF that(1)] that d(6) [OF that(1)] by metis
  moreover have "i = i' \<and> k = k'" if "k \<le> 268" "k' \<le> 268" "slot V (E' i) k \<noteq> 0" "slot V (E' i) k = slot V (E' i') k'" for i k i' k'
    using assms(3) [OF that(1), of i] assms(3) [OF that(2), of i'] that d(7) [OF that(1,2)] by metis
  ultimately show ?thesis unfolding slots_ok_def file_consts using d(1-4) assms(2) by blast
qed

lemma mkfs_ialloc_ok:
  assumes "built s C F" "freeinode s = of_nat n" "n < 208" "mkfs_ialloc ty s = Inr (m, s')"
  shows "m = of_nat n" "built s' (C(n := [])) F" "freeinode s' = of_nat (Suc n)" "disk_inode (m_img s') = (disk_inode (m_img s))(n := disk_inode (m_img s') n)"
    "i_type (disk_inode (m_img s') n) = ty"
proof -
  let ?x = "zero_dinode\<lparr>i_type := ty, i_nlink := 1, i_size := 0\<rparr>" let ?t = "s\<lparr>freeinode := of_nat n + 1\<rparr>"
  have b: "m_sectors s = 2000" "m_sb s = mkfs_sb" "image_ok (m_img s) (disk_inode (m_img s)) C F" using assms(1) by (simp_all add: built_def)
  have t: "m_sectors ?t = 2000" "m_sb ?t = mkfs_sb" "\<forall>a. length (m_img ?t a) = 1024" using b built_length [OF assms(1)] by simp_all
  obtain u where u: "winode (of_nat n) ?x ?t = Inr u" "disk_inode (m_img u) = (disk_inode (m_img s))(n := ?x)" "\<forall>a. length (m_img u a) = 1024"
    "\<forall>a. \<not> (32 \<le> unat a \<and> unat a < 45) \<longrightarrow> m_img u a = m_img s a" "m_sectors u = 2000" "m_sb u = mkfs_sb" "freeinode u = of_nat n + 1" "freeblock u = freeblock s"
    using winode_ok [OF assms(3) t on_disk_upd(3) [OF on_disk_load(2), where ty = ty and l = 1 and n = 0]] by auto
  have r: "m = of_nat n" "s' = u" using assms(2,4) u(1) by (auto simp: mkfs_ialloc_def Let_def)
  show "m = of_nat n" "freeinode s' = of_nat (Suc n)" using r u(7) by (simp_all add: add.commute)
  show "disk_inode (m_img s') = (disk_inode (m_img s))(n := disk_inode (m_img s') n)" "i_type (disk_inode (m_img s') n) = ty" using r u(2) by simp_all
  have s0: "slot V ?x k = 0" if "k \<le> 268" for V k using that by (simp add: slot_def fblock_def zero_dinode_def)
  have s: "slots_ok (m_img s) (disk_inode (m_img s)) F" and h: "\<And>i. holds_bytes (m_img s) (disk_inode (m_img s) i) (C i)" using b(3) by (auto simp: image_ok_def)
  have "slots_ok (m_img s) ((disk_inode (m_img s))(n := ?x)) F"
    by (rule slots_drop [OF s]) (use s0 slots_okD(5) [OF s] in \<open>auto simp: zero_dinode_def\<close>)
  then have "image_ok (m_img s) ((disk_inode (m_img s))(n := ?x)) (C(n := [])) F"
    using h by (simp add: image_ok_def) (simp add: holds_bytes_def)
  then have "image_ok (m_img u) (disk_inode (m_img u)) (C(n := [])) F" unfolding u(2) by (rule image_meta) (use u(3,4) in auto)
  then show "built s' (C(n := [])) F" using assms(1) u r unfolding built_def by auto
qed

section \<open>The whole run\<close>

lemma load_zeroes: "p + 64 \<le> 1024 \<Longrightarrow> load_dinode zeroes p zero_dinode = zero_dinode"
proof -
  assume p: "p + 64 \<le> 1024"
  then have "map (\<lambda>k. get32 zeroes (p + 12 + 4 * k)) [0..<13] = replicate 13 0" by (intro nth_equalityI) auto
  then show ?thesis using p by (simp add: load_dinode_def zero_dinode_def del: upt_Suc)
qed

lemma fold_zero_sectors:
  "k \<le> 2000 \<Longrightarrow> m_img s = (\<lambda>_. zeroes) \<Longrightarrow> m_sectors s = 0 \<Longrightarrow> fold (\<lambda>i. wsect (of_nat i) zeroes) [0..<k] s = s\<lparr>m_sectors := k\<rparr>"
proof (induction k)
  case (Suc k)
  then have "unat (of_nat k :: uint) = k" by (simp add: small_word)
  then show ?case using Suc by (simp add: wsect_def fun_upd_idem)
qed (metis fold_Nil id_apply mkfs.surjective mkfs.update_convs(2) upt_0)

lemma slice_fields:
  assumes "\<forall>x \<in> set xs. length (f x) = 4" "j < length xs"
  shows "take 4 (drop (4 * j) (concat (map f xs) @ r)) = f (xs ! j)"
  using assms
proof (induction xs arbitrary: j)
  case (Cons x xs)
  then show ?case by (cases j) auto
qed simp

lemma decode_encode_sb: "length d = 1024 \<Longrightarrow> decode_sb (encode_sb su d) = su" "length d = 1024 \<Longrightarrow> length (encode_sb su d) = 1024"
proof -
  assume d: "length d = 1024"
  let ?fs = "[sb_magic su, sb_size su, sb_nblocks su, sb_ninodes su, sb_nlog su, sb_logstart su, sb_inodestart su, sb_bmapstart su]"
  have g: "get32 (encode_sb su d) (4 * j) = ?fs ! j" if "j < 8" for j
  proof -
    have "slice (encode_sb su d) (4 * j) 4 = le_of_nat 4 (unat (?fs ! j))"
      using slice_fields [of ?fs "\<lambda>v. le_of_nat 4 (unat v)" j] that by (simp add: slice_def encode_sb_def overwrite_def)
    then show ?thesis using unsigned_less [where 'a = nat, of "?fs ! j"] by (simp add: get32_def nat_of_le_le_of_nat)
  qed
  show "decode_sb (encode_sb su d) = su"
    using g [of 0] g [of 1] g [of 2] g [of 3] g [of 4] g [of 5] g [of 6] g [of 7] by (simp add: decode_sb_def)
  show "length (encode_sb su d) = 1024" using d by (simp add: encode_sb_def)
qed

lemma start_built: "built mkfs_start (\<lambda>_. []) 46" "freeinode mkfs_start = 1"
proof -
  let ?V = "(\<lambda>_. zeroes)(1 := encode_sb mkfs_sb zeroes)"
  have n: "2 + nlog + ninodeblocks + nbitmap = 46" by (simp add: nlog_def ninodeblocks_def nbitmap_def LOGSIZE_def NINODES_def IPB_def FSSIZE_def)
  have e: "mkfs_start = \<lparr>m_img = ?V, m_sectors = 2000, m_sb = mkfs_sb, freeinode = 1, freeblock = 46\<rparr>"
    unfolding mkfs_start_def Let_def n using fold_zero_sectors [of 2000] by (simp add: FSSIZE_def wsect_def)
  have D: "disk_inode ?V i = zero_dinode" for i
    using load_zeroes [of "dinode_off (of_nat i)"] dinode_off_less [of "of_nat i"] iblock_val(3) [of i] by (auto simp: disk_inode_def)
  have sl: "slot V zero_dinode k = 0" if "k \<le> 268" for V k using that by (simp add: slot_def fblock_def zero_dinode_def)
  have "slots_ok ?V (disk_inode ?V) 46"
    unfolding slots_ok_def file_consts D using sl decode_encode_sb(2) by (auto simp: zero_dinode_def)
  moreover have "holds_bytes ?V (disk_inode ?V i) []" for i unfolding D by (simp add: holds_bytes_def zero_dinode_def)
  ultimately show "built mkfs_start (\<lambda>_. []) 46" unfolding built_def e image_ok_def by auto
  show "freeinode mkfs_start = 1" by (simp add: e)
qed

text \<open>The 14 bytes of a name in a directory entry.\<close>

definition name_bytes :: "uint8 list \<Rightarrow> uint8 list" where
  "name_bytes nm = take 14 (cstr (nm @ [0])) @ replicate (14 - length (cstr (nm @ [0]))) 0"

lemma strncpy_name: "strncpy (nm @ [0]) DIRSIZ = Inr (name_bytes nm)"
  using strncpy_value [of "nm @ [0]" 14] by (simp add: name_bytes_def DIRSIZ_def)

lemma pieces_ok:
  assumes "built s C F" "n < 208" "fold_res (iappend (of_nat n)) ps s = Inr s'"
  shows "\<exists>F'. built s' (C(n := C n @ concat ps)) F' \<and> freeinode s' = freeinode s \<and> (\<forall>i. i_type (disk_inode (m_img s') i) = i_type (disk_inode (m_img s) i))"
  using assms
proof (induction ps arbitrary: s C F)
  case (Cons p ps)
  obtain s1 where s1: "iappend (of_nat n) p s = Inr s1" "fold_res (iappend (of_nat n)) ps s1 = Inr s'" using Cons.prems(3) by (auto simp: bind_res_Inr_iff)
  obtain F1 where F1: "built s1 (C(n := C n @ p)) F1" "freeinode s1 = freeinode s" "\<forall>i. i_type (disk_inode (m_img s1) i) = i_type (disk_inode (m_img s) i)"
    using iappend_ok [OF Cons.prems(1,2) s1(1)] by blast
  have e: "(C(n := C n @ p))(n := (C(n := C n @ p)) n @ concat ps) = C(n := C n @ concat (p # ps))" by simp
  show ?case using Cons.IH [OF F1(1) Cons.prems(2) s1(2)] F1(2,3) unfolding e by (simp only: simp_thms)
qed auto

text \<open>What the files on the command line amount to: the name each one gets, and the bytes the root directory and the file hold.\<close>

definition file_name :: "input_file \<Rightarrow> uint8 list" where
  "file_name f = (case shortname (fst f) of Inr nm \<Rightarrow> nm | Inl e \<Rightarrow> [])"

fun dir_entries :: "nat \<Rightarrow> input_file list \<Rightarrow> uint8 list" where
  "dir_entries n [] = []"
| "dir_entries n (f # fs) = dirent_bytes (of_nat n) (name_bytes (file_name f)) @ dir_entries (Suc n) fs"

fun with_files :: "nat \<Rightarrow> input_file list \<Rightarrow> (nat \<Rightarrow> uint8 list) \<Rightarrow> nat \<Rightarrow> uint8 list" where
  "with_files n [] C = C"
| "with_files n (f # fs) C = with_files (Suc n) fs (C(n := concat (snd f)))"

lemma with_files_value: "with_files n fs C i = (if n \<le> i \<and> i < n + length fs then concat (snd (fs ! (i - n))) else C i)"
  by (induction fs arbitrary: n C) (auto simp: nth_Cons' Suc_diff_le)

lemma add_file_ok:
  assumes "built s C F" "freeinode s = of_nat n" "2 \<le> n" "n < 208" "add_file f s = Inr s'"
  shows "\<exists>F'. built s' (C(1 := C 1 @ dirent_bytes (of_nat n) (name_bytes (file_name f)), n := concat (snd f))) F' \<and> freeinode s' = of_nat (Suc n) \<and>
    (\<forall>i. i_type (disk_inode (m_img s') i) = (if i = n then T_FILE else i_type (disk_inode (m_img s) i)))"
proof -
  obtain arg ps where f: "f = (arg, ps)" by force
  obtain nm m s1 s2 where nm: "shortname arg = Inr nm" and al: "mkfs_ialloc T_FILE s = Inr (m, s1)"
    and ap: "iappend ROOTINO (dirent_bytes m (name_bytes nm)) s1 = Inr s2" and fo: "fold_res (iappend m) ps s2 = Inr s'"
    using assms(5) by (auto simp: add_file_def f bind_res_Inr_iff strncpy_name)
  note a = mkfs_ialloc_ok [OF assms(1,2,4) al]
  have ty1: "i_type (disk_inode (m_img s1) i) = (if i = n then T_FILE else i_type (disk_inode (m_img s) i))" for i
    using a(5) by (subst a(4)) simp
  have r1: "ROOTINO = of_nat 1" by (simp add: ROOTINO_def)
  obtain F2 where F2: "built s2 ((C(n := []))(1 := (C(n := [])) 1 @ dirent_bytes m (name_bytes nm))) F2" "freeinode s2 = freeinode s1"
    "\<forall>i. i_type (disk_inode (m_img s2) i) = i_type (disk_inode (m_img s1) i)"
    using iappend_ok [OF a(2) _ ap [unfolded r1]] by (metis one_less_numeral_iff semiring_norm(76))
  obtain F3 where F3: "built s' (((C(n := []))(1 := (C(n := [])) 1 @ dirent_bytes m (name_bytes nm)))(n := ((C(n := []))(1 := (C(n := [])) 1 @ dirent_bytes m (name_bytes nm))) n @ concat ps)) F3"
    "freeinode s' = freeinode s2" "\<forall>i. i_type (disk_inode (m_img s') i) = i_type (disk_inode (m_img s2) i)"
    using pieces_ok [OF F2(1) assms(4)] fo a(1) by blast
  have fn: "file_name f = nm" by (simp add: file_name_def f nm)
  have "((C(n := []))(1 := (C(n := [])) 1 @ dirent_bytes m (name_bytes nm)))(n := ((C(n := []))(1 := (C(n := [])) 1 @ dirent_bytes m (name_bytes nm))) n @ concat ps)
      = C(1 := C 1 @ dirent_bytes (of_nat n) (name_bytes (file_name f)), n := concat (snd f))"
    using assms(3) a(1) fn by (auto simp: f)
  then show ?thesis using F3 F2 a(3) ty1 by (intro exI [of _ F3]) simp
qed

lemma add_files_ok:
  assumes "built s C F" "freeinode s = of_nat n" "2 \<le> n" "n + length fs \<le> 208" "fold_res add_file fs s = Inr s'"
  shows "\<exists>F'. built s' (with_files n fs (C(1 := C 1 @ dir_entries n fs))) F' \<and>
    (\<forall>i. i_type (disk_inode (m_img s') i) = (if n \<le> i \<and> i < n + length fs then T_FILE else i_type (disk_inode (m_img s) i)))"
  using assms
proof (induction fs arbitrary: s C F n)
  case (Cons f fs)
  obtain s1 where s1: "add_file f s = Inr s1" "fold_res add_file fs s1 = Inr s'" using Cons.prems(5) by (auto simp: bind_res_Inr_iff)
  let ?C = "C(1 := C 1 @ dirent_bytes (of_nat n) (name_bytes (file_name f)), n := concat (snd f))"
  obtain F1 where F1: "built s1 ?C F1" "freeinode s1 = of_nat (Suc n)"
    "\<forall>i. i_type (disk_inode (m_img s1) i) = (if i = n then T_FILE else i_type (disk_inode (m_img s) i))"
    using add_file_ok [OF Cons.prems(1-3) _ s1(1)] Cons.prems(4) by auto
  have le: "2 \<le> Suc n" "Suc n + length fs \<le> 208" using Cons.prems(3,4) by simp_all
  obtain F2 where F2: "built s' (with_files (Suc n) fs (?C(1 := ?C 1 @ dir_entries (Suc n) fs))) F2"
    "\<forall>i. i_type (disk_inode (m_img s') i) = (if Suc n \<le> i \<and> i < Suc n + length fs then T_FILE else i_type (disk_inode (m_img s1) i))"
    using Cons.IH [OF F1(1,2) le s1(2)] by blast
  have "?C(1 := ?C 1 @ dir_entries (Suc n) fs) = (C(1 := C 1 @ dir_entries n (f # fs)))(n := concat (snd f))" using Cons.prems(3) by auto
  then have w: "with_files n (f # fs) (C(1 := C 1 @ dir_entries n (f # fs))) = with_files (Suc n) fs (?C(1 := ?C 1 @ dir_entries (Suc n) fs))"
    by (simp only: with_files.simps(2))
  have "\<forall>i. i_type (disk_inode (m_img s') i) = (if n \<le> i \<and> i < n + length (f # fs) then T_FILE else i_type (disk_inode (m_img s) i))"
    using F2(2) F1(3) by auto
  then show ?case unfolding w using F2(1) by blast
qed auto

lemma marked_bits:
  assumes "u \<le> 8192"
  defines "m \<equiv> fold (\<lambda>i buf. buf[i div 8 := buf ! (i div 8) OR bit_mask i]) [0..<u] zeroes"
  shows "length m = 1024 \<and> (\<forall>b < 8192. m ! (b div 8) AND bit_mask b \<noteq> 0 \<longleftrightarrow> b < u)"
  unfolding m_def using assms(1)
proof (induction u)
  case 0
  have "zeroes ! (b div 8) = 0" if "b < 8192" for b using that by (simp add: zeroes_def less_mult_imp_div_less)
  then show ?case by simp
next
  case (Suc u)
  define d where "d = fold (\<lambda>i buf. buf[i div 8 := buf ! (i div 8) OR bit_mask i]) [0..<u] zeroes"
  have d: "length d = 1024" "\<forall>b < 8192. d ! (b div 8) AND bit_mask b \<noteq> 0 \<longleftrightarrow> b < u" using Suc by (simp_all add: d_def)
  have m: "mark_bit d u ! (b div 8) AND bit_mask b \<noteq> 0 \<longleftrightarrow> b < Suc u" if "b < 8192" for b
    using mark_clear_bits(1) [of d u b] d that Suc.prems by (auto simp: less_Suc_eq)
  have "fold (\<lambda>i buf. buf[i div 8 := buf ! (i div 8) OR bit_mask i]) [0..<Suc u] zeroes = mark_bit d u" by (simp add: d_def mark_bit_def)
  then show ?case using m mark_clear_bits(3) [of d u u] d(1) Suc.prems by simp
qed

lemma disk_blocks:
  assumes "V 45 = fold (\<lambda>i buf. buf[i div 8 := buf ! (i div 8) OR bit_mask i]) [0..<F] zeroes" "46 \<le> F" "F \<le> 2000"
  shows "disk_ok 2 mkfs_sb V" "allocated mkfs_sb V = {..<F}"
proof -
  have F: "F \<le> 8192" using assms(3) by simp
  note m = marked_bits [OF F, folded assms(1)]
  have b0: "bmap_block mkfs_sb 0 = 45" by (simp add: bmap_block_def sb_values)
  have used: "bit_used mkfs_sb V b \<longleftrightarrow> b < F" if "b < 2000" for b using m that b0 by (simp add: bit_used_def)
  have nl: "of_nat b \<notin> log_area 2" "of_nat b \<noteq> (45 :: uint)" if b: "b < 2000" "\<not> b < F" for b
  proof -
    have u: "unat (of_nat b :: uint) = b" using b(1) by (simp add: unat_of_nat)
    then show "of_nat b \<notin> log_area 2" using log_area_2 [of "of_nat b"] b assms(2) by auto
    show "of_nat b \<noteq> (45 :: uint)" using u b assms(2) by force
  qed
  have k0: "k * 8192 < unat (sb_size mkfs_sb) \<longleftrightarrow> k = 0" for k by (auto simp: sb_values)
  have sz: "unat (sb_size mkfs_sb) = 2000" by (simp add: sb_values)
  have "(45 :: uint) \<notin> log_area 2" using log_area_2 [of 45] by auto
  then show "disk_ok 2 mkfs_sb V" unfolding disk_ok_def k0 unfolding sz using m nl used b0 by auto
  show "allocated mkfs_sb V = {..<F}" using used assms(3) by (auto simp: allocated_def sb_values)
qed

definition root_dir :: "input_file list \<Rightarrow> uint8 list" where
  "root_dir files = dirent_bytes 1 ([46] @ replicate 13 0) @ dirent_bytes 1 ([46, 46] @ replicate 12 0) @ dir_entries 2 files"

text \<open>The end of \<open>main\<close>, with all files added: the size of the root directory is rounded up and the free map written.\<close>

lemma finish_ok:
  assumes "built s C F"
  defines "x \<equiv> disk_inode (m_img s) 1"
  defines "x' \<equiv> x\<lparr>i_size := (i_size x div 1024 + 1) * 1024\<rparr>"
  shows "\<exists>s1 s2. rinode (of_nat 1) s = Inr x \<and> winode (of_nat 1) x' s = Inr s1 \<and> mkfs_balloc (sint (freeblock s1)) s1 = Inr s2 \<and>
    disk_inode (m_img s2) = (disk_inode (m_img s))(1 := x') \<and>
    (\<forall>a. unat a \<noteq> 45 \<longrightarrow> \<not> (32 \<le> unat a \<and> unat a < 45) \<longrightarrow> m_img s2 a = m_img s a) \<and> (\<forall>a. length (m_img s2 a) = 1024) \<and>
    m_img s2 45 = fold (\<lambda>i buf. buf[i div 8 := buf ! (i div 8) OR bit_mask i]) [0..<F] zeroes \<and> freeblock s2 = of_nat F"
proof -
  have s: "m_sectors s = 2000" "m_sb s = mkfs_sb" "freeblock s = of_nat F" "F \<le> 2000" using assms(1) by (simp_all add: built_def)
  have one: "(1 :: nat) < 208" by simp
  have "unat (IBLOCK (of_nat 1) mkfs_sb) < 2000" using iblock_val(3) [OF one] by simp
  then have ri: "rinode (of_nat 1) s = Inr x" using s by (simp add: rinode_def rsect_def disk_inode_def x_def)
  have len: "\<forall>a. length (m_img s a) = 1024" using built_length [OF assms(1)] by blast
  have od: "on_disk x'" unfolding x'_def x_def by (rule on_disk_upd(2) [OF on_disk_inode])
  obtain s1 where s1: "winode (of_nat 1) x' s = Inr s1" "disk_inode (m_img s1) = (disk_inode (m_img s))(1 := x')"
    "\<forall>a. length (m_img s1 a) = 1024" "\<And>a. \<not> (32 \<le> unat a \<and> unat a < 45) \<Longrightarrow> m_img s1 a = m_img s a" "m_sb s1 = mkfs_sb" "freeblock s1 = of_nat F"
    using winode_ok [OF one s(1,2) len od] s(3) by auto
  have "uint (of_nat F :: uint) = int F" using s(4) small_word(1) [of F] unsigned_of_nat [of F] by (simp add: uint_nat)
  then have sF: "sint (of_nat F :: uint) = int F" using s(4) by (simp add: sint32_cases)
  let ?bm = "fold (\<lambda>i buf. buf[i div 8 := buf ! (i div 8) OR bit_mask i]) [0..<F] zeroes"
  obtain s2 where s2: "mkfs_balloc (sint (freeblock s1)) s1 = Inr s2" "m_img s2 = (m_img s1)(45 := ?bm)" "freeblock s2 = of_nat F"
    using s(4) unfolding s1(6) sF by (auto simp: mkfs_balloc_def wsect_def s1(5,6) sb_values Let_def)
  have D: "disk_inode (m_img s2) = disk_inode (m_img s1)" by (rule disk_inode_cong) (auto simp: s2(2))
  have F8: "F \<le> 8192" using s(4) by simp
  have "\<forall>a. length (m_img s2 a) = 1024" using s1(3) marked_bits [OF F8] by (simp add: s2(2))
  moreover have "m_img s2 a = m_img s a" if "unat a \<noteq> 45" "\<not> (32 \<le> unat a \<and> unat a < 45)" for a using s1(4) [of a] that by (auto simp: s2(2))
  ultimately show ?thesis using ri s1(1,2) s2 D by (intro exI [of _ s1] exI [of _ s2]) auto
qed

lemma mkfs_main_built:
  assumes "mkfs_main files = Inr s" "length files \<le> 198"
  shows "\<exists>t C F off. built t C F \<and> C 1 = root_dir files \<and> (\<forall>j < length files. C (j + 2) = concat (snd (files ! j))) \<and>
    i_type (disk_inode (m_img t) 1) = T_DIR \<and> (\<forall>j < length files. i_type (disk_inode (m_img t) (j + 2)) = T_FILE) \<and>
    disk_inode (m_img s) = (disk_inode (m_img t))(1 := (disk_inode (m_img t) 1)\<lparr>i_size := off\<rparr>) \<and>
    (\<forall>a. unat a \<noteq> 45 \<longrightarrow> \<not> (32 \<le> unat a \<and> unat a < 45) \<longrightarrow> m_img s a = m_img t a) \<and> (\<forall>a. length (m_img s a) = 1024) \<and>
    m_img s 45 = fold (\<lambda>i buf. buf[i div 8 := buf ! (i div 8) OR bit_mask i]) [0..<F] zeroes \<and> freeblock s = of_nat F"
proof -
  have r1: "ROOTINO = of_nat 1" by (simp add: ROOTINO_def)
  let ?d1 = "dirent_bytes 1 ([46] @ replicate 13 0)" let ?d2 = "dirent_bytes 1 ([46, 46] @ replicate 12 0)"
  obtain m s1 s2 s3 s4 din s5 where al: "mkfs_ialloc T_DIR mkfs_start = Inr (m, s1)" and m: "m = ROOTINO"
    and a1: "iappend m (dirent_bytes m ([46] @ replicate 13 0)) s1 = Inr s2" and a2: "iappend m (dirent_bytes m ([46, 46] @ replicate 12 0)) s2 = Inr s3"
    and fo: "fold_res add_file files s3 = Inr s4" and ri: "rinode m s4 = Inr din"
    and wi: "winode m (din\<lparr>i_size := (i_size din div 1024 + 1) * 1024\<rparr>) s4 = Inr s5" and ba: "mkfs_balloc (sint (freeblock s5)) s5 = Inr s"
    using assms(1) by (auto simp: mkfs_main_def bind_res_Inr_iff Let_def split: if_splits)
  have fi: "freeinode mkfs_start = of_nat 1" using start_built(2) by simp
  note a = mkfs_ialloc_ok [OF start_built(1) fi _ al]
  have b1: "built s1 (\<lambda>_. []) 46" "freeinode s1 = of_nat 2" "i_type (disk_inode (m_img s1) 1) = T_DIR" using a by (simp_all add: fun_upd_idem)
  have one: "(1 :: nat) < 208" "m = of_nat 1" "m = 1" using m by (simp_all add: ROOTINO_def)
  obtain F2 where b2: "built s2 ((\<lambda>_. [])(1 := ?d1)) F2" "freeinode s2 = of_nat 2" "i_type (disk_inode (m_img s2) 1) = T_DIR"
    using iappend_ok [OF b1(1) one(1) a1 [unfolded one(2)]] b1(2,3) by auto
  obtain F3 where b3: "built s3 ((\<lambda>_. [])(1 := ?d1 @ ?d2)) F3" "freeinode s3 = of_nat 2" "i_type (disk_inode (m_img s3) 1) = T_DIR"
    using iappend_ok [OF b2(1) one(1) a2 [unfolded one(2)]] b2(2,3) by auto
  define C where "C = with_files 2 files (((\<lambda>_. [])(1 := ?d1 @ ?d2))(1 := ((\<lambda>_. [])(1 := ?d1 @ ?d2)) 1 @ dir_entries 2 files))"
  obtain F where b4: "built s4 C F" "\<forall>i. i_type (disk_inode (m_img s4) i) = (if 2 \<le> i \<and> i < 2 + length files then T_FILE else i_type (disk_inode (m_img s3) i))"
    using add_files_ok [OF b3(1,2) _ _ fo] assms(2) unfolding C_def by auto
  have C: "C 1 = root_dir files" "\<forall>j < length files. C (j + 2) = concat (snd (files ! j))"
    by (simp_all add: C_def with_files_value root_dir_def)
  obtain s1' s2' where "rinode (of_nat 1) s4 = Inr (disk_inode (m_img s4) 1)"
    "winode (of_nat 1) ((disk_inode (m_img s4) 1)\<lparr>i_size := (i_size (disk_inode (m_img s4) 1) div 1024 + 1) * 1024\<rparr>) s4 = Inr s1'"
    and fin: "mkfs_balloc (sint (freeblock s1')) s1' = Inr s2'"
    "disk_inode (m_img s2') = (disk_inode (m_img s4))(1 := (disk_inode (m_img s4) 1)\<lparr>i_size := (i_size (disk_inode (m_img s4) 1) div 1024 + 1) * 1024\<rparr>)"
    "\<forall>a. unat a \<noteq> 45 \<longrightarrow> \<not> (32 \<le> unat a \<and> unat a < 45) \<longrightarrow> m_img s2' a = m_img s4 a" "\<forall>a. length (m_img s2' a) = 1024"
    "m_img s2' 45 = fold (\<lambda>i buf. buf[i div 8 := buf ! (i div 8) OR bit_mask i]) [0..<F] zeroes" "freeblock s2' = of_nat F"
    using finish_ok [OF b4(1)] by blast
  then have "s2' = s" using ri wi ba one(2) by simp
  moreover have "i_type (disk_inode (m_img s4) 1) = T_DIR" "\<forall>j < length files. i_type (disk_inode (m_img s4) (j + 2)) = T_FILE" using b4(2) b3(3) by auto
  ultimately show ?thesis using b4(1) C fin(2-) by blast
qed

section \<open>Properties\<close>

lemma mkfs_image_facts:
  assumes "mkfs_main files = Inr s" "length files \<le> 198"
  shows "m_img s 1 = encode_sb mkfs_sb zeroes" "m_img s 2 = zeroes" "disk_ok 2 mkfs_sb (m_img s)"
    "allocated mkfs_sb (m_img s) = {..<unat (freeblock s)}" "slots_ok (m_img s) (disk_inode (m_img s)) (unat (freeblock s))"
    "j < length files \<Longrightarrow> i_type (disk_inode (m_img s) (j + 2)) = T_FILE \<and> holds_bytes (m_img s) (disk_inode (m_img s) (j + 2)) (concat (snd (files ! j)))"
    "i_type (disk_inode (m_img s) 1) = T_DIR" "b < length (root_dir files) \<Longrightarrow> fbyte (m_img s) (disk_inode (m_img s) 1) b = root_dir files ! b"
proof -
  obtain t C F off where t: "built t C F" and C: "C 1 = root_dir files" "\<forall>j < length files. C (j + 2) = concat (snd (files ! j))"
    and ty: "i_type (disk_inode (m_img t) 1) = T_DIR" "\<forall>j < length files. i_type (disk_inode (m_img t) (j + 2)) = T_FILE"
    and D: "disk_inode (m_img s) = (disk_inode (m_img t))(1 := (disk_inode (m_img t) 1)\<lparr>i_size := off\<rparr>)"
    and same: "\<forall>a. unat a \<noteq> 45 \<longrightarrow> \<not> (32 \<le> unat a \<and> unat a < 45) \<longrightarrow> m_img s a = m_img t a" and len: "\<forall>a. length (m_img s a) = 1024"
    and bm: "m_img s 45 = fold (\<lambda>i buf. buf[i div 8 := buf ! (i div 8) OR bit_mask i]) [0..<F] zeroes" and fb: "freeblock s = of_nat F"
    using mkfs_main_built [OF assms] by blast
  have it: "image_ok (m_img t) (disk_inode (m_img t)) C F" and F: "F \<le> 2000" using t by (simp_all add: built_def)
  have F46: "46 \<le> F" using it slots_okD(1) unfolding image_ok_def by blast
  have uF: "unat (freeblock s) = F" using fb small_word(1) [of F] F by simp
  have im: "image_ok (m_img s) (disk_inode (m_img t)) C F" by (rule image_meta [OF it]) (use same len in auto)
  show "m_img s 1 = encode_sb mkfs_sb zeroes" "m_img s 2 = zeroes" using same t by (auto simp: built_def)
  show "disk_ok 2 mkfs_sb (m_img s)" "allocated mkfs_sb (m_img s) = {..<unat (freeblock s)}" unfolding uF using disk_blocks [of "m_img s" F, OF bm F46 F] .
  have sl: "slots_ok (m_img s) (disk_inode (m_img t)) F" and h: "\<And>i. holds_bytes (m_img s) (disk_inode (m_img t) i) (C i)" using im by (auto simp: image_ok_def)
  show "slots_ok (m_img s) (disk_inode (m_img s)) (unat (freeblock s))" unfolding uF D
    by (rule slots_drop [OF sl]) (use slots_okD(5) [OF sl] in auto)
  show "i_type (disk_inode (m_img s) 1) = T_DIR" using ty(1) by (simp add: D)
  show "j < length files \<Longrightarrow> i_type (disk_inode (m_img s) (j + 2)) = T_FILE \<and> holds_bytes (m_img s) (disk_inode (m_img s) (j + 2)) (concat (snd (files ! j)))"
    using h [of "j + 2"] ty(2) C(2) by (simp add: D)
  show "b < length (root_dir files) \<Longrightarrow> fbyte (m_img s) (disk_inode (m_img s) 1) b = root_dir files ! b"
    using h [of 1] C(1) by (simp add: D holds_bytes_def)
qed

text \<open>C5: the image \<open>mkfs\<close> builds is a file system the kernel can use. When \<open>mkfs\<close> succeeds on at most 198 files, block 1 decodes to
  the superblock, the log is empty, the free map marks exactly the blocks handed out and is fit for \<open>balloc\<close>, no block belongs to two files or to two places
  of one file, every file has its inode with its length and bytes, and the root directory holds the entries \<open>.\<close>, \<open>..\<close> and one for each file, in order.\<close>

theorem mkfs_image_valid:
  assumes "mkfs_main files = Inr s" "length files \<le> 198"
  shows "decode_sb (m_img s 1) = mkfs_sb \<and> get32 (m_img s 2) 0 = 0 \<and> disk_ok 2 mkfs_sb (m_img s) \<and>
    allocated mkfs_sb (m_img s) = {..<unat (freeblock s)} \<and> slots_ok (m_img s) (disk_inode (m_img s)) (unat (freeblock s)) \<and>
    (\<forall>j < length files. i_type (disk_inode (m_img s) (j + 2)) = T_FILE \<and>
       holds_bytes (m_img s) (disk_inode (m_img s) (j + 2)) (concat (snd (files ! j)))) \<and>
    i_type (disk_inode (m_img s) 1) = T_DIR \<and>
    (\<forall>b < length (root_dir files). fbyte (m_img s) (disk_inode (m_img s) 1) b = root_dir files ! b)"
  using mkfs_image_facts [OF assms] decode_encode_sb(1) [of zeroes mkfs_sb] by simp

text \<open>C6: the kernel reads what \<open>mkfs\<close> wrote. On a disk with the image of \<open>mkfs\<close>, with the inode of file \<open>j\<close> loaded as \<open>ilock\<close> loads it, \<open>readi\<close> of
  the whole file returns exactly the bytes of the input file.\<close>

theorem mkfs_readi_roundtrip:
  fixes s :: "'z kfs_scheme"
  assumes "mkfs_main files = Inr m" "length files \<le> 198" "j < length files" "log_inv d s (m_img m) bl" "log_start s = 2"
    "inodes s ip = load_dinode (m_img m (IBLOCK (of_nat (j + 2)) mkfs_sb)) (dinode_off (of_nat (j + 2))) y" "i_dev y = d"
  shows "\<exists>s'. readi s me ip LocalDst 0 (i_size (inodes s ip)) =
    Inr (int (length (concat (snd (files ! j)))), concat (snd (files ! j)), s')"
proof -
  let ?x = "inodes s ip" let ?V = "m_img m" let ?d = "disk_inode ?V (j + 2)" let ?bs = "concat (snd (files ! j))"
  have x: "i_addrs ?x = i_addrs ?d" "i_size ?x = i_size ?d" "i_dev ?x = d"
    using assms(2,3,6,7) by (simp_all add: disk_inode_def load_dinode_def del: upt_Suc)
  have fb: "fblock ?V ?x k = fblock ?V ?d k" "fbyte ?V ?x k = fbyte ?V ?d k" for k using x(1) by (simp_all add: fblock_def fbyte_def)
  note sl = slots_okD [OF mkfs_image_facts(5) [OF assms(1,2)]]
  have h: "holds_bytes ?V ?d ?bs" using mkfs_image_facts(6) [OF assms(1-3)] by blast
  then have n: "unat (i_size ?x) = length ?bs" "length ?bs \<le> 274432" using x(2) by (simp_all add: holds_bytes_def)
  have so: "slot ?V ?d k = fblock ?V ?d k" if "k < 268" for k using that by (simp add: slot_def)
  have s12: "slot ?V ?d 268 = i_addrs ?d ! 12" by (simp add: slot_def)
  have "file_ok 2 ?V ?x" unfolding file_ok_def file_consts fb x(1)
  proof (intro conjI allI impI)
    show "length (i_addrs ?d) = 13" "\<And>a. length (?V a) = 1024" by (fact sl(5), fact sl(3))
    fix i assume i: "i < 268" "fblock ?V ?d i \<noteq> 0"
    show "fblock ?V ?d i \<notin> log_area 2" using sl(6) [of i "j + 2"] log_area_2 [of "fblock ?V ?d i"] so [OF i(1)] i by auto
    show "fblock ?V ?d i \<noteq> i_addrs ?d ! 12" using sl(7) [of i 268 "j + 2" "j + 2"] so [OF i(1)] s12 i by auto
  next
    fix i k assume k: "fblock ?V ?d i = fblock ?V ?d k" "fblock ?V ?d i \<noteq> 0" "i < 268" "k < 268"
    show "i = k" using sl(7) [of i k "j + 2" "j + 2"] so [OF k(3)] so [OF k(4)] k by auto
  qed
  moreover have "fblock ?V ?x (b div 1024) \<noteq> 0" if "b < length ?bs" for b
  proof -
    have "b div 1024 < 268" using that n(2) by simp
    then show ?thesis using h that so fb(1) by (auto simp: holds_bytes_def)
  qed
  ultimately have wf: "whole_file s ?V ip" using n assms(5) by (simp add: whole_file_def)
  have w: "of_nat (length ?bs) = i_size ?x" unfolding n(1) [symmetric] by simp
  have "map (fbyte ?V ?x) [0..<length ?bs] = ?bs" using h fb(2) by (intro nth_equalityI) (auto simp: holds_bytes_def)
  then show ?thesis using readi_ok [OF assms(4) x(3) wf, of 0 "length ?bs" me] n(1) w by auto
qed

text \<open>A run that succeeds: an append within a block of the first twelve always does while blocks are left.\<close>

lemma iappend_small:
  assumes "built s C F" "n < 208" "F < 2000" "p \<noteq> []" "length (C n) mod 1024 + length p \<le> 1024" "length (C n) div 1024 < 12"
  shows "\<exists>s' F'. iappend (of_nat n) p s = Inr s' \<and> built s' (C(n := C n @ p)) F' \<and> F' \<le> Suc F \<and> freeinode s' = freeinode s"
proof -
  let ?D = "disk_inode (m_img s)" let ?x = "?D n" let ?c = "length (C n)" let ?k = "?c div 1024"
  have b: "m_sectors s = 2000" "m_sb s = mkfs_sb" "freeblock s = of_nat F" "image_ok (m_img s) ?D C F" using assms(1) by (simp_all add: built_def)
  have sl: "slots_ok (m_img s) ?D F" and h: "holds_bytes (m_img s) ?x (C n)" using b(4) by (auto simp: image_ok_def)
  have c: "unat (i_size ?x) = ?c" "unat (i_size ?x) \<le> 274432" using h by (simp_all add: holds_bytes_def)
  note w = block_words [OF c(2), unfolded c(1)]
  have "unat (IBLOCK (of_nat n) mkfs_sb) < 2000" using iblock_val(3) [OF assms(2)] assms(2) by simp
  then have ri: "rinode (of_nat n) s = Inr ?x" using b assms(2) by (simp add: rinode_def rsect_def disk_inode_def)
  define y d1 s1 where "y = (if i_addrs ?x ! ?k = 0 then of_nat F else i_addrs ?x ! ?k)"
    and "d1 = (if i_addrs ?x ! ?k = 0 then ?x\<lparr>i_addrs := (i_addrs ?x)[?k := of_nat F]\<rparr> else ?x)"
    and "s1 = (if i_addrs ?x ! ?k = 0 then s\<lparr>freeblock := of_nat F + 1\<rparr> else s)"
  have l13: "length (i_addrs ?x) = 13" using slots_okD(5) [OF sl] .
  have fs: "file_sector ?k ?x s = Inr (y, d1, s1)" using assms(6) b(3) l13 by (simp add: file_sector_def y_def d1_def s1_def)
  have "unat y < 2000" using slots_okD(6) [OF sl, of ?k n] small_word(1) [of F] assms(3,6) by (auto simp: y_def slot_def fblock_def)
  then have rs: "rsect y s1 = Inr (m_img s1 y)" using b(1) by (simp add: rsect_def s1_def)
  have mn: "min (length p) (1024 - ?c mod 1024) = length p" using assms(5) by simp
  have k: "?k < 268" using assms(6) by simp
  have "iappend_loop p (i_size ?x) ?x s = iappend_loop [] (i_size ?x + of_nat (length p)) d1 (wsect y (overwrite (m_img s1 y) (?c mod 1024) p) s1)"
    using assms(4) fs rs w mn k by (subst iappend_loop.simps) (simp add: Let_def)
  then have lp: "iappend_loop p (i_size ?x) ?x s = Inr (i_size ?x + of_nat (length p), d1, wsect y (overwrite (m_img s1 y) (?c mod 1024) p) s1)"
    by (simp add: iappend_loop.simps)
  define t where "t = wsect y (overwrite (m_img s1 y) (?c mod 1024) p) s1"
  have t: "unat (IBLOCK (of_nat n) mkfs_sb) < m_sectors t" "m_sb t = mkfs_sb" "freeblock t = freeblock s1"
    using \<open>unat (IBLOCK (of_nat n) mkfs_sb) < 2000\<close> b(1,2) by (auto simp: t_def wsect_def s1_def)
  have "\<exists>s'. winode (of_nat n) z t = Inr s' \<and> freeblock s' = freeblock t" for z
    using t(1) \<open>unat (IBLOCK (of_nat n) mkfs_sb) < 2000\<close> by (simp add: winode_def rsect_def wsect_def Let_def t(2))
  then have "\<exists>s'. iappend (of_nat n) p s = Inr s' \<and> freeblock s' = freeblock s1"
    using ri lp t(3) by (simp add: iappend_def t_def [symmetric])
  then obtain s' where s': "iappend (of_nat n) p s = Inr s'" "freeblock s' = freeblock s1" by blast
  obtain F' where F': "built s' (C(n := C n @ p)) F'" "freeinode s' = freeinode s" using iappend_ok [OF assms(1,2) s'(1)] by blast
  have "F' \<le> 2000" "of_nat F' = freeblock s1" using F'(1) s'(2) by (simp_all add: built_def)
  then have "F' = unat (freeblock s1)" using small_word(1) [of F'] by simp
  moreover have "unat (freeblock s1) \<le> Suc F"
    using b(3) small_word(1) [of F] small_word(1) [of "Suc F"] assms(3) by (simp add: s1_def add.commute)
  ultimately show ?thesis using s'(1) F' by auto
qed

lemma mkfs_ialloc_small:
  assumes "built s C F" "freeinode s = of_nat n" "n < 208"
  shows "\<exists>s'. mkfs_ialloc ty s = Inr (of_nat n, s') \<and> built s' (C(n := [])) F \<and> freeinode s' = of_nat (Suc n)"
proof -
  let ?t = "s\<lparr>freeinode := of_nat n + 1\<rparr>"
  have t: "m_sectors ?t = 2000" "m_sb ?t = mkfs_sb" "\<forall>a. length (m_img ?t a) = 1024" using assms(1) built_length [OF assms(1)] by (simp_all add: built_def)
  obtain s' where "mkfs_ialloc ty s = Inr (of_nat n, s')"
    using winode_ok [OF assms(3) t on_disk_upd(3) [OF on_disk_load(2), where ty = ty and l = 1 and n = 0]] assms(2) by (auto simp: mkfs_ialloc_def Let_def)
  then show ?thesis using mkfs_ialloc_ok [OF assms] by blast
qed

definition small_input :: "input_file list" where
  "small_input = [([117, 115, 101, 114, 47, 95, 97], [[7, 8, 9]])]"

lemma dirent_length: "length nm = 14 \<Longrightarrow> length (dirent_bytes i nm) = 16"
  by (simp add: dirent_bytes_def)

lemma small_input_runs: "\<exists>s. mkfs_main small_input = Inr s"
proof -
  have one: "(1 :: nat) < 208" "(2 :: nat) < 208" "ROOTINO = of_nat 1" by (simp_all add: ROOTINO_def)
  let ?d1 = "dirent_bytes 1 ([46] @ replicate 13 0)" let ?d2 = "dirent_bytes 1 ([46, 46] @ replicate 12 0)" let ?d3 = "dirent_bytes 2 (name_bytes [97])"
  have n: "length ?d1 = 16" "length ?d2 = 16" "length ?d3 = 16" by (simp_all add: dirent_length name_bytes_def)
  have ne: "?d1 \<noteq> []" "?d2 \<noteq> []" "?d3 \<noteq> []" using n by force+
  have fi: "freeinode mkfs_start = of_nat 1" using start_built(2) by simp
  obtain s1 where s1: "mkfs_ialloc T_DIR mkfs_start = Inr (of_nat 1, s1)" "built s1 ((\<lambda>_. [])(1 := [])) 46" "freeinode s1 = of_nat 2"
    using mkfs_ialloc_small [OF start_built(1) fi one(1), of T_DIR] by auto
  obtain s2 F2 where s2: "iappend (of_nat 1) ?d1 s1 = Inr s2" "built s2 ((\<lambda>_. [])(1 := ?d1)) F2" "F2 \<le> 47" "freeinode s2 = of_nat 2"
    using iappend_small [OF s1(2) one(1) _ ne(1)] s1(3) n(1) by auto
  obtain s3 F3 where s3: "iappend (of_nat 1) ?d2 s2 = Inr s3" "built s3 ((\<lambda>_. [])(1 := ?d1 @ ?d2)) F3" "F3 \<le> 48" "freeinode s3 = of_nat 2"
    using iappend_small [OF s2(2) one(1) _ ne(2)] s2(3,4) n(1,2) by auto
  obtain s4 where s4: "mkfs_ialloc T_FILE s3 = Inr (of_nat 2, s4)" "built s4 (((\<lambda>_. [])(1 := ?d1 @ ?d2))(2 := [])) F3"
    using mkfs_ialloc_small [OF s3(2,4) one(2), of T_FILE] by auto
  obtain s5 F5 where s5: "iappend (of_nat 1) ?d3 s4 = Inr s5" "built s5 ((((\<lambda>_. [])(1 := ?d1 @ ?d2))(2 := []))(1 := (?d1 @ ?d2) @ ?d3)) F5" "F5 \<le> 49"
    using iappend_small [OF s4(2) one(1) _ ne(3)] s3(3) n by auto
  obtain s6 F6 where s6: "iappend (of_nat 2) [7, 8, 9] s5 = Inr s6" "built s6 (((((\<lambda>_. [])(1 := ?d1 @ ?d2))(2 := []))(1 := (?d1 @ ?d2) @ ?d3))(2 := [] @ [7, 8, 9])) F6"
    using iappend_small [OF s5(2) one(2), of "[7, 8, 9]"] s5(3) by auto
  have "add_file ([117, 115, 101, 114, 47, 95, 97], [[7, 8, 9]]) s3 = Inr s6"
    using s4(1) s5(1) s6(1) unfolding one(3) add_file_def by (simp add: shortname_def strncpy_name [of "[97]", simplified] one(3))
  then have "fold_res add_file small_input s3 = Inr s6" by (simp add: small_input_def)
  then show ?thesis using s1(1) s2(1) s3(1) finish_ok [OF s6(2)] unfolding mkfs_main_def one(3) by (auto simp: Let_def)
qed

theorem mkfs_image_valid_witness:
  "\<exists>s. mkfs_main small_input = Inr s \<and> decode_sb (m_img s 1) = mkfs_sb \<and> i_type (disk_inode (m_img s) 2) = T_FILE \<and>
    holds_bytes (m_img s) (disk_inode (m_img s) 2) [7, 8, 9]"
proof -
  obtain s where s: "mkfs_main small_input = Inr s" using small_input_runs by blast
  then show ?thesis using mkfs_image_valid [OF s] by (auto simp: small_input_def numeral_2_eq_2)
qed

text \<open>A kernel booted on the image, with the inode of the file loaded.\<close>

definition image_fs :: "blocks \<Rightarrow> inode \<Rightarrow> kfs" where
  "image_fs V x = binit (fresh_fs\<lparr>disk := V, inodes := \<lambda>_. x\<rparr>)"

lemma image_fs_inv:
  assumes "length (V 2) = BSIZE" "get32 (V 2) 0 = 0"
  shows "log_inv 1 (image_fs V x) V []" "log_start (image_fs V x) = 2" "inodes (image_fs V x) i = x"
proof -
  let ?s = "fresh_fs\<lparr>disk := V, inodes := \<lambda>_. x\<rparr>"
  have "b_dev (bufs ?s b) \<noteq> 1 \<and> b_refcnt (bufs ?s b) = 0" for b
    by (simp add: fresh_fs_def fresh_log_def zero_buf_def klog.defs)
  note b = binit_ok [of ?s 1, OF this]
  have c: "cache 1 (binit ?s) V (\<lambda>_. 0) {}" using b(1) by simp
  have f: "log_dev (binit ?s) = 1" "lh (binit ?s) = \<lparr>lh_n = 0, lh_block = replicate 30 0\<rparr>" "log_start (binit ?s) = 2" "inodes (binit ?s) i = x"
    by (subst b(2), simp add: fresh_fs_def fresh_log_def klog.defs)+
  show "log_inv 1 (image_fs V x) V []" using c f assms by (simp add: log_inv_def NBUF_def image_fs_def)
  show "log_start (image_fs V x) = 2" "inodes (image_fs V x) i = x" using f by (simp_all add: image_fs_def)
qed

theorem mkfs_readi_roundtrip_witness:
  "\<exists>m x s'. mkfs_main small_input = Inr m \<and> i_size x = 3 \<and> readi (image_fs (m_img m) x) 0 0 LocalDst 0 3 = Inr (3, [7, 8, 9], s')"
proof -
  obtain m where m: "mkfs_main small_input = Inr m" using small_input_runs by blast
  have l: "length small_input \<le> 198" "0 < length small_input" "concat (snd (small_input ! 0)) = [7, 8, 9]" by (simp_all add: small_input_def)
  note f = mkfs_image_facts [OF m l(1)]
  define x where "x = load_dinode (m_img m (IBLOCK (of_nat (0 + 2)) mkfs_sb)) (dinode_off (of_nat (0 + 2))) (one_file\<lparr>i_dev := 1\<rparr>)"
  have g: "length (m_img m 2) = BSIZE" "get32 (m_img m 2) 0 = 0" using f(2) by (simp_all add: BSIZE_def)
  note i = image_fs_inv [of "m_img m" x, OF g]
  have sz: "i_size x = i_size (disk_inode (m_img m) 2)" by (simp add: x_def disk_inode_def load_dinode_def)
  have "unat (i_size x) = 3" using f(6) [OF l(2)] unfolding sz l(3) by (simp add: holds_bytes_def numeral_2_eq_2)
  then have "i_size x = of_nat 3" by (metis of_nat_unat ucast_id)
  moreover have "\<exists>s'. readi (image_fs (m_img m) x) 0 0 LocalDst 0 (i_size (inodes (image_fs (m_img m) x) 0)) = Inr (int (length [7, 8, 9 :: uint8]), [7, 8, 9], s')"
    by (rule mkfs_readi_roundtrip [OF m l(1,2) i(1,2), unfolded l(3)]) (unfold i(3), rule x_def, simp)
  ultimately show ?thesis using m unfolding i(3) by auto
qed

end
