(* ===== verification/Virtio.thy ===== *)
theory Virtio
  imports Bio Fifo
begin

text \<open>
  The driver of the virtio disk, \<open>kernel/virtio_disk.c\<close> with \<open>kernel/virtio.h\<close>: descriptor
  allocation, the formatting of a request, the available and used rings, and the interrupt
  handler. \<open>vdisk_lock\<close> makes each function atomic up to its calls of \<open>sleep\<close>, so
  \<open>virtio_disk_rw\<close> is modelled in three parts. The three queue pages are used through the
  structures they hold, which are part of the state. The device is not part of the kernel: it is a parameter of
  the steps below, and reads of its registers go through the parameter \<open>rd\<close>.
\<close>

section \<open>Structures\<close>

definition NUM :: nat where "NUM = 8"
definition VRING_DESC_F_NEXT :: uint16 where "VRING_DESC_F_NEXT = 1"
definition VRING_DESC_F_WRITE :: uint16 where "VRING_DESC_F_WRITE = 2"
definition VIRTIO_BLK_T_IN :: uint where "VIRTIO_BLK_T_IN = 0"
definition VIRTIO_BLK_T_OUT :: uint where "VIRTIO_BLK_T_OUT = 1"

definition VIRTIO_MMIO_MAGIC_VALUE :: uint where "VIRTIO_MMIO_MAGIC_VALUE = 0x000"
definition VIRTIO_MMIO_VERSION :: uint where "VIRTIO_MMIO_VERSION = 0x004"
definition VIRTIO_MMIO_DEVICE_ID :: uint where "VIRTIO_MMIO_DEVICE_ID = 0x008"
definition VIRTIO_MMIO_VENDOR_ID :: uint where "VIRTIO_MMIO_VENDOR_ID = 0x00c"
definition VIRTIO_MMIO_DEVICE_FEATURES :: uint where "VIRTIO_MMIO_DEVICE_FEATURES = 0x010"
definition VIRTIO_MMIO_DRIVER_FEATURES :: uint where "VIRTIO_MMIO_DRIVER_FEATURES = 0x020"
definition VIRTIO_MMIO_QUEUE_SEL :: uint where "VIRTIO_MMIO_QUEUE_SEL = 0x030"
definition VIRTIO_MMIO_QUEUE_NUM_MAX :: uint where "VIRTIO_MMIO_QUEUE_NUM_MAX = 0x034"
definition VIRTIO_MMIO_QUEUE_NUM :: uint where "VIRTIO_MMIO_QUEUE_NUM = 0x038"
definition VIRTIO_MMIO_QUEUE_READY :: uint where "VIRTIO_MMIO_QUEUE_READY = 0x044"
definition VIRTIO_MMIO_QUEUE_NOTIFY :: uint where "VIRTIO_MMIO_QUEUE_NOTIFY = 0x050"
definition VIRTIO_MMIO_INTERRUPT_STATUS :: uint where "VIRTIO_MMIO_INTERRUPT_STATUS = 0x060"
definition VIRTIO_MMIO_INTERRUPT_ACK :: uint where "VIRTIO_MMIO_INTERRUPT_ACK = 0x064"
definition VIRTIO_MMIO_STATUS :: uint where "VIRTIO_MMIO_STATUS = 0x070"
definition VIRTIO_MMIO_QUEUE_DESC_LOW :: uint where "VIRTIO_MMIO_QUEUE_DESC_LOW = 0x080"
definition VIRTIO_MMIO_QUEUE_DESC_HIGH :: uint where "VIRTIO_MMIO_QUEUE_DESC_HIGH = 0x084"
definition VIRTIO_MMIO_DRIVER_DESC_LOW :: uint where "VIRTIO_MMIO_DRIVER_DESC_LOW = 0x090"
definition VIRTIO_MMIO_DRIVER_DESC_HIGH :: uint where "VIRTIO_MMIO_DRIVER_DESC_HIGH = 0x094"
definition VIRTIO_MMIO_DEVICE_DESC_LOW :: uint where "VIRTIO_MMIO_DEVICE_DESC_LOW = 0x0a0"
definition VIRTIO_MMIO_DEVICE_DESC_HIGH :: uint where "VIRTIO_MMIO_DEVICE_DESC_HIGH = 0x0a4"
definition VIRTIO_CONFIG_S_ACKNOWLEDGE :: uint where "VIRTIO_CONFIG_S_ACKNOWLEDGE = 1"
definition VIRTIO_CONFIG_S_DRIVER :: uint where "VIRTIO_CONFIG_S_DRIVER = 2"
definition VIRTIO_CONFIG_S_DRIVER_OK :: uint where "VIRTIO_CONFIG_S_DRIVER_OK = 4"
definition VIRTIO_CONFIG_S_FEATURES_OK :: uint where "VIRTIO_CONFIG_S_FEATURES_OK = 8"
definition VIRTIO_BLK_F_RO :: nat where "VIRTIO_BLK_F_RO = 5"
definition VIRTIO_BLK_F_SCSI :: nat where "VIRTIO_BLK_F_SCSI = 7"
definition VIRTIO_BLK_F_CONFIG_WCE :: nat where "VIRTIO_BLK_F_CONFIG_WCE = 11"
definition VIRTIO_BLK_F_MQ :: nat where "VIRTIO_BLK_F_MQ = 12"
definition VIRTIO_F_ANY_LAYOUT :: nat where "VIRTIO_F_ANY_LAYOUT = 27"
definition VIRTIO_RING_F_INDIRECT_DESC :: nat where "VIRTIO_RING_F_INDIRECT_DESC = 28"
definition VIRTIO_RING_F_EVENT_IDX :: nat where "VIRTIO_RING_F_EVENT_IDX = 29"

text \<open>The kernel objects a descriptor points to: \<open>disk.ops[i]\<close>, \<open>b->data\<close>, \<open>disk.info[i].status\<close>.\<close>

datatype vaddr = VNull | VOps nat | VData nat | VStatus nat

record virtq_desc =
  d_addr :: vaddr
  d_len :: uint
  d_flags :: uint16
  d_next :: uint16

record virtio_blk_req =
  q_type :: uint
  q_reserved :: uint
  q_sector :: uint64

record kvirt = kproc +
  desc_pa :: uint64
  avail_pa :: uint64
  used_pa :: uint64
  desc :: "nat \<Rightarrow> virtq_desc"
  avail_idx :: uint16
  avail_ring :: "nat \<Rightarrow> uint16"
  used_ring_idx :: uint16
  used_ring :: "nat \<Rightarrow> uint"
  dfree :: "nat \<Rightarrow> bool"
  used_idx :: uint16
  info_b :: "nat \<Rightarrow> nat option"
  info_status :: "nat \<Rightarrow> uint8"
  vops :: "nat \<Rightarrow> virtio_blk_req"
  buf_disk :: "nat \<Rightarrow> int"
  reg_writes :: "(uint \<times> uint) list"

definition zero_desc :: virtq_desc where
  "zero_desc = \<lparr>d_addr = VNull, d_len = 0, d_flags = 0, d_next = 0\<rparr>"

section \<open>Initialisation\<close>

text \<open>\<open>rd ws r\<close> is what the device shows in register \<open>r\<close> after the writes \<open>ws\<close>.\<close>

type_synonym regs = "(uint \<times> uint) list \<Rightarrow> uint \<Rightarrow> uint"

definition reg_set :: "uint \<Rightarrow> uint \<Rightarrow> 'z kvirt_scheme \<Rightarrow> 'z kvirt_scheme" where
  "reg_set r v s = s\<lparr>reg_writes := reg_writes s @ [(r, v)]\<rparr>"

definition reg_get :: "regs \<Rightarrow> 'z kvirt_scheme \<Rightarrow> uint \<Rightarrow> uint" where
  "reg_get rd s r = rd (reg_writes s) r"

definition drop_feature :: "nat \<Rightarrow> uint64 \<Rightarrow> uint64" where
  "drop_feature n f = f AND NOT (push_bit n 1)"

definition virtio_disk_init :: "regs \<Rightarrow> 'z kvirt_scheme \<Rightarrow> 'z kvirt_scheme res" where
  "virtio_disk_init rd s =
     (if reg_get rd s VIRTIO_MMIO_MAGIC_VALUE \<noteq> 0x74726976 \<or> reg_get rd s VIRTIO_MMIO_VERSION \<noteq> 2 \<or>
         reg_get rd s VIRTIO_MMIO_DEVICE_ID \<noteq> 2 \<or> reg_get rd s VIRTIO_MMIO_VENDOR_ID \<noteq> 0x554d4551
      then Inl (Panic ''could not find virtio disk'')
      else
        let status = 0;
            s = reg_set VIRTIO_MMIO_STATUS status s;
            status = status OR VIRTIO_CONFIG_S_ACKNOWLEDGE;
            s = reg_set VIRTIO_MMIO_STATUS status s;
            status = status OR VIRTIO_CONFIG_S_DRIVER;
            s = reg_set VIRTIO_MMIO_STATUS status s;
            features = ucast (reg_get rd s VIRTIO_MMIO_DEVICE_FEATURES);
            features = drop_feature VIRTIO_BLK_F_RO features;
            features = drop_feature VIRTIO_BLK_F_SCSI features;
            features = drop_feature VIRTIO_BLK_F_CONFIG_WCE features;
            features = drop_feature VIRTIO_BLK_F_MQ features;
            features = drop_feature VIRTIO_F_ANY_LAYOUT features;
            features = drop_feature VIRTIO_RING_F_EVENT_IDX features;
            features = drop_feature VIRTIO_RING_F_INDIRECT_DESC features;
            s = reg_set VIRTIO_MMIO_DRIVER_FEATURES (ucast features) s;
            status = status OR VIRTIO_CONFIG_S_FEATURES_OK;
            s = reg_set VIRTIO_MMIO_STATUS status s;
            status = reg_get rd s VIRTIO_MMIO_STATUS
        in if status AND VIRTIO_CONFIG_S_FEATURES_OK = 0 then Inl (Panic ''virtio disk FEATURES_OK unset'')
           else
             let s = reg_set VIRTIO_MMIO_QUEUE_SEL 0 s
             in if reg_get rd s VIRTIO_MMIO_QUEUE_READY \<noteq> 0 then Inl (Panic ''virtio disk should not be ready'')
                else
                  let mx = reg_get rd s VIRTIO_MMIO_QUEUE_NUM_MAX
                  in if mx = 0 then Inl (Panic ''virtio disk has no queue 0'')
                     else if mx < of_nat NUM then Inl (Panic ''virtio disk max queue too short'')
                     else
                       bind_res (kalloc s) (\<lambda>(pd, s).
                       bind_res (kalloc s) (\<lambda>(pa, s).
                       bind_res (kalloc s) (\<lambda>(pu, s).
                       if pd = 0 \<or> pa = 0 \<or> pu = 0 then Inl (Panic ''virtio disk kalloc'')
                       else
                         let s = s\<lparr>mem := memset (memset (memset (mem s) pd 0 4096) pa 0 4096) pu 0 4096,
                               desc_pa := pd, avail_pa := pa, used_pa := pu, desc := \<lambda>_. zero_desc,
                               avail_idx := 0, avail_ring := \<lambda>_. 0, used_ring_idx := 0, used_ring := \<lambda>_. 0\<rparr>;
                             s = reg_set VIRTIO_MMIO_QUEUE_NUM (of_nat NUM) s;
                             s = reg_set VIRTIO_MMIO_QUEUE_DESC_LOW (ucast pd) s;
                             s = reg_set VIRTIO_MMIO_QUEUE_DESC_HIGH (ucast (drop_bit 32 pd)) s;
                             s = reg_set VIRTIO_MMIO_DRIVER_DESC_LOW (ucast pa) s;
                             s = reg_set VIRTIO_MMIO_DRIVER_DESC_HIGH (ucast (drop_bit 32 pa)) s;
                             s = reg_set VIRTIO_MMIO_DEVICE_DESC_LOW (ucast pu) s;
                             s = reg_set VIRTIO_MMIO_DEVICE_DESC_HIGH (ucast (drop_bit 32 pu)) s;
                             s = reg_set VIRTIO_MMIO_QUEUE_READY 1 s;
                             s = s\<lparr>dfree := \<lambda>i. if i < NUM then True else dfree s i\<rparr>
                         in Inr (reg_set VIRTIO_MMIO_STATUS (status OR VIRTIO_CONFIG_S_DRIVER_OK) s)))))"

section \<open>Descriptors\<close>

definition alloc_desc :: "'z kvirt_scheme \<Rightarrow> nat option \<times> 'z kvirt_scheme" where
  "alloc_desc s =
     (case find (dfree s) [0..<NUM] of
        Some i \<Rightarrow> (Some i, s\<lparr>dfree := (dfree s)(i := False)\<rparr>)
      | None \<Rightarrow> (None, s))"

definition free_desc :: "nat option \<Rightarrow> nat \<Rightarrow> 'z kvirt_scheme \<Rightarrow> 'z kvirt_scheme res" where
  "free_desc me i s =
     (if NUM \<le> i then Inl (Panic ''free_desc 1'')
      else if dfree s i then Inl (Panic ''free_desc 2'')
      else Inr (wakeup (s\<lparr>desc := (desc s)(i := zero_desc), dfree := (dfree s)(i := True)\<rparr>) me ChDiskFree))"

primrec free_chain_loop :: "nat \<Rightarrow> nat option \<Rightarrow> nat \<Rightarrow> 'z kvirt_scheme \<Rightarrow> 'z kvirt_scheme res" where
  "free_chain_loop 0 me i s = Inl OutOfFuel"
| "free_chain_loop (Suc fuel) me i s =
     (let flag = d_flags (desc s i);
          nxt = unat (d_next (desc s i))
      in bind_res (free_desc me i s) (\<lambda>s.
           if flag AND VRING_DESC_F_NEXT \<noteq> 0 then free_chain_loop fuel me nxt s else Inr s))"

definition free_chain :: "nat option \<Rightarrow> nat \<Rightarrow> 'z kvirt_scheme \<Rightarrow> 'z kvirt_scheme res" where
  "free_chain me i s = free_chain_loop (Suc NUM) me i s"

primrec alloc3_loop :: "nat \<Rightarrow> nat option \<Rightarrow> nat list \<Rightarrow> 'z kvirt_scheme \<Rightarrow> (nat list option \<times> 'z kvirt_scheme) res" where
  "alloc3_loop 0 me idx s = Inr (Some idx, s)"
| "alloc3_loop (Suc k) me idx s =
     (case alloc_desc s of
        (Some i, s) \<Rightarrow> alloc3_loop k me (idx @ [i]) s
      | (None, s) \<Rightarrow> bind_res (fold_res (free_desc me) idx s) (\<lambda>s. Inr (None, s)))"

definition alloc3_desc :: "nat option \<Rightarrow> 'z kvirt_scheme \<Rightarrow> (nat list option \<times> 'z kvirt_scheme) res" where
  "alloc3_desc me s = alloc3_loop 3 me [] s"

section \<open>Requests\<close>

text \<open>\<open>virtio_disk_rw\<close> from the allocated descriptors to the notification of the device.\<close>

definition rw_format :: "nat \<Rightarrow> uint \<Rightarrow> bool \<Rightarrow> nat \<Rightarrow> nat \<Rightarrow> nat \<Rightarrow> 'z kvirt_scheme \<Rightarrow> 'z kvirt_scheme" where
  "rw_format b blockno write i0 i1 i2 s =
     (let sector = ucast (blockno * 2) :: uint64;
          s = s\<lparr>vops := (vops s)(i0 := \<lparr>q_type = (if write then VIRTIO_BLK_T_OUT else VIRTIO_BLK_T_IN), q_reserved = 0, q_sector = sector\<rparr>)\<rparr>;
          s = s\<lparr>desc := (desc s)(i0 := \<lparr>d_addr = VOps i0, d_len = 16, d_flags = VRING_DESC_F_NEXT, d_next = of_nat i1\<rparr>)\<rparr>;
          s = s\<lparr>desc := (desc s)(i1 := \<lparr>d_addr = VData b, d_len = of_nat BSIZE,
                 d_flags = (if write then 0 else VRING_DESC_F_WRITE) OR VRING_DESC_F_NEXT, d_next = of_nat i2\<rparr>)\<rparr>;
          s = s\<lparr>info_status := (info_status s)(i0 := 0xff)\<rparr>;
          s = s\<lparr>desc := (desc s)(i2 := \<lparr>d_addr = VStatus i0, d_len = 1, d_flags = VRING_DESC_F_WRITE, d_next = 0\<rparr>)\<rparr>;
          s = s\<lparr>buf_disk := (buf_disk s)(b := 1), info_b := (info_b s)(i0 := Some b)\<rparr>;
          s = s\<lparr>avail_ring := (avail_ring s)(unat (avail_idx s) mod NUM := of_nat i0)\<rparr>;
          s = s\<lparr>avail_idx := avail_idx s + 1\<rparr>
      in reg_set VIRTIO_MMIO_QUEUE_NOTIFY 0 s)"

definition rw_submit :: "'z kvirt_scheme \<Rightarrow> nat \<Rightarrow> nat \<Rightarrow> uint \<Rightarrow> bool \<Rightarrow> ((nat \<times> nat \<times> nat) outcome \<times> 'z kvirt_scheme) res" where
  "rw_submit s me b blockno write =
     bind_res (alloc3_desc (Some me) s) (\<lambda>(r, s).
       case r of
         Some [i0, i1, i2] \<Rightarrow> Inr (Return (i0, i1, i2), rw_format b blockno write i0 i1 i2 s)
       | _ \<Rightarrow> Inr (Sleeps, sleep_begin s me ChDiskFree))"

text \<open>One round of the wait for the device, and the rest of the function.\<close>

definition rw_wait :: "'z kvirt_scheme \<Rightarrow> nat \<Rightarrow> nat \<Rightarrow> unit outcome \<times> 'z kvirt_scheme" where
  "rw_wait s me b = (if buf_disk s b = 1 then (Sleeps, sleep_begin s me (ChBuf b)) else (Return (), s))"

definition rw_finish :: "'z kvirt_scheme \<Rightarrow> nat \<Rightarrow> nat \<Rightarrow> 'z kvirt_scheme res" where
  "rw_finish s me i0 = free_chain (Some me) i0 (s\<lparr>info_b := (info_b s)(i0 := None)\<rparr>)"

section \<open>The interrupt handler\<close>

primrec intr_loop :: "nat \<Rightarrow> nat option \<Rightarrow> 'z kvirt_scheme \<Rightarrow> 'z kvirt_scheme res" where
  "intr_loop 0 me s = Inl OutOfFuel"
| "intr_loop (Suc fuel) me s =
     (if used_idx s \<noteq> used_ring_idx s then
        let i = unat (used_ring s (unat (used_idx s) mod NUM))
        in if NUM \<le> i then Inl OutOfBounds
           else if info_status s i \<noteq> 0 then Inl (Panic ''virtio_disk_intr status'')
           else
             case info_b s i of
               None \<Rightarrow> Inl NullDeref
             | Some b \<Rightarrow>
                 let s = wakeup (s\<lparr>buf_disk := (buf_disk s)(b := 0)\<rparr>) me (ChBuf b)
                 in intr_loop fuel me (s\<lparr>used_idx := used_idx s + 1\<rparr>)
      else Inr s)"

definition virtio_disk_intr :: "regs \<Rightarrow> nat option \<Rightarrow> 'z kvirt_scheme \<Rightarrow> 'z kvirt_scheme res" where
  "virtio_disk_intr rd me s =
     (let s = reg_set VIRTIO_MMIO_INTERRUPT_ACK (reg_get rd s VIRTIO_MMIO_INTERRUPT_STATUS AND 3) s
      in intr_loop (Suc (unat (used_ring_idx s - used_idx s))) me s)"

section \<open>The loops terminate\<close>

definition busy_descs :: "'z kvirt_scheme \<Rightarrow> nat set" where
  "busy_descs s = {i. i < NUM \<and> \<not> dfree s i}"

lemma card_busy_descs: "finite (busy_descs s)" "card (busy_descs s) \<le> NUM"
proof -
  have "busy_descs s \<subseteq> {..<NUM}" by (auto simp: busy_descs_def)
  then show "finite (busy_descs s)" "card (busy_descs s) \<le> NUM"
    using finite_subset card_mono [of "{..<NUM}"] by auto
qed

lemma free_desc_Inr:
  "free_desc me i s = Inr s' \<Longrightarrow> i < NUM \<and> \<not> dfree s i \<and> dfree s' = (dfree s)(i := True)"
  by (auto simp: free_desc_def wakeup_procs split: if_splits)

lemma free_chain_loop_fuel: "card (busy_descs s) < fuel \<Longrightarrow> free_chain_loop fuel me i s \<noteq> Inl OutOfFuel"
proof (induction fuel arbitrary: i s)
  case (Suc fuel)
  show ?case
  proof (cases "free_desc me i s")
    case (Inl e)
    then show ?thesis by (auto simp: free_desc_def Let_def split: if_splits)
  next
    case (Inr s')
    note f = free_desc_Inr [OF Inr]
    have "busy_descs s' = busy_descs s - {i}" "i \<in> busy_descs s" using f by (auto simp: busy_descs_def)
    then have "card (busy_descs s') < fuel"
      using Suc.prems card_busy_descs(1) [of s] card_Diff1_less [of "busy_descs s" i] by simp
    then show ?thesis using Suc.IH Inr by (auto simp: Let_def)
  qed
qed simp

lemma intr_loop_fuel:
  "unat (used_ring_idx s - used_idx s) < fuel \<Longrightarrow> intr_loop fuel me s \<noteq> Inl OutOfFuel"
proof (induction fuel arbitrary: s)
  case (Suc fuel)
  have "unat (used_ring_idx s - (used_idx s + 1)) < fuel" if "used_idx s \<noteq> used_ring_idx s"
    using ring_contents_get(2) [of 1, OF _ that] Suc.prems that
      unat_gt_0 [of "used_ring_idx s - used_idx s"] by auto
  then show ?case
    using Suc.IH by (auto simp: Let_def wakeup_procs split: option.splits)
qed simp


section \<open>Descriptor allocation\<close>

definition drv_same :: "'z kvirt_scheme \<Rightarrow> 'z kvirt_scheme \<Rightarrow> bool" where
  "drv_same s s' \<longleftrightarrow> avail_idx s' = avail_idx s \<and> avail_ring s' = avail_ring s \<and> used_ring_idx s' = used_ring_idx s \<and>
     used_ring s' = used_ring s \<and> used_idx s' = used_idx s \<and> info_b s' = info_b s \<and> info_status s' = info_status s \<and>
     vops s' = vops s \<and> buf_disk s' = buf_disk s"

lemma drv_same_trans: "drv_same s s1 \<Longrightarrow> drv_same s1 s2 \<Longrightarrow> drv_same s s2"
  by (simp add: drv_same_def)

lemma free_desc_ok:
  assumes "i < NUM" "\<not> dfree s i"
  shows "\<exists>s'. free_desc me i s = Inr s' \<and> drv_same s s' \<and> desc s' = (desc s)(i := zero_desc) \<and> dfree s' = (dfree s)(i := True)"
  using assms by (simp add: free_desc_def drv_same_def wakeup_procs)

lemma alloc_desc_cases:
  obtains (some) i where "i < NUM" "dfree s i" "alloc_desc s = (Some i, s\<lparr>dfree := (dfree s)(i := False)\<rparr>)"
  | (none) "\<forall>i < NUM. \<not> dfree s i" "alloc_desc s = (None, s)"
proof (cases "find (dfree s) [0..<NUM]")
  case None
  then have "\<forall>i < NUM. \<not> dfree s i" by (auto simp: find_None_iff)
  with None show ?thesis using none by (simp add: alloc_desc_def)
next
  case (Some i)
  then have "i < NUM" "dfree s i" by (auto simp: find_Some_iff)
  with Some show ?thesis using some [of i] by (simp add: alloc_desc_def)
qed

text \<open>The descriptors taken before a failure are given back.\<close>

lemma free_descs_ok:
  assumes "distinct idx" "\<forall>i \<in> set idx. i < NUM \<and> \<not> dfree s i"
  shows "\<exists>s'. fold_res (free_desc me) idx s = Inr s' \<and> drv_same s s' \<and>
    (\<forall>i. i \<notin> set idx \<longrightarrow> desc s' i = desc s i) \<and> dfree s' = (\<lambda>i. i \<in> set idx \<or> dfree s i)"
  using assms
proof (induction idx arbitrary: s)
  case (Cons i idx)
  obtain s1 where s1: "free_desc me i s = Inr s1" "drv_same s s1" "desc s1 = (desc s)(i := zero_desc)" "dfree s1 = (dfree s)(i := True)"
    using free_desc_ok [of i s me] Cons.prems by auto
  have pre: "\<forall>j \<in> set idx. j < NUM \<and> \<not> dfree s1 j" using Cons.prems s1(4) by auto
  obtain s2 where s2: "fold_res (free_desc me) idx s1 = Inr s2" "drv_same s1 s2"
    "\<forall>j. j \<notin> set idx \<longrightarrow> desc s2 j = desc s1 j" "dfree s2 = (\<lambda>j. j \<in> set idx \<or> dfree s1 j)"
    using Cons.IH [OF _ pre] Cons.prems(1) by (metis distinct.simps(2))
  show ?case using s1 s2 drv_same_trans [OF s1(2) s2(2)] by (intro exI [of _ s2]) auto
qed (simp add: drv_same_def)

lemma alloc3_loop_cases:
  assumes "distinct idx" "\<forall>i \<in> set idx. i < NUM \<and> \<not> dfree s i"
  shows "(\<exists>js. alloc3_loop k me idx s = Inr (Some (idx @ js), s\<lparr>dfree := \<lambda>i. i \<notin> set js \<and> dfree s i\<rparr>) \<and>
      length js = k \<and> distinct (idx @ js) \<and> (\<forall>j \<in> set js. j < NUM \<and> dfree s j)) \<or>
    (\<exists>s'. alloc3_loop k me idx s = Inr (None, s') \<and> drv_same s s' \<and>
      (\<forall>i. i \<notin> set idx \<longrightarrow> \<not> dfree s i \<longrightarrow> desc s' i = desc s i) \<and> dfree s' = (\<lambda>i. i \<in> set idx \<or> dfree s i))"
  using assms
proof (induction k arbitrary: idx s)
  case (Suc k)
  show ?case
  proof (cases s rule: alloc_desc_cases)
    case (some i)
    let ?t = "s\<lparr>dfree := (dfree s)(i := False)\<rparr>"
    have d: "distinct (idx @ [i])" "\<forall>j \<in> set (idx @ [i]). j < NUM \<and> \<not> dfree ?t j" using Suc.prems some by auto
    from Suc.IH [OF d] show ?thesis
    proof (elim disjE exE conjE)
      fix js assume js: "alloc3_loop k me (idx @ [i]) ?t = Inr (Some ((idx @ [i]) @ js), ?t\<lparr>dfree := \<lambda>j. j \<notin> set js \<and> dfree ?t j\<rparr>)"
        "length js = k" "distinct ((idx @ [i]) @ js)" "\<forall>j \<in> set js. j < NUM \<and> dfree ?t j"
      have "(\<lambda>j. j \<notin> set js \<and> ((dfree s)(i := False)) j) = (\<lambda>j. j \<notin> set (i # js) \<and> dfree s j)" by auto
      with js some show ?thesis by (intro disjI1 exI [of _ "i # js"]) (auto split: if_splits)
    next
      fix s' assume s': "alloc3_loop k me (idx @ [i]) ?t = Inr (None, s')" "drv_same ?t s'"
        "\<forall>j. j \<notin> set (idx @ [i]) \<longrightarrow> \<not> dfree ?t j \<longrightarrow> desc s' j = desc ?t j" "dfree s' = (\<lambda>j. j \<in> set (idx @ [i]) \<or> dfree ?t j)"
      with some show ?thesis by (intro disjI2 exI [of _ s']) (auto simp: drv_same_def)
    qed
  next
    case none
    with free_descs_ok [OF Suc.prems, of me] show ?thesis by auto
  qed
qed simp

lemma alloc3_desc_cases:
  obtains (some) i0 i1 i2 where "alloc3_desc me s = Inr (Some [i0, i1, i2], s\<lparr>dfree := \<lambda>i. i \<notin> {i0, i1, i2} \<and> dfree s i\<rparr>)"
      "distinct [i0, i1, i2]" "\<forall>i \<in> {i0, i1, i2}. i < NUM \<and> dfree s i"
  | (none) s' where "alloc3_desc me s = Inr (None, s')" "drv_same s s'" "\<forall>i. \<not> dfree s i \<longrightarrow> desc s' i = desc s i" "dfree s' = dfree s"
proof -
  have "(\<exists>js. alloc3_desc me s = Inr (Some js, s\<lparr>dfree := \<lambda>i. i \<notin> set js \<and> dfree s i\<rparr>) \<and>
      length js = 3 \<and> distinct js \<and> (\<forall>j \<in> set js. j < NUM \<and> dfree s j)) \<or>
    (\<exists>s'. alloc3_desc me s = Inr (None, s') \<and> drv_same s s' \<and> (\<forall>i. \<not> dfree s i \<longrightarrow> desc s' i = desc s i) \<and> dfree s' = dfree s)"
    using alloc3_loop_cases [of "[]" s 3 me] unfolding alloc3_desc_def by simp
  then show ?thesis
  proof (elim disjE exE conjE)
    fix js assume js: "alloc3_desc me s = Inr (Some js, s\<lparr>dfree := \<lambda>i. i \<notin> set js \<and> dfree s i\<rparr>)"
      "length js = 3" "distinct js" "\<forall>j \<in> set js. j < NUM \<and> dfree s j"
    obtain i0 i1 i2 where "js = [i0, i1, i2]" using js(2) by (auto simp: numeral_3_eq_3 length_Suc_conv)
    then show ?thesis using js some [of i0 i1 i2] by simp
  next
    fix s' assume "alloc3_desc me s = Inr (None, s')" "drv_same s s'" "\<forall>i. \<not> dfree s i \<longrightarrow> desc s' i = desc s i" "dfree s' = dfree s"
    then show ?thesis by (rule none)
  qed
qed

end
