(* ===== verification/Vdriver.thy ===== *)
theory Vdriver
  imports Virtio "HOL-Library.Multiset"
begin

text \<open>
  The disk driver and the device together. The steps of the system are the parts of the
  driver's functions between two sleeps, in any order and for any number of processes, and
  the moves of the device: it fetches the next entry of the available ring, and it completes any
  of the requests it has fetched, in any order. A process calls \<open>virtio_disk_rw\<close> with the
  sleep lock of the buffer held (\<open>bread\<close> and \<open>bwrite\<close> of \<open>kernel/bio.c\<close>), so at most one call per buffer is under way.
\<close>

section \<open>The device\<close>

record blk_op =
  op_type :: uint
  op_sector :: uint64
  op_buf :: nat

type_synonym 'z device = "'z kvirt_scheme \<Rightarrow> nat \<Rightarrow> blk_op \<times> 'z kvirt_scheme"

text \<open>The chain at descriptor \<open>i\<close> is a block request as the virtio specification (5.2) has it: a header, one block, a status byte.\<close>

definition request_at :: "'z kvirt_scheme \<Rightarrow> nat \<Rightarrow> nat \<Rightarrow> nat \<Rightarrow> nat \<Rightarrow> bool" where
  "request_at s i k b j \<longleftrightarrow>
     (let d0 = desc s i; d1 = desc s (unat (d_next d0)); d2 = desc s (unat (d_next d1))
      in d_addr d0 = VOps k \<and> d_len d0 = 16 \<and> d_flags d0 = VRING_DESC_F_NEXT \<and>
         d_addr d1 = VData b \<and> d_len d1 = of_nat BSIZE \<and> d_flags d1 AND VRING_DESC_F_NEXT \<noteq> 0 \<and>
         d_addr d2 = VStatus j \<and> d_len d2 = 1 \<and> d_flags d2 = VRING_DESC_F_WRITE \<and>
         (if d_flags d1 AND VRING_DESC_F_WRITE \<noteq> 0 then q_type (vops s k) = VIRTIO_BLK_T_IN
          else q_type (vops s k) = VIRTIO_BLK_T_OUT))"

text \<open>What the driver relies on: a device that completes a well-formed request carries out the operation its header names on the
  block its second descriptor names, writes 0 to the status byte, and adds the head of the chain to the used ring.\<close>

definition conforming :: "'z device \<Rightarrow> bool" where
  "conforming dev \<longleftrightarrow> (\<forall>s i k b j. request_at s i k b j \<longrightarrow>
     dev s i = (\<lparr>op_type = q_type (vops s k), op_sector = q_sector (vops s k), op_buf = b\<rparr>,
       s\<lparr>info_status := (info_status s)(j := 0),
         used_ring := (used_ring s)(unat (used_ring_idx s) mod NUM := of_nat i),
         used_ring_idx := used_ring_idx s + 1\<rparr>))"

section \<open>Steps\<close>

record vcall =
  vc_write :: bool
  vc_blockno :: uint
  vc_i0 :: nat
  vc_i1 :: nat
  vc_i2 :: nat

text \<open>Beside the driver's state: how far the device has read the available ring, the requests it works on, the calls of
  \<open>virtio_disk_rw\<close> past their submission, by buffer, and the operations done by the device and asked for by the calls that have returned.\<close>

record vsys =
  dev_seen :: uint16
  dev_busy :: "nat list"
  calls :: "nat \<Rightarrow> vcall option"
  dev_ops :: "blk_op list"
  returned :: "blk_op list"

definition vsys0 :: vsys where
  "vsys0 = \<lparr>dev_seen = 0, dev_busy = [], calls = Map.empty, dev_ops = [], returned = []\<rparr>"

text \<open>The operation a call asks for.\<close>

definition call_op :: "nat \<Rightarrow> vcall \<Rightarrow> blk_op" where
  "call_op b k = \<lparr>op_type = (if vc_write k then VIRTIO_BLK_T_OUT else VIRTIO_BLK_T_IN),
     op_sector = ucast (vc_blockno k * 2), op_buf = b\<rparr>"

inductive vreach :: "'z device \<Rightarrow> regs \<Rightarrow> 'z kvirt_scheme \<Rightarrow> vsys \<Rightarrow> bool" for dev rd where
  boot: "virtio_disk_init rd z = Inr s \<Longrightarrow> used_idx z = 0 \<Longrightarrow> vreach dev rd s vsys0"
| submit: "vreach dev rd s c \<Longrightarrow> calls c b = None \<Longrightarrow> rw_submit s me b n w = Inr (Return (i0, i1, i2), s') \<Longrightarrow>
    vreach dev rd s' (c\<lparr>calls := (calls c)(b \<mapsto> \<lparr>vc_write = w, vc_blockno = n, vc_i0 = i0, vc_i1 = i1, vc_i2 = i2\<rparr>)\<rparr>)"
| full: "vreach dev rd s c \<Longrightarrow> calls c b = None \<Longrightarrow> rw_submit s me b n w = Inr (Sleeps, s') \<Longrightarrow> vreach dev rd s' c"
| fetch: "vreach dev rd s c \<Longrightarrow> dev_seen c \<noteq> avail_idx s \<Longrightarrow>
    vreach dev rd s (c\<lparr>dev_seen := dev_seen c + 1, dev_busy := dev_busy c @ [unat (avail_ring s (unat (dev_seen c) mod NUM))]\<rparr>)"
| complete: "vreach dev rd s c \<Longrightarrow> i \<in> set (dev_busy c) \<Longrightarrow> dev s i = (opn, s') \<Longrightarrow>
    vreach dev rd s' (c\<lparr>dev_busy := remove1 i (dev_busy c), dev_ops := dev_ops c @ [opn]\<rparr>)"
| intr: "vreach dev rd s c \<Longrightarrow> virtio_disk_intr rd me s = Inr s' \<Longrightarrow> vreach dev rd s' c"
| waits: "vreach dev rd s c \<Longrightarrow> calls c b = Some k \<Longrightarrow> rw_wait s p b = (Sleeps, s') \<Longrightarrow> vreach dev rd s' c"
| finish: "vreach dev rd s c \<Longrightarrow> calls c b = Some k \<Longrightarrow> rw_wait s p b = (Return (), s) \<Longrightarrow> rw_finish s p (vc_i0 k) = Inr s' \<Longrightarrow>
    vreach dev rd s' (c\<lparr>calls := (calls c)(b := None), returned := returned c @ [call_op b k]\<rparr>)"
| others: "vreach dev rd s c \<Longrightarrow> vreach dev rd (s\<lparr>procs := ps\<rparr>) c"

section \<open>The invariant\<close>

definition queued :: "'z kvirt_scheme \<Rightarrow> vsys \<Rightarrow> nat list" where
  "queued s c = map unat (ring_contents NUM (avail_ring s) (dev_seen c) (avail_idx s))"

definition finished :: "'z kvirt_scheme \<Rightarrow> nat list" where
  "finished s = map unat (ring_contents NUM (used_ring s) (used_idx s) (used_ring_idx s))"

text \<open>Requests the device still has to complete, and those the driver has not been told about.\<close>

definition undone :: "'z kvirt_scheme \<Rightarrow> vsys \<Rightarrow> nat list" where
  "undone s c = queued s c @ dev_busy c"

definition pending :: "'z kvirt_scheme \<Rightarrow> vsys \<Rightarrow> nat list" where
  "pending s c = undone s c @ finished s"

definition idxs :: "vcall \<Rightarrow> nat set" where
  "idxs k = {vc_i0 k, vc_i1 k, vc_i2 k}"

definition call_ok :: "'z kvirt_scheme \<Rightarrow> nat \<Rightarrow> vcall \<Rightarrow> bool" where
  "call_ok s b k \<longleftrightarrow> distinct [vc_i0 k, vc_i1 k, vc_i2 k] \<and> (\<forall>i \<in> idxs k. i < NUM \<and> \<not> dfree s i) \<and>
     desc s (vc_i0 k) = \<lparr>d_addr = VOps (vc_i0 k), d_len = 16, d_flags = VRING_DESC_F_NEXT, d_next = of_nat (vc_i1 k)\<rparr> \<and>
     desc s (vc_i1 k) = \<lparr>d_addr = VData b, d_len = of_nat BSIZE,
       d_flags = (if vc_write k then 0 else VRING_DESC_F_WRITE) OR VRING_DESC_F_NEXT, d_next = of_nat (vc_i2 k)\<rparr> \<and>
     desc s (vc_i2 k) = \<lparr>d_addr = VStatus (vc_i0 k), d_len = 1, d_flags = VRING_DESC_F_WRITE, d_next = 0\<rparr> \<and>
     vops s (vc_i0 k) = \<lparr>q_type = op_type (call_op b k), q_reserved = 0, q_sector = op_sector (call_op b k)\<rparr> \<and>
     info_b s (vc_i0 k) = Some b"

text \<open>Every descriptor in use belongs to exactly one call.\<close>

definition owned :: "'z kvirt_scheme \<Rightarrow> vsys \<Rightarrow> bool" where
  "owned s c \<longleftrightarrow> (\<forall>b k. calls c b = Some k \<longrightarrow> call_ok s b k) \<and>
     (\<forall>b b' k k'. calls c b = Some k \<longrightarrow> calls c b' = Some k' \<longrightarrow> b \<noteq> b' \<longrightarrow> idxs k \<inter> idxs k' = {}) \<and>
     (\<forall>i < NUM. \<not> dfree s i \<longrightarrow> (\<exists>b k. calls c b = Some k \<and> i \<in> idxs k))"

text \<open>Every request is in one place, and a buffer is marked exactly while its request is on the way.\<close>

definition tracked :: "'z kvirt_scheme \<Rightarrow> vsys \<Rightarrow> bool" where
  "tracked s c \<longleftrightarrow> distinct (pending s c) \<and>
     (\<forall>h \<in> set (pending s c). \<exists>b k. calls c b = Some k \<and> vc_i0 k = h) \<and>
     (\<forall>b k. calls c b = Some k \<longrightarrow> (vc_i0 k \<in> set (pending s c) \<longleftrightarrow> buf_disk s b = 1)) \<and>
     (\<forall>h \<in> set (finished s). info_status s h = 0)"

text \<open>The calls whose operation has been carried out.\<close>

definition done_calls :: "nat set \<Rightarrow> vsys \<Rightarrow> nat set" where
  "done_calls U c = {b. \<exists>k. calls c b = Some k \<and> vc_i0 k \<notin> U}"

definition done_ops :: "nat set \<Rightarrow> vsys \<Rightarrow> blk_op multiset" where
  "done_ops U c = image_mset (\<lambda>b. call_op b (the (calls c b))) (mset_set (done_calls U c))"

definition accounted :: "'z kvirt_scheme \<Rightarrow> vsys \<Rightarrow> bool" where
  "accounted s c \<longleftrightarrow> finite (dom (calls c)) \<and>
     mset (dev_ops c) = mset (returned c) + done_ops (set (undone s c)) c"

definition qinv :: "'z kvirt_scheme \<Rightarrow> vsys \<Rightarrow> bool" where
  "qinv s c \<longleftrightarrow> owned s c \<and> tracked s c \<and> accounted s c"

text \<open>The invariant reads only part of the driver's state.\<close>

lemma qinv_cong:
  assumes "qinv s c" "drv_same s s'" "dfree s' = dfree s" "\<forall>i. \<not> dfree s i \<longrightarrow> desc s' i = desc s i"
  shows "qinv s' c"
proof -
  have "call_ok s b k \<Longrightarrow> call_ok s' b k" for b k
    using assms(2-4) by (auto simp: call_ok_def drv_same_def idxs_def)
  moreover have "queued s' c = queued s c" "finished s' = finished s"
    using assms(2) by (simp_all add: queued_def finished_def drv_same_def)
  ultimately show ?thesis using assms(1-3)
    by (simp add: qinv_def owned_def tracked_def accounted_def pending_def undone_def drv_same_def)
qed

lemma driver_of_more: "kmem.more s' = kmem.more s \<Longrightarrow> used_idx s' = used_idx s \<and> dfree s' = dfree s"
  for s s' :: "'z kvirt_scheme"
  by (cases s; cases s') simp

lemma virtio_disk_init_queue:
  assumes "virtio_disk_init rd z = Inr s"
  shows "dfree s = (\<lambda>i. if i < NUM then True else dfree z i) \<and> avail_idx s = 0 \<and> used_ring_idx s = 0 \<and> used_idx s = used_idx z"
  using assms by (auto simp: virtio_disk_init_def Let_def reg_set_def bind_res_Inr_iff split: if_splits dest!: kalloc_more driver_of_more)

lemma qinv_init:
  assumes "virtio_disk_init rd z = Inr s" "used_idx z = 0"
  shows "qinv s vsys0"
  using virtio_disk_init_queue [OF assms(1)] assms(2)
  by (auto simp: qinv_def owned_def tracked_def accounted_def vsys0_def pending_def undone_def queued_def finished_def
      ring_contents_def done_ops_def done_calls_def)

section \<open>Preservation\<close>

lemma NUM_ring [simp]: "NUM dvd 65536" "NUM < 65536" "0 < NUM"
  by (simp_all add: NUM_def)

lemma unat_index [simp]: "i < NUM \<Longrightarrow> unat (of_nat i :: uint16) = i" "i < NUM \<Longrightarrow> unat (of_nat i :: uint) = i"
  by (simp_all add: NUM_def unat_of_nat)

lemma ownedD:
  assumes "owned s c" "calls c b = Some k"
  shows "call_ok s b k" "vc_i0 k < NUM" "\<not> dfree s (vc_i0 k)" "info_b s (vc_i0 k) = Some b"
    and "calls c b' = Some k' \<Longrightarrow> idxs k \<inter> idxs k' \<noteq> {} \<Longrightarrow> b' = b"
proof -
  show ok: "call_ok s b k" using assms unfolding owned_def by blast
  then show "vc_i0 k < NUM" "\<not> dfree s (vc_i0 k)" "info_b s (vc_i0 k) = Some b" by (simp_all add: call_ok_def idxs_def)
  show "calls c b' = Some k' \<Longrightarrow> idxs k \<inter> idxs k' \<noteq> {} \<Longrightarrow> b' = b" using assms unfolding owned_def by metis
qed

lemma same_head: "owned s c \<Longrightarrow> calls c b = Some k \<Longrightarrow> calls c b' = Some k' \<Longrightarrow> vc_i0 k' = vc_i0 k \<Longrightarrow> b' = b"
  using ownedD(5) by (metis disjoint_iff idxs_def insertI1)

lemma pending_busy:
  assumes "owned s c" "tracked s c" "h \<in> set (pending s c)"
  shows "h < NUM" "\<not> dfree s h"
  using assms ownedD(2,3) by (metis tracked_def)+

text \<open>The rings have room.\<close>

lemma queued_room:
  assumes "owned s c" "tracked s c" "i < NUM" "i \<notin> set (pending s c)"
  shows "unat (avail_idx s - dev_seen c) < NUM"
proof -
  have "set (queued s c) \<subseteq> {..<NUM} - {i}" using pending_busy(1) [OF assms(1,2)] assms(4) by (auto simp: pending_def undone_def)
  then have "card (set (queued s c)) \<le> NUM - 1" using card_mono [of "{..<NUM} - {i}"] assms(3) by simp
  moreover have "card (set (queued s c)) = unat (avail_idx s - dev_seen c)"
    using assms(2) distinct_card [of "queued s c"] by (simp add: tracked_def pending_def undone_def queued_def)
  ultimately show ?thesis using NUM_ring(3) by linarith
qed

lemma finished_room:
  assumes "owned s c" "tracked s c" "i \<in> set (dev_busy c)"
  shows "unat (used_ring_idx s - used_idx s) < NUM"
proof -
  have i: "i < NUM" "i \<notin> set (finished s)"
    using pending_busy(1) [OF assms(1,2), of i] assms(2,3) by (auto simp: pending_def undone_def tracked_def)
  have "set (finished s) \<subseteq> {..<NUM} - {i}" using pending_busy(1) [OF assms(1,2)] i(2) by (auto simp: pending_def)
  then have "card (set (finished s)) \<le> NUM - 1" using card_mono [of "{..<NUM} - {i}"] i(1) by simp
  moreover have "card (set (finished s)) = unat (used_ring_idx s - used_idx s)"
    using assms(2) distinct_card [of "finished s"] by (simp add: tracked_def pending_def finished_def)
  ultimately show ?thesis using NUM_ring(3) by linarith
qed

subsection \<open>Submission\<close>

lemma in_mset_set_elem: "x \<in># mset_set A \<Longrightarrow> (x \<in> A \<Longrightarrow> R) \<Longrightarrow> R"
  by (cases "finite A") auto

lemma done_ops_submit:
  assumes "calls c b = None" "\<forall>b' k'. calls c b' = Some k' \<longrightarrow> vc_i0 k' \<noteq> vc_i0 k"
  shows "done_ops (insert (vc_i0 k) U) (c\<lparr>calls := (calls c)(b \<mapsto> k)\<rparr>) = done_ops U c"
proof -
  have d: "done_calls (insert (vc_i0 k) U) (c\<lparr>calls := (calls c)(b \<mapsto> k)\<rparr>) = done_calls U c"
    using assms by (auto simp: done_calls_def)
  have nb: "b \<notin> done_calls U c" using assms(1) by (simp add: done_calls_def)
  show ?thesis unfolding done_ops_def d
    using nb by (intro image_mset_cong) (auto simp: done_calls_def elim!: in_mset_set_elem)
qed

lemma rw_format_fields:
  "dfree (rw_format b n w i0 i1 i2 s) = dfree s"
  "avail_idx (rw_format b n w i0 i1 i2 s) = avail_idx s + 1"
  "avail_ring (rw_format b n w i0 i1 i2 s) = (avail_ring s)(unat (avail_idx s) mod NUM := of_nat i0)"
  "used_ring_idx (rw_format b n w i0 i1 i2 s) = used_ring_idx s" "used_ring (rw_format b n w i0 i1 i2 s) = used_ring s"
  "used_idx (rw_format b n w i0 i1 i2 s) = used_idx s"
  "info_b (rw_format b n w i0 i1 i2 s) = (info_b s)(i0 := Some b)"
  "info_status (rw_format b n w i0 i1 i2 s) = (info_status s)(i0 := 0xff)"
  "buf_disk (rw_format b n w i0 i1 i2 s) = (buf_disk s)(b := 1)"
  "j \<notin> {i0, i1, i2} \<Longrightarrow> desc (rw_format b n w i0 i1 i2 s) j = desc s j"
  "j \<noteq> i0 \<Longrightarrow> vops (rw_format b n w i0 i1 i2 s) j = vops s j"
  by (simp_all add: rw_format_def Let_def reg_set_def)

lemma calls_upd: "calls (c\<lparr>calls := f\<rparr>) = f"
  by simp

definition submitted :: "'z kvirt_scheme \<Rightarrow> nat \<Rightarrow> vcall \<Rightarrow> 'z kvirt_scheme" where
  "submitted s b k = rw_format b (vc_blockno k) (vc_write k) (vc_i0 k) (vc_i1 k) (vc_i2 k)
     (s\<lparr>dfree := \<lambda>i. i \<notin> {vc_i0 k, vc_i1 k, vc_i2 k} \<and> dfree s i\<rparr>)"

definition fresh_idxs :: "'z kvirt_scheme \<Rightarrow> vcall \<Rightarrow> bool" where
  "fresh_idxs s k \<longleftrightarrow> distinct [vc_i0 k, vc_i1 k, vc_i2 k] \<and> (\<forall>i \<in> idxs k. i < NUM \<and> dfree s i)"

lemma call_ok_submitted: "fresh_idxs s k \<Longrightarrow> call_ok (submitted s b k) b k"
  by (auto simp: call_ok_def fresh_idxs_def idxs_def submitted_def rw_format_def Let_def reg_set_def call_op_def)

lemma call_ok_other:
  assumes "fresh_idxs s k" "call_ok s b' k'"
  shows "call_ok (submitted s b k) b' k'" "idxs k' \<inter> idxs k = {}"
proof -
  have j: "j \<notin> idxs k" "j \<noteq> vc_i0 k" if "j \<in> idxs k'" for j using assms that by (auto simp: fresh_idxs_def call_ok_def idxs_def)
  then show "idxs k' \<inter> idxs k = {}" by blast
  have e: "desc (submitted s b k) j = desc s j" "vops (submitted s b k) j = vops s j" "info_b (submitted s b k) j = info_b s j"
    "dfree (submitted s b k) j = dfree s j" if "j \<in> idxs k'" for j
    using j [OF that] by (auto simp: submitted_def rw_format_fields idxs_def)
  have m: "vc_i0 k' \<in> idxs k'" "vc_i1 k' \<in> idxs k'" "vc_i2 k' \<in> idxs k'" by (simp_all add: idxs_def)
  show "call_ok (submitted s b k) b' k'" using assms(2) e m by (simp add: call_ok_def)
qed

lemma owned_submit:
  assumes "owned s c" "calls c b = None" "fresh_idxs s k"
  shows "owned (submitted s b k) (c\<lparr>calls := (calls c)(b \<mapsto> k)\<rparr>)"
proof -
  have ok: "call_ok s b' k'" if "calls c b' = Some k'" for b' k' using assms(1) that by (rule ownedD(1))
  have dj: "idxs k' \<inter> idxs k = {}" if "calls c b' = Some k'" for b' k' using call_ok_other(2) [OF assms(3) ok [OF that]] .
  have 1: "call_ok (submitted s b k) b' k'" if "((calls c)(b \<mapsto> k)) b' = Some k'" for b' k'
    using that call_ok_submitted [OF assms(3)] call_ok_other(1) [OF assms(3) ok] by (auto split: if_splits)
  have 2: "idxs k1 \<inter> idxs k2 = {}" if "((calls c)(b \<mapsto> k)) b1 = Some k1" "((calls c)(b \<mapsto> k)) b2 = Some k2" "b1 \<noteq> b2" for b1 b2 k1 k2
    using that dj ownedD(5) [OF assms(1)] by (auto split: if_splits) (metis IntI empty_iff)+
  have 3: "\<exists>b' k'. ((calls c)(b \<mapsto> k)) b' = Some k' \<and> i \<in> idxs k'" if "i < NUM" "\<not> dfree (submitted s b k) i" for i
  proof (cases "i \<in> idxs k")
    case False
    then have "\<not> dfree s i" "i < NUM" using that by (auto simp: submitted_def rw_format_fields idxs_def)
    then obtain b' k' where "calls c b' = Some k'" "i \<in> idxs k'" using assms(1) unfolding owned_def by blast
    moreover from this have "b' \<noteq> b" using assms(2) by auto
    ultimately show ?thesis by auto
  qed auto
  show ?thesis using 1 2 3 unfolding owned_def calls_upd by blast
qed

lemma queued_submit:
  assumes "owned s c" "tracked s c" "fresh_idxs s k"
  shows "queued (submitted s b k) (c\<lparr>calls := (calls c)(b \<mapsto> k)\<rparr>) = queued s c @ [vc_i0 k]" "vc_i0 k \<notin> set (pending s c)"
proof -
  have k: "vc_i0 k < NUM" "dfree s (vc_i0 k)" using assms(3) by (simp_all add: fresh_idxs_def idxs_def)
  show np: "vc_i0 k \<notin> set (pending s c)" using pending_busy(2) [OF assms(1,2)] k(2) by blast
  show "queued (submitted s b k) (c\<lparr>calls := (calls c)(b \<mapsto> k)\<rparr>) = queued s c @ [vc_i0 k]"
    using ring_contents_put(1) [of NUM "avail_idx s" "dev_seen c" "avail_ring s" "of_nat (vc_i0 k)"] queued_room [OF assms(1,2) k(1) np] k(1)
    by (simp add: queued_def submitted_def rw_format_fields)
qed

lemma qinv_submit:
  assumes "qinv s c" "calls c b = None" "fresh_idxs s k"
  shows "qinv (submitted s b k) (c\<lparr>calls := (calls c)(b \<mapsto> k)\<rparr>)" (is "qinv ?t ?c")
proof -
  have o: "owned s c" and t: "tracked s c" and a: "accounted s c" using assms(1) by (simp_all add: qinv_def)
  note q = queued_submit(1) [OF o t assms(3), of b] queued_submit(2) [OF o t assms(3)]
  have f: "finished ?t = finished s" by (simp add: finished_def submitted_def rw_format_fields)
  have u: "set (undone ?t ?c) = insert (vc_i0 k) (set (undone s c))" by (simp add: undone_def q(1))
  have p: "set (pending ?t ?c) = insert (vc_i0 k) (set (pending s c))" by (simp add: pending_def u f)
  have hd: "vc_i0 k' \<noteq> vc_i0 k" if "calls c b' = Some k'" for b' k'
    using ownedD(3) [OF o that] assms(3) by (auto simp: fresh_idxs_def idxs_def)
  have "distinct (pending ?t ?c)" using t q(2) by (auto simp: tracked_def pending_def undone_def q(1) f)
  moreover have "\<exists>b' k'. calls ?c b' = Some k' \<and> vc_i0 k' = h" if "h \<in> set (pending ?t ?c)" for h
    using that t assms(2) unfolding p tracked_def by (auto, metis option.distinct(1))
  moreover have "vc_i0 k' \<in> set (pending ?t ?c) \<longleftrightarrow> buf_disk ?t b' = 1" if "calls ?c b' = Some k'" for b' k'
    using that t hd [of b' k'] unfolding p tracked_def by (cases "b' = b") (auto simp: submitted_def rw_format_fields)
  moreover have "info_status ?t h = 0" if "h \<in> set (finished ?t)" for h
    using that t q(2) unfolding f tracked_def by (auto simp: submitted_def rw_format_fields pending_def)
  ultimately have t': "tracked ?t ?c" unfolding tracked_def by blast
  have "accounted ?t ?c"
    using a done_ops_submit [OF assms(2), of k "set (undone s c)"] hd by (simp add: accounted_def u)
  with t' owned_submit [OF o assms(2,3)] show ?thesis by (simp add: qinv_def)
qed

lemma rw_submit_cases:
  assumes "qinv s c" "calls c b = None"
  shows "(\<exists>k. rw_submit s me b n w = Inr (Return (vc_i0 k, vc_i1 k, vc_i2 k), submitted s b k) \<and>
      vc_write k = w \<and> vc_blockno k = n \<and> fresh_idxs s k) \<or>
    (\<exists>s'. rw_submit s me b n w = Inr (Sleeps, s') \<and> qinv s' c)"
proof (cases "Some me" s rule: alloc3_desc_cases)
  case (some i0 i1 i2)
  let ?k = "\<lparr>vc_write = w, vc_blockno = n, vc_i0 = i0, vc_i1 = i1, vc_i2 = i2\<rparr>"
  have "fresh_idxs s ?k" using some(2,3) by (simp add: fresh_idxs_def idxs_def)
  then show ?thesis using some(1) by (intro disjI1 exI [of _ ?k]) (simp add: rw_submit_def submitted_def)
next
  case (none s')
  have "qinv s' c" using none assms(1) by (intro qinv_cong [OF assms(1)]) auto
  then have "qinv (sleep_begin s' me ChDiskFree) c"
    by (rule qinv_cong) (simp_all add: sleep_begin_def proc_upd_def drv_same_def)
  then show ?thesis using none(1) by (simp add: rw_submit_def)
qed

subsection \<open>The device\<close>

lemma queued_fetch:
  assumes "dev_seen c \<noteq> avail_idx s"
  shows "queued s c = unat (avail_ring s (unat (dev_seen c) mod NUM)) # queued s (c\<lparr>dev_seen := dev_seen c + 1, dev_busy := q\<rparr>)"
  using ring_contents_get(1) [of NUM "dev_seen c" "avail_idx s" "avail_ring s"] assms by (simp add: queued_def)

lemma qinv_fetch:
  assumes "qinv s c" "dev_seen c \<noteq> avail_idx s"
  shows "qinv s (c\<lparr>dev_seen := dev_seen c + 1, dev_busy := dev_busy c @ [unat (avail_ring s (unat (dev_seen c) mod NUM))]\<rparr>)" (is "qinv s ?c")
proof -
  let ?h = "unat (avail_ring s (unat (dev_seen c) mod NUM))"
  have q: "queued s c = ?h # queued s ?c" using queued_fetch [OF assms(2)] .
  have u: "mset (undone s ?c) = mset (undone s c)" by (simp add: undone_def q)
  then have us: "set (undone s ?c) = set (undone s c)" by (rule mset_eq_setD)
  have p: "mset (pending s ?c) = mset (pending s c)" by (simp add: pending_def u)
  then have ps: "set (pending s ?c) = set (pending s c)" "distinct (pending s ?c) = distinct (pending s c)"
    by (rule mset_eq_setD, rule mset_eq_imp_distinct_iff)
  have "done_ops (set (undone s c)) ?c = done_ops (set (undone s c)) c" by (simp add: done_ops_def done_calls_def)
  then show ?thesis using assms(1) by (simp add: qinv_def owned_def tracked_def accounted_def us ps)
qed

text \<open>A request the driver has formatted is one the device understands.\<close>

lemma call_request:
  assumes "call_ok s b k"
  shows "request_at s (vc_i0 k) (vc_i0 k) b (vc_i0 k)"
proof -
  have "vc_i1 k < NUM" "vc_i2 k < NUM" using assms by (simp_all add: call_ok_def idxs_def)
  then show ?thesis using assms
    by (simp add: request_at_def call_ok_def call_op_def Let_def VRING_DESC_F_NEXT_def VRING_DESC_F_WRITE_def
        VIRTIO_BLK_T_IN_def VIRTIO_BLK_T_OUT_def)
qed

lemma done_ops_complete:
  assumes "owned s c" "calls c b = Some k" "vc_i0 k \<in> U" "finite (dom (calls c))"
  shows "done_ops (U - {vc_i0 k}) c = done_ops U c + {#call_op b k#}"
proof -
  have "x \<in> done_calls (U - {vc_i0 k}) c \<longleftrightarrow> x = b \<or> x \<in> done_calls U c" for x
    using assms(2,3) same_head [OF assms(1,2), of x "the (calls c x)"] by (cases "calls c x") (auto simp: done_calls_def)
  then have "done_calls (U - {vc_i0 k}) c = insert b (done_calls U c)" by blast
  moreover have "b \<notin> done_calls U c" using assms(2,3) by (simp add: done_calls_def)
  moreover have "finite (done_calls U c)"
    by (rule finite_subset [OF _ assms(4)]) (auto simp: done_calls_def)
  ultimately show ?thesis using assms(2) by (simp add: done_ops_def)
qed

definition completed :: "'z kvirt_scheme \<Rightarrow> nat \<Rightarrow> 'z kvirt_scheme" where
  "completed s i = s\<lparr>info_status := (info_status s)(i := 0),
     used_ring := (used_ring s)(unat (used_ring_idx s) mod NUM := of_nat i), used_ring_idx := used_ring_idx s + 1\<rparr>"

lemma qinv_complete:
  assumes "qinv s c" "calls c b = Some k" "vc_i0 k \<in> set (dev_busy c)"
  shows "qinv (completed s (vc_i0 k)) (c\<lparr>dev_busy := remove1 (vc_i0 k) (dev_busy c), dev_ops := dev_ops c @ [call_op b k]\<rparr>)" (is "qinv ?t ?c")
proof -
  let ?i = "vc_i0 k"
  have o: "owned s c" and t: "tracked s c" and a: "accounted s c" using assms(1) by (simp_all add: qinv_def)
  have i: "?i < NUM" using ownedD(2) [OF o assms(2)] .
  have q: "queued ?t ?c = queued s c" by (simp add: queued_def completed_def)
  have f: "finished ?t = finished s @ [?i]"
    using ring_contents_put(1) [of NUM "used_ring_idx s" "used_idx s" "used_ring s" "of_nat ?i"] finished_room [OF o t assms(3)] i
    by (simp add: finished_def completed_def NUM_def)
  have d: "distinct (pending s c)" using t by (simp add: tracked_def)
  then have u: "set (undone ?t ?c) = set (undone s c) - {?i}" using assms(3) by (auto simp: pending_def undone_def q)
  have "mset (pending ?t ?c) = mset (pending s c)" using assms(3) by (simp add: pending_def undone_def q f)
  then have p: "set (pending ?t ?c) = set (pending s c)" "distinct (pending ?t ?c)"
    using d mset_eq_setD mset_eq_imp_distinct_iff by blast+
  have "owned ?t ?c" using o by (simp add: owned_def call_ok_def completed_def)
  moreover have "tracked ?t ?c" using t p by (simp add: tracked_def f) (simp add: completed_def)
  moreover have "done_ops (set (undone s c) - {?i}) ?c = done_ops (set (undone s c)) c + {#call_op b k#}"
    using done_ops_complete [OF o assms(2), of "set (undone s c)"] assms(3) a
    by (simp add: done_ops_def done_calls_def undone_def accounted_def)
  then have "accounted ?t ?c" using a by (simp add: accounted_def u)
  ultimately show ?thesis by (simp add: qinv_def)
qed

subsection \<open>The interrupt handler and the end of a call\<close>

lemma finished_take:
  assumes "used_idx s \<noteq> used_ring_idx s"
  shows "finished s = unat (used_ring s (unat (used_idx s) mod NUM)) # finished (s\<lparr>used_idx := used_idx s + 1\<rparr>)"
  using ring_contents_get(1) [of NUM "used_idx s" "used_ring_idx s" "used_ring s"] assms by (simp add: finished_def)

definition told :: "'z kvirt_scheme \<Rightarrow> nat option \<Rightarrow> nat \<Rightarrow> 'z kvirt_scheme" where
  "told s me b = (let s = wakeup (s\<lparr>buf_disk := (buf_disk s)(b := 0)\<rparr>) me (ChBuf b) in s\<lparr>used_idx := used_idx s + 1\<rparr>)"

lemma told_fields [simp]:
  "dfree (told s me b) = dfree s" "desc (told s me b) = desc s" "vops (told s me b) = vops s" "info_b (told s me b) = info_b s"
  "info_status (told s me b) = info_status s" "avail_idx (told s me b) = avail_idx s" "avail_ring (told s me b) = avail_ring s"
  "used_ring_idx (told s me b) = used_ring_idx s" "used_ring (told s me b) = used_ring s" "used_idx (told s me b) = used_idx s + 1"
  "buf_disk (told s me b) = (buf_disk s)(b := 0)"
  by (simp_all add: told_def wakeup_procs)

lemma qinv_told:
  assumes "qinv s c" "finished s = vc_i0 k # rest" "calls c b = Some k" "finished (told s me b) = rest"
  shows "qinv (told s me b) c" (is "qinv ?t c")
proof -
  have o: "owned s c" and t: "tracked s c" and a: "accounted s c" using assms(1) by (simp_all add: qinv_def)
  have u: "undone ?t c = undone s c" by (simp add: undone_def queued_def)
  have p: "distinct (pending ?t c)" "set (pending ?t c) = set (pending s c) - {vc_i0 k}" "set (finished ?t) \<subseteq> set (finished s)"
    using t by (auto simp: tracked_def pending_def u assms(2,4))
  have "vc_i0 k' \<in> set (pending ?t c) \<longleftrightarrow> buf_disk ?t b' = 1" if "calls c b' = Some k'" for b' k'
    using that assms(3) t same_head [OF o assms(3) that] by (cases "b' = b") (auto simp: p(2) tracked_def)
  then have "tracked ?t c" using t p unfolding tracked_def by (auto simp: subset_iff)
  moreover have "owned ?t c" using o by (simp add: owned_def call_ok_def)
  moreover have "accounted ?t c" using a by (simp add: accounted_def u)
  ultimately show ?thesis by (simp add: qinv_def)
qed

lemma intr_loop_ok:
  assumes "qinv s c" "unat (used_ring_idx s - used_idx s) < fuel"
  shows "\<exists>s'. intr_loop fuel me s = Inr s' \<and> qinv s' c \<and> finished s' = [] \<and> undone s' c = undone s c"
  using assms
proof (induction fuel arbitrary: s)
  case (Suc fuel)
  show ?case
  proof (cases "used_idx s = used_ring_idx s")
    case True
    then show ?thesis using Suc.prems(1) by (simp add: finished_def ring_contents_def)
  next
    case False
    let ?h = "unat (used_ring s (unat (used_idx s) mod NUM))"
    have o: "owned s c" and t: "tracked s c" using Suc.prems(1) by (simp_all add: qinv_def)
    have f: "finished s = ?h # finished (s\<lparr>used_idx := used_idx s + 1\<rparr>)" using finished_take [OF False] .
    have hp: "?h \<in> set (pending s c)" by (simp add: pending_def f)
    then obtain b k where k: "calls c b = Some k" "vc_i0 k = ?h" using t by (auto simp: tracked_def)
    have g: "?h < NUM" "info_status s ?h = 0" "info_b s ?h = Some b"
      using pending_busy(1) [OF o t hp] t f ownedD(4) [OF o k(1)] k(2) by (auto simp: tracked_def)
    have e: "intr_loop (Suc fuel) me s = intr_loop fuel me (told s me b)"
      using False g by (simp add: told_def Let_def)
    have v: "qinv (told s me b) c"
      by (rule qinv_told [OF Suc.prems(1) _ k(1)]) (use f k(2) in \<open>simp_all add: finished_def\<close>)
    have "unat (used_ring_idx s - (used_idx s + 1)) < fuel"
      using ring_contents_get(2) [of 1 "used_idx s" "used_ring_idx s"] Suc.prems(2) False unat_gt_0 [of "used_ring_idx s - used_idx s"] by auto
    then obtain s' where "intr_loop fuel me (told s me b) = Inr s'" "qinv s' c" "finished s' = []" "undone s' c = undone (told s me b) c"
      using Suc.IH [OF v] by auto
    then show ?thesis unfolding e by (simp add: undone_def queued_def)
  qed
qed simp

lemma virtio_disk_intr_ok:
  assumes "qinv s c"
  shows "\<exists>s'. virtio_disk_intr rd me s = Inr s' \<and> qinv s' c \<and> finished s' = [] \<and> undone s' c = undone s c"
proof -
  let ?r = "reg_set VIRTIO_MMIO_INTERRUPT_ACK (reg_get rd s VIRTIO_MMIO_INTERRUPT_STATUS AND 3) s"
  have "qinv ?r c" by (rule qinv_cong [OF assms]) (simp_all add: drv_same_def reg_set_def)
  from intr_loop_ok [OF this lessI, of me] show ?thesis
    by (simp add: virtio_disk_intr_def Let_def undone_def queued_def reg_set_def del: intr_loop.simps)
qed

lemma free_chain_step:
  assumes "i < NUM" "\<not> dfree s i"
  shows "\<exists>s1. drv_same s s1 \<and> desc s1 = (desc s)(i := zero_desc) \<and> dfree s1 = (dfree s)(i := True) \<and>
    free_chain_loop (Suc n) me i s =
      (if d_flags (desc s i) AND VRING_DESC_F_NEXT \<noteq> 0 then free_chain_loop n me (unat (d_next (desc s i))) s1 else Inr s1)"
  using free_desc_ok [OF assms, of me] by (auto simp: Let_def)

lemma rw_finish_ok:
  assumes "call_ok s b k"
  shows "\<exists>s'. rw_finish s p (vc_i0 k) = Inr s' \<and> drv_same (s\<lparr>info_b := (info_b s)(vc_i0 k := None)\<rparr>) s' \<and>
    dfree s' = (\<lambda>i. i \<in> idxs k \<or> dfree s i) \<and> (\<forall>j. j \<notin> idxs k \<longrightarrow> desc s' j = desc s j)"
proof -
  let ?s = "s\<lparr>info_b := (info_b s)(vc_i0 k := None)\<rparr>"
  have k: "distinct [vc_i0 k, vc_i1 k, vc_i2 k]" "vc_i0 k < NUM" "vc_i1 k < NUM" "vc_i2 k < NUM"
    "\<not> dfree s (vc_i0 k)" "\<not> dfree s (vc_i1 k)" "\<not> dfree s (vc_i2 k)" using assms by (simp_all add: call_ok_def idxs_def)
  have n: "Suc NUM = Suc (Suc (Suc 6))" by (simp add: NUM_def)
  have fl: "d_flags (desc s (vc_i0 k)) AND VRING_DESC_F_NEXT \<noteq> 0" "d_flags (desc s (vc_i1 k)) AND VRING_DESC_F_NEXT \<noteq> 0"
    "d_flags (desc s (vc_i2 k)) AND VRING_DESC_F_NEXT = 0" "unat (d_next (desc s (vc_i0 k))) = vc_i1 k" "unat (d_next (desc s (vc_i1 k))) = vc_i2 k"
    using assms k by (simp_all add: call_ok_def VRING_DESC_F_NEXT_def VRING_DESC_F_WRITE_def)
  obtain s1 where s1: "drv_same ?s s1" "desc s1 = (desc s)(vc_i0 k := zero_desc)" "dfree s1 = (dfree s)(vc_i0 k := True)"
    "free_chain_loop (Suc (Suc (Suc 6))) (Some p) (vc_i0 k) ?s = free_chain_loop (Suc (Suc 6)) (Some p) (vc_i1 k) s1"
    using free_chain_step [of "vc_i0 k" ?s "Suc (Suc 6)" "Some p"] k(2,5) fl(1,4) by (auto simp del: free_chain_loop.simps)
  obtain s2 where s2: "drv_same s1 s2" "desc s2 = (desc s1)(vc_i1 k := zero_desc)" "dfree s2 = (dfree s1)(vc_i1 k := True)"
    "free_chain_loop (Suc (Suc 6)) (Some p) (vc_i1 k) s1 = free_chain_loop (Suc 6) (Some p) (vc_i2 k) s2"
    using free_chain_step [of "vc_i1 k" s1 "Suc 6" "Some p"] k(1,3,6) fl(2,5) s1(2,3) by (auto simp del: free_chain_loop.simps)
  obtain s3 where s3: "drv_same s2 s3" "desc s3 = (desc s2)(vc_i2 k := zero_desc)" "dfree s3 = (dfree s2)(vc_i2 k := True)"
    "free_chain_loop (Suc 6) (Some p) (vc_i2 k) s2 = Inr s3"
    using free_chain_step [of "vc_i2 k" s2 6 "Some p"] k(1,4,7) fl(3) s1(2,3) s2(2,3) by (auto simp del: free_chain_loop.simps)
  have "rw_finish s p (vc_i0 k) = Inr s3"
    unfolding rw_finish_def free_chain_def n using s1(4) s2(4) s3(4) by (simp only:)
  moreover have "drv_same ?s s3" using s1(1) s2(1) s3(1) drv_same_trans by blast
  ultimately show ?thesis using s1(2,3) s2(2,3) s3(2,3) by (intro exI [of _ s3]) (auto simp: idxs_def fun_eq_iff)
qed

lemma call_ok_cong:
  assumes "call_ok s b k" "\<And>i. i \<in> idxs k \<Longrightarrow> dfree s' i = dfree s i \<and> desc s' i = desc s i \<and> vops s' i = vops s i \<and> info_b s' i = info_b s i"
  shows "call_ok s' b k"
proof -
  have "vc_i0 k \<in> idxs k" "vc_i1 k \<in> idxs k" "vc_i2 k \<in> idxs k" by (simp_all add: idxs_def)
  then show ?thesis using assms by (simp add: call_ok_def)
qed

lemma owned_finish:
  assumes o: "owned s c" and k: "calls c b = Some k"
    and s': "dfree s' = (\<lambda>i. i \<in> idxs k \<or> dfree s i)" "\<forall>j. j \<notin> idxs k \<longrightarrow> desc s' j = desc s j" "vops s' = vops s"
      "\<forall>j. j \<noteq> vc_i0 k \<longrightarrow> info_b s' j = info_b s j"
  shows "owned s' (c\<lparr>calls := (calls c)(b := None), returned := r\<rparr>)"
proof -
  have cs: "calls (c\<lparr>calls := (calls c)(b := None), returned := r\<rparr>) x = Some y \<longleftrightarrow> x \<noteq> b \<and> calls c x = Some y" for x y by simp
  have dj: "idxs k' \<inter> idxs k = {}" if "calls c b' = Some k'" "b' \<noteq> b" for b' k' using ownedD(5) [OF o k that(1)] that(2) by blast
  have 1: "call_ok s' b' k'" if "calls c b' = Some k'" "b' \<noteq> b" for b' k'
  proof (rule call_ok_cong [OF ownedD(1) [OF o that(1)]])
    fix i assume "i \<in> idxs k'"
    then have "i \<notin> idxs k" using dj [OF that] by blast
    moreover from this have "i \<noteq> vc_i0 k" by (auto simp: idxs_def)
    ultimately show "dfree s' i = dfree s i \<and> desc s' i = desc s i \<and> vops s' i = vops s i \<and> info_b s' i = info_b s i" using s' by simp
  qed
  have 2: "idxs k1 \<inter> idxs k2 = {}" if "calls c b1 = Some k1" "calls c b2 = Some k2" "b1 \<noteq> b2" for b1 b2 k1 k2
    using ownedD(5) [OF o that(1,2)] that(3) by blast
  have 3: "\<exists>b' k'. b' \<noteq> b \<and> calls c b' = Some k' \<and> i \<in> idxs k'" if i: "i < NUM" "\<not> dfree s' i" for i
  proof -
    have "\<not> dfree s i" "i \<notin> idxs k" using i(2) s'(1) by auto
    then obtain b' k' where "calls c b' = Some k'" "i \<in> idxs k'" using o i(1) unfolding owned_def by blast
    moreover from this have "b' \<noteq> b" using \<open>i \<notin> idxs k\<close> k by auto
    ultimately show ?thesis by blast
  qed
  show ?thesis unfolding owned_def cs by (intro conjI allI impI) (use 1 2 3 in blast)+
qed

lemma done_ops_finish:
  assumes "calls c b = Some k" "vc_i0 k \<notin> U" "finite (dom (calls c))"
  shows "done_ops U c = done_ops U (c\<lparr>calls := (calls c)(b := None), returned := r\<rparr>) + {#call_op b k#}"
proof -
  let ?c = "c\<lparr>calls := (calls c)(b := None), returned := r\<rparr>"
  have d: "done_calls U c = insert b (done_calls U ?c)" "b \<notin> done_calls U ?c" using assms by (auto simp: done_calls_def)
  have "finite (done_calls U ?c)" by (rule finite_subset [OF _ assms(3)]) (auto simp: done_calls_def split: if_splits)
  then have "mset_set (done_calls U c) = add_mset b (mset_set (done_calls U ?c))" using d by simp
  moreover have "image_mset (\<lambda>x. call_op x (the (calls c x))) (mset_set (done_calls U ?c)) = image_mset (\<lambda>x. call_op x (the (calls ?c x))) (mset_set (done_calls U ?c))"
    using d(2) by (intro image_mset_cong) (auto elim!: in_mset_set_elem)
  ultimately show ?thesis using assms(1) by (simp add: done_ops_def)
qed

lemma qinv_finish:
  assumes "qinv s c" "calls c b = Some k" "buf_disk s b \<noteq> 1"
  shows "\<exists>s'. rw_finish s p (vc_i0 k) = Inr s' \<and> qinv s' (c\<lparr>calls := (calls c)(b := None), returned := returned c @ [call_op b k]\<rparr>)"
proof -
  let ?c = "c\<lparr>calls := (calls c)(b := None), returned := returned c @ [call_op b k]\<rparr>"
  have o: "owned s c" and t: "tracked s c" and a: "accounted s c" using assms(1) by (simp_all add: qinv_def)
  obtain s' where s': "rw_finish s p (vc_i0 k) = Inr s'" "drv_same (s\<lparr>info_b := (info_b s)(vc_i0 k := None)\<rparr>) s'"
    "dfree s' = (\<lambda>i. i \<in> idxs k \<or> dfree s i)" "\<forall>j. j \<notin> idxs k \<longrightarrow> desc s' j = desc s j"
    using rw_finish_ok [OF ownedD(1) [OF o assms(2)], of p] by blast
  have np: "vc_i0 k \<notin> set (pending s c)" using t assms(2,3) by (auto simp: tracked_def)
  have e: "undone s' ?c = undone s c" "finished s' = finished s" "pending s' ?c = pending s c" "buf_disk s' = buf_disk s" "info_status s' = info_status s"
    using s'(2) by (simp_all add: undone_def queued_def finished_def pending_def drv_same_def)
  have ow: "owned s' ?c" by (rule owned_finish [OF o assms(2) s'(3,4)]) (use s'(2) in \<open>simp_all add: drv_same_def\<close>)
  have hd: "\<exists>b' k'. calls ?c b' = Some k' \<and> vc_i0 k' = h" if h: "h \<in> set (pending s c)" for h
  proof -
    obtain b' k' where "calls c b' = Some k'" "vc_i0 k' = h" using t h by (auto simp: tracked_def)
    moreover from this have "b' \<noteq> b" using np h assms(2) by auto
    ultimately show ?thesis by auto
  qed
  have "tracked s' ?c" using t hd unfolding tracked_def e by auto
  moreover have "accounted s' ?c"
    using a done_ops_finish [OF assms(2), of "set (undone s c)" "returned c @ [call_op b k]"] np
    by (simp add: accounted_def e pending_def)
  ultimately show ?thesis using s'(1) ow by (auto simp: qinv_def)
qed

lemma qinv_reach:
  assumes "conforming dev" "vreach dev rd s c"
  shows "qinv s c"
  using assms(2)
proof induction
  case (submit s c b me n w i0 i1 i2 s')
  from rw_submit_cases [OF submit.IH submit.hyps(2), of me n w] submit.hyps(3) obtain k where
    k': "s' = submitted s b k" "fresh_idxs s k" "vc_write k = w" "vc_blockno k = n" "vc_i0 k = i0" "vc_i1 k = i1" "vc_i2 k = i2" by auto
  then have k: "s' = submitted s b k" "fresh_idxs s k" "k = \<lparr>vc_write = w, vc_blockno = n, vc_i0 = i0, vc_i1 = i1, vc_i2 = i2\<rparr>" by auto
  show ?case using qinv_submit [OF submit.IH submit.hyps(2) k(2)] unfolding k(1,3) .
next
  case (full s c b me n w s')
  then show ?case using rw_submit_cases [OF full.IH full.hyps(2), of me n w] by auto
next
  case (complete s c i opn s')
  then obtain b k where k: "calls c b = Some k" "vc_i0 k = i"
    unfolding qinv_def tracked_def pending_def undone_def by (metis Un_iff set_append)
  have ok: "call_ok s b k" using complete.IH k(1) by (auto simp: qinv_def intro: ownedD(1))
  have "dev s i = (call_op b k, completed s i)"
    using assms(1) call_request [OF ok] ok k(2) by (auto simp: conforming_def completed_def call_ok_def call_op_def)
  then show ?case using qinv_complete [OF complete.IH k(1)] complete.hyps(2,3) k(2) by auto
next
  case (intr s c me s')
  then show ?case using virtio_disk_intr_ok [OF intr.IH, of rd me] by auto
next
  case (waits s c b k p s')
  then show ?case by (auto simp: rw_wait_def sleep_begin_def proc_upd_def drv_same_def split: if_splits intro!: qinv_cong [OF waits.IH])
next
  case (finish s c b k p s')
  then show ?case using qinv_finish [OF finish.IH finish.hyps(2), of p] by (auto simp: rw_wait_def split: if_splits)
next
  case (others s c ps)
  then show ?case by (auto simp: drv_same_def intro: qinv_cong [OF others.IH])
qed (auto intro: qinv_init qinv_fetch)

section \<open>Properties\<close>

text \<open>C3: the disk driver serves every request exactly once. In every state that the driver and a conforming device reach, in any
  interleaving of any number of calls, completions in any order and interrupts at any time: the interrupt handler returns
  without a panic and lets every call go on whose operation the device has completed; a call goes on only after that, and gives back its
  descriptors without a panic; a new call is accepted or goes to sleep. The operations the device has carried out are exactly those asked for
  by the calls that have returned and by the calls under way whose request it has completed, each one
  with the type, sector and buffer of its call; and when no call is under way, every descriptor is free.\<close>

theorem disk_requests_served:
  assumes "conforming dev" "vreach dev rd s c"
  shows "(\<exists>s'. virtio_disk_intr rd me s = Inr s' \<and>
      (\<forall>b k. calls c b = Some k \<longrightarrow> vc_i0 k \<notin> set (undone s c) \<longrightarrow> buf_disk s' b \<noteq> 1)) \<and>
    (\<forall>b k. calls c b = Some k \<longrightarrow> buf_disk s b \<noteq> 1 \<longrightarrow>
      vc_i0 k \<notin> set (undone s c) \<and> (\<exists>s'. rw_finish s p (vc_i0 k) = Inr s')) \<and>
    (\<forall>b n w. calls c b = None \<longrightarrow> (\<exists>r. rw_submit s p b n w = Inr r)) \<and>
    mset (dev_ops c) = mset (returned c) + done_ops (set (undone s c)) c \<and>
    (calls c = Map.empty \<longrightarrow> (\<forall>i < NUM. dfree s i))"
proof (intro conjI allI impI)
  note inv = qinv_reach [OF assms]
  obtain s' where s': "virtio_disk_intr rd me s = Inr s'" "qinv s' c" "finished s' = []" "undone s' c = undone s c"
    using virtio_disk_intr_ok [OF inv] by blast
  then show "\<exists>s'. virtio_disk_intr rd me s = Inr s' \<and> (\<forall>b k. calls c b = Some k \<longrightarrow> vc_i0 k \<notin> set (undone s c) \<longrightarrow> buf_disk s' b \<noteq> 1)"
    by (auto simp: qinv_def tracked_def pending_def)
  show "mset (dev_ops c) = mset (returned c) + done_ops (set (undone s c)) c" using inv by (simp add: qinv_def accounted_def)
  fix b
  show "\<exists>r. rw_submit s p b n w = Inr r" if "calls c b = None" for n w using rw_submit_cases [OF inv that] by blast
  fix k assume k: "calls c b = Some k" "buf_disk s b \<noteq> 1"
  show "\<exists>s'. rw_finish s p (vc_i0 k) = Inr s'" using qinv_finish [OF inv k] by blast
  show "vc_i0 k \<notin> set (undone s c)" using inv k by (auto simp: qinv_def tracked_def pending_def)
next
  fix i assume "calls c = Map.empty" "i < NUM"
  then show "dfree s i" using qinv_reach [OF assms] by (auto simp: qinv_def owned_def)
qed

text \<open>A device and a machine with a disk.\<close>

definition ideal_device :: "unit device" where
  "ideal_device s i =
     (let d0 = desc s i; d1 = desc s (unat (d_next d0)); d2 = desc s (unat (d_next d1))
      in case (d_addr d0, d_addr d1, d_addr d2) of
           (VOps k, VData b, VStatus j) \<Rightarrow>
             (\<lparr>op_type = q_type (vops s k), op_sector = q_sector (vops s k), op_buf = b\<rparr>,
              s\<lparr>info_status := (info_status s)(j := 0),
                used_ring := (used_ring s)(unat (used_ring_idx s) mod NUM := of_nat i), used_ring_idx := used_ring_idx s + 1\<rparr>)
         | _ \<Rightarrow> (\<lparr>op_type = 0, op_sector = 0, op_buf = 0\<rparr>, s))"

definition disk_regs :: regs where
  "disk_regs ws r =
     (if r = VIRTIO_MMIO_MAGIC_VALUE then 0x74726976 else if r = VIRTIO_MMIO_VERSION then 2
      else if r = VIRTIO_MMIO_DEVICE_ID then 2 else if r = VIRTIO_MMIO_VENDOR_ID then 0x554d4551
      else if r = VIRTIO_MMIO_STATUS then 11 else if r = VIRTIO_MMIO_QUEUE_NUM_MAX then 1024 else 0)"

definition disk_machine :: kvirt where
  "disk_machine = kproc.extend booted (kvirt.fields 0 0 0 (\<lambda>_. zero_desc) 0 (\<lambda>_. 0) 0 (\<lambda>_. 0) (\<lambda>_. False) 0 (\<lambda>_. None) (\<lambda>_. 0)
     (\<lambda>_. \<lparr>q_type = 0, q_reserved = 0, q_sector = 0\<rparr>) (\<lambda>_. 0) [])"

lemma ideal_device_conforming: "conforming ideal_device"
  by (simp add: conforming_def request_at_def ideal_device_def Let_def)

lemma kinv_reg_set [simp]: "kinv kend fl (reg_set r v s) = kinv kend fl s"
  by (simp add: kinv_def reg_set_def refs_def)

lemma three_pages:
  assumes "kinv kend (p1 # p2 # p3 # fl) s"
  shows "\<exists>s1 s2 s3. kalloc s = Inr (p1, s1) \<and> kalloc s1 = Inr (p2, s2) \<and> kalloc s2 = Inr (p3, s3) \<and> p1 \<noteq> 0 \<and> p2 \<noteq> 0 \<and> p3 \<noteq> 0"
proof -
  have nz: "p1 \<noteq> 0" "p2 \<noteq> 0" "p3 \<noteq> 0" using assms by (auto simp: kinv_def page_ok_nonzero)
  obtain s1 where s1: "kalloc s = Inr (p1, s1)" "kinv kend (p2 # p3 # fl) s1" using kalloc_cons [OF assms] by blast
  obtain s2 where s2: "kalloc s1 = Inr (p2, s2)" "kinv kend (p3 # fl) s2" using kalloc_cons [OF s1(2)] by blast
  obtain s3 where s3: "kalloc s2 = Inr (p3, s3)" using kalloc_cons [OF s2(2)] by blast
  show ?thesis using nz s1(1) s2(1) s3 by blast
qed

lemma virtio_disk_init_ok:
  assumes "kinv kend (p1 # p2 # p3 # fl) s"
  shows "\<exists>s'. virtio_disk_init disk_regs s = Inr s'"
proof -
  have r: "reg_get disk_regs t VIRTIO_MMIO_MAGIC_VALUE = 0x74726976" "reg_get disk_regs t VIRTIO_MMIO_VERSION = 2"
    "reg_get disk_regs t VIRTIO_MMIO_DEVICE_ID = 2" "reg_get disk_regs t VIRTIO_MMIO_VENDOR_ID = 0x554d4551"
    "reg_get disk_regs t VIRTIO_MMIO_STATUS AND VIRTIO_CONFIG_S_FEATURES_OK \<noteq> 0" "reg_get disk_regs t VIRTIO_MMIO_QUEUE_READY = 0"
    "reg_get disk_regs t VIRTIO_MMIO_QUEUE_NUM_MAX = 1024" for t :: "'a kvirt_scheme"
    by (simp_all add: reg_get_def disk_regs_def VIRTIO_MMIO_MAGIC_VALUE_def VIRTIO_MMIO_VERSION_def VIRTIO_MMIO_DEVICE_ID_def
        VIRTIO_MMIO_VENDOR_ID_def VIRTIO_MMIO_STATUS_def VIRTIO_CONFIG_S_FEATURES_OK_def VIRTIO_MMIO_QUEUE_READY_def VIRTIO_MMIO_QUEUE_NUM_MAX_def)
  have n: "\<not> (1024 :: uint) < of_nat NUM" by (simp add: NUM_def)
  have "\<exists>s'. bind_res (kalloc t) (\<lambda>(pd, s). bind_res (kalloc s) (\<lambda>(pa, s). bind_res (kalloc s) (\<lambda>(pu, s).
      if pd = 0 \<or> pa = 0 \<or> pu = 0 then Inl e else Inr (F pd pa pu s)))) = Inr s'"
    if "kinv kend (p1 # p2 # p3 # fl) t" for t :: "'a kvirt_scheme" and e and F :: "uint64 \<Rightarrow> uint64 \<Rightarrow> uint64 \<Rightarrow> 'a kvirt_scheme \<Rightarrow> 'a kvirt_scheme"
    using three_pages [OF that] by auto
  then show ?thesis using assms unfolding virtio_disk_init_def Let_def by (simp add: r n)
qed

lemma disk_machine_ok: "\<exists>s. virtio_disk_init disk_regs disk_machine = Inr s"
proof -
  obtain fl where fl: "kinv 0x87ff0000 fl booted" "6 \<le> length fl" using booted_ok by blast
  obtain p1 p2 p3 fl' where e: "fl = p1 # p2 # p3 # fl'" using fl(2) by (auto simp: numeral_eq_Suc Suc_le_length_iff)
  have "kinv 0x87ff0000 (p1 # p2 # p3 # fl') disk_machine"
    using fl(1) unfolding e by (simp add: kinv_def refs_def disk_machine_def kproc.extend_def)
  then show ?thesis by (rule virtio_disk_init_ok)
qed

lemma alloc3_first:
  assumes "\<forall>i < NUM. dfree s i"
  shows "alloc3_desc me s = Inr (Some [0, 1, 2], s\<lparr>dfree := (dfree s)(0 := False, 1 := False, 2 := False)\<rparr>)"
proof -
  have "dfree s 0" "dfree s 1" "dfree s (Suc 0)" "dfree s 2" using assms by (simp_all add: NUM_def)
  moreover have "[0..<NUM] = [0, 1, 2, 3, 4, 5, 6, 7]" by (simp add: NUM_def upt_rec)
  ultimately show ?thesis by (simp add: alloc3_desc_def numeral_3_eq_3 alloc_desc_def)
qed

text \<open>The first read of a block, from the call to its return.\<close>

theorem disk_requests_served_witness:
  "\<exists>s c. vreach ideal_device disk_regs s c \<and> calls c = Map.empty \<and>
     dev_ops c = [\<lparr>op_type = VIRTIO_BLK_T_IN, op_sector = 14, op_buf = 3\<rparr>] \<and> returned c = dev_ops c \<and> (\<forall>i < NUM. dfree s i)"
proof -
  let ?R = "vreach ideal_device disk_regs"
  obtain s0 where s0: "virtio_disk_init disk_regs disk_machine = Inr s0" using disk_machine_ok by blast
  have u: "used_idx disk_machine = 0" by (simp add: disk_machine_def kproc.extend_def kvirt.fields_def)
  note q0 = virtio_disk_init_queue [OF s0]
  have r0: "?R s0 vsys0" using s0 u by (rule vreach.boot)
  define k where "k = \<lparr>vc_write = False, vc_blockno = 7, vc_i0 = 0, vc_i1 = 1, vc_i2 = 2\<rparr>"
  define s1 where "s1 = rw_format 3 7 False 0 1 2 (s0\<lparr>dfree := (dfree s0)(0 := False, 1 := False, 2 := False)\<rparr>)"
  have s1: "rw_submit s0 0 3 7 False = Inr (Return (0, 1, 2), s1)"
    using alloc3_first [of s0 "Some 0"] q0 by (simp add: rw_submit_def s1_def)
  define c1 where "c1 = vsys0\<lparr>calls := [3 \<mapsto> k]\<rparr>"
  have r1: "?R s1 c1" using vreach.submit [OF r0 _ s1] by (simp add: c1_def k_def vsys0_def)
  have a1: "avail_idx s1 = 1" "unat (avail_ring s1 0) = 0" using q0 by (simp_all add: s1_def rw_format_fields)
  have r2: "?R s1 (c1\<lparr>dev_seen := 1, dev_busy := [0]\<rparr>)" using vreach.fetch [OF r1] a1 by (simp add: c1_def vsys0_def)
  define opn where "opn = \<lparr>op_type = VIRTIO_BLK_T_IN, op_sector = 14, op_buf = 3\<rparr>"
  obtain s2 where s2: "ideal_device s1 0 = (opn, s2)" "avail_idx s2 = 1"
    using a1(1) by (simp add: ideal_device_def s1_def rw_format_def Let_def reg_set_def opn_def)
  define c3 where "c3 = c1\<lparr>dev_seen := 1, dev_busy := [], dev_ops := [opn]\<rparr>"
  have r3: "?R s2 c3" using vreach.complete [OF r2 _ s2(1)] by (simp add: c3_def c1_def vsys0_def)
  have c3: "calls c3 3 = Some k" "vc_i0 k = 0" "undone s2 c3 = []" "dev_ops c3 = [opn]" "returned c3 = []" "call_op 3 k = opn" "(calls c3)(3 := None) = Map.empty"
    using s2(2) by (simp_all add: c3_def c1_def k_def vsys0_def undone_def queued_def ring_contents_def call_op_def opn_def)
  obtain s4 where s4: "virtio_disk_intr disk_regs None s2 = Inr s4" "buf_disk s4 3 \<noteq> 1"
    using disk_requests_served [OF ideal_device_conforming r3, of None 0] c3(1,3) by auto
  have r4: "?R s4 c3" using vreach.intr [OF r3 s4(1)] .
  obtain s5 where s5: "rw_finish s4 0 (vc_i0 k) = Inr s5"
    using disk_requests_served [OF ideal_device_conforming r4, of None 0] c3(1) s4(2) by blast
  have r5: "?R s5 (c3\<lparr>calls := Map.empty, returned := [opn]\<rparr>)"
    using vreach.finish [OF r4 c3(1) _ s5] s4(2) c3(5-7) by (simp add: rw_wait_def)
  show ?thesis using disk_requests_served [OF ideal_device_conforming r5, of None 0] r5 c3(4)
    by (intro exI [of _ s5] exI [of _ "c3\<lparr>calls := Map.empty, returned := [opn]\<rparr>"]) (simp add: opn_def)
qed

end
