(* ===== verification/Ulib.thy ===== *)
theory Ulib
  imports Cstring
begin

text \<open>
  The string functions of the user library, \<open>user/ulib.c\<close>. As for \<open>kernel/string.c\<close>, a pointer
  is the list of the bytes that follow it, and reading past the end of the list is \<open>OutOfBounds\<close>. \<open>char\<close> is
  unsigned on RISC-V. The block functions work on the memory of the process.
\<close>

section \<open>Definitions\<close>

text \<open>The bytes \<open>strcpy(s, t)\<close> stores at \<open>s\<close>.\<close>

fun strcpy :: "uint8 list \<Rightarrow> uint8 list res" where
  "strcpy [] = Inl OutOfBounds"
| "strcpy (c # t) = (if c \<noteq> 0 then bind_res (strcpy t) (\<lambda>bs. Inr (c # bs)) else Inr [0])"

fun strcmp :: "uint8 list \<Rightarrow> uint8 list \<Rightarrow> int res" where
  "strcmp (p # ps) (q # qs) =
     (if p \<noteq> 0 \<and> p = q then strcmp ps qs else Inr (uint p - uint q))"
| "strcmp ps qs = Inl OutOfBounds"

text \<open>The offset of the first \<open>c\<close> in the string at \<open>s\<close>, \<open>None\<close> for the null pointer.\<close>

fun strchr :: "uint8 list \<Rightarrow> uint8 \<Rightarrow> nat option res" where
  "strchr [] c = Inl OutOfBounds"
| "strchr (x # s) c =
     (if x = 0 then Inr None
      else if x = c then Inr (Some 0)
      else bind_res (strchr s c) (\<lambda>r. Inr (map_option Suc r)))"

text \<open>The conversion of a decimal number: \<open>int\<close> arithmetic, which wraps on the machine.\<close>

fun atoi_loop :: "uint8 list \<Rightarrow> uint \<Rightarrow> uint res" where
  "atoi_loop [] n = Inl OutOfBounds"
| "atoi_loop (x # s) n =
     (if 48 \<le> x \<and> x \<le> 57 then atoi_loop s (n * 10 + ucast x - 48) else Inr n)"

definition atoi :: "uint8 list \<Rightarrow> int res" where
  "atoi s = bind_res (atoi_loop s 0) (\<lambda>n. Inr (sint n))"

text \<open>
  \<open>gets(buf, max)\<close>: the bytes stored in \<open>buf\<close>. \<open>inp\<close> is what the calls \<open>read(0, &c, 1)\<close> give, one byte each, until
  the end of the input or an error (a result below 1), at the end of the list. Returns also what is left of the input.
\<close>

fun gets_loop :: "uint8 list \<Rightarrow> nat \<Rightarrow> uint8 list \<times> uint8 list" where
  "gets_loop inp 0 = ([], inp)"
| "gets_loop [] (Suc n) = ([], [])"
| "gets_loop (c # inp) (Suc n) =
     (if c = 10 \<or> c = 13 then ([c], inp)
      else case gets_loop inp n of (bs, rest) \<Rightarrow> (c # bs, rest))"

definition gets :: "uint8 list \<Rightarrow> int \<Rightarrow> uint8 list \<times> uint8 list" where
  "gets inp mx = (case gets_loop inp (nat (mx - 1)) of (bs, rest) \<Rightarrow> (bs @ [0], rest))"

text \<open>The user library's \<open>memmove\<close> chooses the direction by the order of the addresses alone.\<close>

definition umemmove :: "memory \<Rightarrow> uint64 \<Rightarrow> uint64 \<Rightarrow> int \<Rightarrow> memory" where
  "umemmove m dst src n =
     (if dst < src then memmove_up m dst src (nat n)
      else memmove_down m (dst + of_int n) (src + of_int n) (nat n))"


section \<open>Lemmas\<close>

lemma strcpy_value: "0 \<in> set t \<Longrightarrow> strcpy t = Inr (cstr t @ [0])"
  by (induction t) auto

lemma strcmp_zero_iff:
  assumes "0 \<in> set p" "0 \<in> set q"
  shows "\<exists>r. strcmp p q = Inr r \<and> (r = 0 \<longleftrightarrow> cstr p = cstr q)"
  using assms by (induction p q rule: strcmp.induct) (auto simp: word_uint_eq_iff)

lemma strchr_value:
  assumes "0 \<in> set s" "c \<noteq> 0"
  shows "strchr s c = Inr (if c \<in> set (cstr s) then Some (length (takeWhile (\<lambda>x. x \<noteq> c) (cstr s))) else None)"
  using assms by (induction s) auto

lemma umemmove_copy_bytes:
  assumes "unat dst + nat n < 2 ^ 64" "unat src + nat n < 2 ^ 64" "0 \<le> n"
  shows "umemmove m dst src n = copy_bytes m dst src (nat n)"
proof (cases "dst < src")
  case True
  then show ?thesis using assms memmove_up_copy [of dst "nat n" src m] by (simp add: umemmove_def order.strict_implies_order)
next
  case False
  have "of_int n = (of_nat (nat n) :: uint64)" using assms(3) by simp
  then have "umemmove m dst src n = memmove_down m (dst + of_nat (nat n)) (src + of_nat (nat n)) (nat n)"
    unfolding umemmove_def using False by (simp only: if_False)
  then show ?thesis using False assms memmove_down_copy [of dst "nat n" src m] by (simp only: not_less)
qed

text \<open>A string is read up to its line end, and never more than fits.\<close>

lemma gets_loop_prefix: "gets_loop inp n = (bs, rest) \<Longrightarrow> inp = bs @ rest \<and> length bs \<le> n"
  by (induction inp n arbitrary: bs rule: gets_loop.induct) (auto split: if_splits prod.splits)

lemma gets_fits:
  assumes "gets inp mx = (bs, rest)" "1 \<le> mx"
  shows "int (length bs) \<le> mx" "inp = butlast bs @ rest" "last bs = 0"
  using assms gets_loop_prefix [of inp "nat (mx - 1)"] by (auto simp: gets_def split: prod.splits)

end
