(* ===== verification/Grep.thy ===== *)
theory Grep
  imports Ulib
begin

text \<open>
  The \<open>grep\<close> program, \<open>user/grep.c\<close>: its matcher (\<open>match\<close>, \<open>matchhere\<close>, \<open>matchstar\<close>) and the loop that cuts
  its input into lines. The matcher is shown equivalent to the language of the pattern, and the loop to printing the lines in that
  language. \<open>read\<close> is a system call of the caller: a parameter.
\<close>

section \<open>The matcher\<close>

function (sequential) matchhere :: "uint8 list \<Rightarrow> uint8 list \<Rightarrow> bool res"
  and matchstar :: "uint8 \<Rightarrow> uint8 list \<Rightarrow> uint8 list \<Rightarrow> bool res" where
  "matchhere [] text = Inl OutOfBounds"
| "matchhere (c # re) text =
     (if c = 0 then Inr True
      else case re of
        [] \<Rightarrow> Inl OutOfBounds
      | d # re' \<Rightarrow>
          if d = 42 then matchstar c re' text
          else case text of
            [] \<Rightarrow> Inl OutOfBounds
          | t # text' \<Rightarrow>
              if c = 36 \<and> d = 0 then Inr (t = 0)
              else if t \<noteq> 0 \<and> (c = 46 \<or> c = t) then matchhere re text'
              else Inr False)"
| "matchstar c re text =
     bind_res (matchhere re text) (\<lambda>r.
       if r then Inr True
       else case text of
         [] \<Rightarrow> Inl OutOfBounds
       | t # text' \<Rightarrow> if t \<noteq> 0 \<and> (t = c \<or> c = 46) then matchstar c re text' else Inr False)"
  by pat_completeness auto
termination
  by (relation "measures [\<lambda>x. case x of Inl (re, text) \<Rightarrow> length re | Inr (c, re, text) \<Rightarrow> length re + 1,
        \<lambda>x. case x of Inl (re, text) \<Rightarrow> length text | Inr (c, re, text) \<Rightarrow> length text]") auto

fun match_loop :: "uint8 list \<Rightarrow> uint8 list \<Rightarrow> bool res" where
  "match_loop re text =
     bind_res (matchhere re text) (\<lambda>r.
       if r then Inr True
       else case text of
         [] \<Rightarrow> Inl OutOfBounds
       | t # text' \<Rightarrow> if t \<noteq> 0 then match_loop re text' else Inr False)"

definition match :: "uint8 list \<Rightarrow> uint8 list \<Rightarrow> bool res" where
  "match re text =
     (case re of
        [] \<Rightarrow> Inl OutOfBounds
      | c # re' \<Rightarrow> if c = 94 then matchhere re' text else match_loop re text)"

declare matchhere.simps [simp del] matchstar.simps [simp del] match_loop.simps [simp del]

section \<open>The language of a pattern\<close>

text \<open>A pattern is a sequence of items, each a character or the repetition of one; \<open>.\<close> stands for any character. A final \<open>$\<close>
  asks for the end of the text.\<close>

datatype item = One uint8 | Many uint8

definition fits :: "uint8 \<Rightarrow> uint8 \<Rightarrow> bool" where
  "fits c x \<longleftrightarrow> c = 46 \<or> c = x"

fun lang :: "item list \<Rightarrow> uint8 list set" where
  "lang [] = {[]}"
| "lang (One c # its) = {x # v | x v. fits c x \<and> v \<in> lang its}"
| "lang (Many c # its) = {u @ v | u v. (\<forall>x \<in> set u. fits c x) \<and> v \<in> lang its}"

fun parse_re :: "uint8 list \<Rightarrow> item list \<times> bool" where
  "parse_re [] = ([], False)"
| "parse_re [c] = (if c = 36 then ([], True) else ([One c], False))"
| "parse_re (c # d # re) =
     (if d = 42 then case parse_re re of (its, e) \<Rightarrow> (Many c # its, e)
      else case parse_re (d # re) of (its, e) \<Rightarrow> (One c # its, e))"

definition begins :: "item list \<times> bool \<Rightarrow> uint8 list \<Rightarrow> bool" where
  "begins p t \<longleftrightarrow> (\<exists>v w. t = v @ w \<and> v \<in> lang (fst p) \<and> (snd p \<longrightarrow> w = []))"

text \<open>The text contains a word of the pattern's language, at the start of the text after \<open>^\<close> and at its end before \<open>$\<close>.\<close>

definition contains :: "uint8 list \<Rightarrow> uint8 list \<Rightarrow> bool" where
  "contains re t \<longleftrightarrow>
     (if re \<noteq> [] \<and> hd re = 94 then begins (parse_re (tl re)) t
      else \<exists>u t'. t = u @ t' \<and> begins (parse_re re) t')"

lemma begins_simps:
  "begins ([], False) t" "begins ([], True) t \<longleftrightarrow> t = []"
  "begins (One c # its, e) [] \<longleftrightarrow> False"
  "begins (One c # its, e) (x # t) \<longleftrightarrow> fits c x \<and> begins (its, e) t"
  by (auto simp: begins_def Cons_eq_append_conv)

lemma begins_Many_iff: "begins (Many c # its, e) t \<longleftrightarrow> (\<exists>u t'. t = u @ t' \<and> (\<forall>x \<in> set u. fits c x) \<and> begins (its, e) t')"
proof
  assume "begins (Many c # its, e) t"
  then obtain z w where z: "t = z @ w" "z \<in> lang (Many c # its)" "e \<longrightarrow> w = []" unfolding begins_def by auto
  from z(2) obtain u v where "z = u @ v" "\<forall>x \<in> set u. fits c x" "v \<in> lang its" by auto
  with z show "\<exists>u t'. t = u @ t' \<and> (\<forall>x \<in> set u. fits c x) \<and> begins (its, e) t'"
    unfolding begins_def by (intro exI [of _ u] exI [of _ "v @ w"]) auto
next
  assume "\<exists>u t'. t = u @ t' \<and> (\<forall>x \<in> set u. fits c x) \<and> begins (its, e) t'"
  then obtain u v w where "t = u @ v @ w" "\<forall>x \<in> set u. fits c x" "v \<in> lang its" "e \<longrightarrow> w = []" unfolding begins_def by auto
  then show "begins (Many c # its, e) t"
    unfolding begins_def by (intro exI [of _ "u @ v"] exI [of _ w]) auto
qed

lemma begins_Many:
  "begins (Many c # its, e) [] \<longleftrightarrow> begins (its, e) []"
  "begins (Many c # its, e) (x # t) \<longleftrightarrow> begins (its, e) (x # t) \<or> fits c x \<and> begins (Many c # its, e) t"
proof -
  show "begins (Many c # its, e) [] \<longleftrightarrow> begins (its, e) []" by (auto simp: begins_Many_iff)
  show "begins (Many c # its, e) (x # t) \<longleftrightarrow> begins (its, e) (x # t) \<or> fits c x \<and> begins (Many c # its, e) t" (is "?l \<longleftrightarrow> ?r")
  proof
    assume ?l
    then obtain u t' where u: "x # t = u @ t'" "\<forall>y \<in> set u. fits c y" "begins (its, e) t'" unfolding begins_Many_iff by blast
    then show ?r by (cases u) (auto simp: begins_Many_iff)
  next
    assume ?r
    then show ?l
    proof
      assume "begins (its, e) (x # t)"
      then show ?l unfolding begins_Many_iff by (intro exI [of _ "[]"] exI [of _ "x # t"]) simp
    next
      assume x: "fits c x \<and> begins (Many c # its, e) t"
      then obtain u t' where "t = u @ t'" "\<forall>y \<in> set u. fits c y" "begins (its, e) t'" unfolding begins_Many_iff by blast
      with x show ?l unfolding begins_Many_iff by (intro exI [of _ "x # u"] exI [of _ t']) simp
    qed
  qed
qed

text \<open>The loop of \<open>matchstar\<close>, given what \<open>matchhere\<close> computes for the rest of the pattern.\<close>

lemma matchstar_spec:
  assumes "\<And>t. 0 \<notin> set t \<Longrightarrow> matchhere re (t @ 0 # tx) = Inr (begins (its, e) t)" "0 \<notin> set t"
  shows "matchstar c re (t @ 0 # tx) = Inr (begins (Many c # its, e) t)"
  using assms(2)
proof (induction t)
  case Nil
  then show ?case using assms(1) [of "[]"] by (subst matchstar.simps) (simp add: begins_Many)
next
  case (Cons x t)
  then show ?case using assms(1) [of "x # t"] by (subst matchstar.simps) (auto simp: begins_Many fits_def)
qed

lemma matchhere_spec:
  assumes "0 \<notin> set r" "0 \<notin> set t"
  shows "matchhere (r @ 0 # rx) (t @ 0 # tx) = Inr (begins (parse_re r) t)"
  using assms
proof (induction r arbitrary: t rule: parse_re.induct)
  case 1
  then show ?case by (simp add: matchhere.simps begins_simps)
next
  case (2 c)
  then show ?case
    by (cases t) (auto simp: matchhere.simps begins_simps fits_def)
next
  case (3 c d re)
  obtain its e where p: "parse_re re = (its, e)" by force
  obtain its' e' where p': "parse_re (d # re) = (its', e')" by force
  show ?case
  proof (cases "d = 42")
    case True
    have "matchstar c (re @ 0 # rx) (t @ 0 # tx) = Inr (begins (Many c # its, e) t)"
      by (rule matchstar_spec) (use 3 True p in auto)
    then show ?thesis using 3 True p by (simp add: matchhere.simps)
  next
    case False
    have ih: "matchhere (d # re @ 0 # rx) (t' @ 0 # tx) = Inr (begins (its', e') t')" if "0 \<notin> set t'" for t'
      using "3.IH"(2) [OF False] 3(3) that p' by simp
    show ?thesis using 3(3,4) False p' ih
      by (cases t) (auto simp: matchhere.simps(2) [of c] begins_simps fits_def)
  qed
qed

lemma match_loop_spec:
  assumes "0 \<notin> set r" "0 \<notin> set t"
  shows "match_loop (r @ 0 # rx) (t @ 0 # tx) = Inr (\<exists>u t'. t = u @ t' \<and> begins (parse_re r) t')"
  using assms(2)
proof (induction t)
  case Nil
  then show ?case using matchhere_spec [OF assms(1), of "[]"] by (subst match_loop.simps) simp
next
  case (Cons x t)
  have "(\<exists>u t'. x # t = u @ t' \<and> begins (parse_re r) t') \<longleftrightarrow> begins (parse_re r) (x # t) \<or> (\<exists>u t'. t = u @ t' \<and> begins (parse_re r) t')"
    by (metis Cons_eq_append_conv append_Cons append_Nil)
  then show ?case using Cons matchhere_spec [OF assms(1), of "x # t"] by (subst match_loop.simps) auto
qed

lemma cstr_split: "0 \<in> set s \<Longrightarrow> \<exists>x. s = cstr s @ 0 # x"
  by (induction s) auto

lemma cstr_nonzero: "0 \<notin> set (cstr s)"
  by (induction s) auto

lemma cstr_nul: "0 \<notin> set l \<Longrightarrow> cstr (l @ 0 # y) = l"
  by (induction l) auto

lemma match_value:
  assumes "0 \<in> set re" "0 \<in> set t"
  shows "match re t = Inr (contains (cstr re) (cstr t))"
proof -
  obtain rx tx where s: "re = cstr re @ 0 # rx" "t = cstr t @ 0 # tx" using assms cstr_split by metis
  have nz: "0 \<notin> set (cstr re)" "0 \<notin> set (cstr t)" by (rule cstr_nonzero)+
  have l: "match_loop re t = Inr (\<exists>u t'. cstr t = u @ t' \<and> begins (parse_re (cstr re)) t')"
    using match_loop_spec [OF nz, of rx tx] s by simp
  show ?thesis
  proof (cases "cstr re")
    case Nil
    then show ?thesis using s(1) l by (cases re) (simp_all add: match_def contains_def)
  next
    case (Cons c r)
    have re: "re = c # r @ 0 # rx" using s(1) Cons by simp
    have "matchhere (r @ 0 # rx) t = Inr (begins (parse_re r) (cstr t))"
      using matchhere_spec [of r "cstr t" rx tx] nz s(2) Cons by simp
    then show ?thesis using re l Cons by (simp add: match_def contains_def)
  qed
qed

section \<open>Lines\<close>

text \<open>The inner loop of \<open>grep\<close>: \<open>p\<close> holds the bytes of \<open>buf\<close> from the pointer \<open>p\<close> to the NUL at \<open>buf[m]\<close>. Gives what is written
  and the bytes from the last position of \<open>p\<close>. The newline that ends a line is replaced by NUL while the line is matched.\<close>

function grep_lines :: "uint8 list \<Rightarrow> uint8 list \<Rightarrow> (uint8 list \<times> uint8 list) res" where
  "grep_lines pat p =
     bind_res (strchr p 10) (\<lambda>q.
       case q of
         None \<Rightarrow> Inr ([], p)
       | Some i \<Rightarrow>
           bind_res (match pat (take i p @ 0 # drop (Suc i) p)) (\<lambda>r.
           bind_res (grep_lines pat (drop (Suc i) p)) (\<lambda>(out, p').
             Inr ((if r then take (Suc i) p else []) @ out, p'))))"
  by pat_completeness auto
termination
proof (relation "measure (\<lambda>(pat, p). length p)", goal_cases)
  case (2 pat p q i r)
  then show ?case by (cases p) auto
qed simp

declare grep_lines.simps [simp del]

text \<open>\<open>grep(pattern, fd)\<close>: what it writes to its output. \<open>rd f n\<close> is \<open>read(fd, ., n)\<close>: the bytes read, none at the end of the file
  or on an error, and the new state of the file.\<close>

primrec grep_loop :: "nat \<Rightarrow> uint8 list \<Rightarrow> ('f \<Rightarrow> nat \<Rightarrow> uint8 list \<times> 'f) \<Rightarrow> uint8 list \<Rightarrow> 'f \<Rightarrow> uint8 list res" where
  "grep_loop 0 pat rd buf f = Inl OutOfFuel"
| "grep_loop (Suc fuel) pat rd buf f =
     (case rd f (1024 - length buf - 1) of (bs, f) \<Rightarrow>
        if bs = [] then Inr []
        else
          bind_res (grep_lines pat (buf @ bs @ [0])) (\<lambda>(out, p).
          bind_res (grep_loop fuel pat rd (take (length p - 1) p) f) (\<lambda>out'. Inr (out @ out'))))"

definition grep :: "nat \<Rightarrow> uint8 list \<Rightarrow> ('f \<Rightarrow> nat \<Rightarrow> uint8 list \<times> 'f) \<Rightarrow> 'f \<Rightarrow> uint8 list res" where
  "grep fuel pat rd f = grep_loop fuel pat rd [] f"

text \<open>The complete lines of a text, and what follows the last newline.\<close>

fun split_lines :: "uint8 list \<Rightarrow> uint8 list list \<times> uint8 list" where
  "split_lines [] = ([], [])"
| "split_lines (c # s) =
     (case split_lines s of (ls, r) \<Rightarrow>
        if c = 10 then ([] # ls, r)
        else case ls of [] \<Rightarrow> ([], c # r) | l # ls' \<Rightarrow> ((c # l) # ls', r))"

definition print_lines :: "uint8 list \<Rightarrow> uint8 list list \<Rightarrow> uint8 list" where
  "print_lines re ls = concat (map (\<lambda>l. l @ [10]) (filter (contains re) ls))"

lemma split_lines_rest: "10 \<notin> set r \<Longrightarrow> split_lines r = ([], r)"
  by (induction r) auto

lemma split_lines_line: "10 \<notin> set l \<Longrightarrow> split_lines (l @ 10 # s) = (l # fst (split_lines s), snd (split_lines s))"
  by (induction l) (auto split: prod.splits)

lemma first_line: "10 \<in> set s \<Longrightarrow> \<exists>l x. s = l @ 10 # x \<and> 10 \<notin> set l"
  for s :: "uint8 list"
  by (meson split_list_first)

lemma split_lines_append:
  "split_lines (a @ b) =
     (fst (split_lines a) @ fst (split_lines (snd (split_lines a) @ b)), snd (split_lines (snd (split_lines a) @ b)))"
proof (induction a rule: length_induct)
  case (1 a)
  show ?case
  proof (cases "10 \<in> set a")
    case True
    then obtain l x where a: "a = l @ 10 # x" "10 \<notin> set l" using first_line by blast
    then have "split_lines (x @ b) = (fst (split_lines x) @ fst (split_lines (snd (split_lines x) @ b)), snd (split_lines (snd (split_lines x) @ b)))"
      using 1 by simp
    then show ?thesis using a split_lines_line [of l "x @ b"] split_lines_line [of l x] by simp
  qed (simp add: split_lines_rest)
qed

lemma snd_split_lines: "10 \<notin> set (snd (split_lines a))" "set (snd (split_lines a)) \<subseteq> set a"
  by (induction a) (auto split: prod.splits list.splits if_splits)

lemma strchr_line:
  assumes "0 \<notin> set l" "10 \<notin> set l"
  shows "strchr (l @ 10 # x) 10 = Inr (Some (length l))" "strchr (l @ 0 # x) 10 = Inr None"
  using assms by (induction l) auto

lemma grep_lines_value:
  assumes "0 \<in> set pat" "0 \<notin> set b"
  shows "grep_lines pat (b @ [0]) = Inr (print_lines (cstr pat) (fst (split_lines b)), snd (split_lines b) @ [0])"
  using assms(2)
proof (induction b rule: length_induct)
  case (1 b)
  show ?case
  proof (cases "10 \<in> set b")
    case False
    then show ?thesis using 1 strchr_line(2) [of b "[]"] by (subst grep_lines.simps) (simp add: split_lines_rest print_lines_def)
  next
    case True
    then obtain l x where b: "b = l @ 10 # x" "10 \<notin> set l" using first_line by blast
    have c: "cstr (l @ 0 # y) = l" for y using 1(2) b by (simp add: cstr_nul)
    have m: "match pat (l @ 0 # y) = Inr (contains (cstr pat) l)" for y using match_value [OF assms(1), of "l @ 0 # y"] c by simp
    have ih: "grep_lines pat (x @ [0]) = Inr (print_lines (cstr pat) (fst (split_lines x)), snd (split_lines x) @ [0])"
      using 1 b by simp
    show ?thesis using 1(2) b strchr_line(1) [of l "x @ [0]"] m ih
      by (subst grep_lines.simps) (simp add: split_lines_line print_lines_def)
  qed
qed

text \<open>What \<open>read\<close> promises: a piece of what is left of the file, of at most \<open>n\<close> bytes, and empty only at the end or when \<open>n\<close> is 0.\<close>

definition reads :: "('f \<Rightarrow> nat \<Rightarrow> uint8 list \<times> 'f) \<Rightarrow> ('f \<Rightarrow> uint8 list) \<Rightarrow> bool" where
  "reads rd content \<longleftrightarrow> (\<forall>f n. content f = fst (rd f n) @ content (snd (rd f n)) \<and> length (fst (rd f n)) \<le> n \<and>
     (fst (rd f n) = [] \<longrightarrow> n = 0 \<or> content f = []))"

definition short_lines :: "uint8 list \<Rightarrow> bool" where
  "short_lines s \<longleftrightarrow> (\<forall>l \<in> set (fst (split_lines s)). length l \<le> 1022) \<and> length (snd (split_lines s)) \<le> 1022"

lemma short_prefix:
  assumes "short_lines (r @ s)" "10 \<notin> set r"
  shows "length r \<le> 1022"
proof (cases "10 \<in> set s")
  case True
  then obtain l x where "s = l @ 10 # x" "10 \<notin> set l" using first_line by blast
  then show ?thesis using assms split_lines_line [of "r @ l" x] by (simp add: short_lines_def)
next
  case False
  then show ?thesis using assms split_lines_rest [of "r @ s"] by (simp add: short_lines_def)
qed

lemma short_rest:
  assumes "short_lines (a @ b)"
  shows "short_lines (snd (split_lines a) @ b)"
  using assms by (subst (asm) (1) short_lines_def) (auto simp: split_lines_append [of a b] short_lines_def)

lemma grep_loop_value:
  assumes "reads rd content" "0 \<in> set pat" "0 \<notin> set (buf @ content f)" "10 \<notin> set buf" "short_lines (buf @ content f)"
    "length (content f) < fuel"
  shows "grep_loop fuel pat rd buf f = Inr (print_lines (cstr pat) (fst (split_lines (buf @ content f))))"
  using assms(3-6)
proof (induction fuel arbitrary: buf f)
  case (Suc fuel)
  let ?n = "1024 - length buf - 1"
  obtain bs f' where r: "rd f ?n = (bs, f')" by force
  have c: "content f = bs @ content f'" "bs = [] \<longrightarrow> ?n = 0 \<or> content f = []"
    using assms(1) r unfolding reads_def by (metis fst_conv snd_conv)+
  have n: "?n \<noteq> 0" using short_prefix [OF Suc.prems(3,2)] by simp
  show ?case
  proof (cases "bs = []")
    case True
    then show ?thesis using c n r Suc.prems(2) by (simp add: split_lines_rest print_lines_def)
  next
    case False
    let ?r = "snd (split_lines (buf @ bs))"
    have g: "grep_lines pat (buf @ bs @ [0]) = Inr (print_lines (cstr pat) (fst (split_lines (buf @ bs))), ?r @ [0])"
      using grep_lines_value [OF assms(2), of "buf @ bs"] Suc.prems(1) c by simp
    have "grep_loop fuel pat rd ?r f' = Inr (print_lines (cstr pat) (fst (split_lines (?r @ content f'))))"
    proof (rule Suc.IH)
      show "0 \<notin> set (?r @ content f')" using Suc.prems(1) c(1) snd_split_lines(2) [of "buf @ bs"] by auto
      show "10 \<notin> set ?r" by (rule snd_split_lines)
      show "short_lines (?r @ content f')" using Suc.prems(3) c(1) short_rest [of "buf @ bs" "content f'"] by simp
      show "length (content f') < fuel" using Suc.prems(4) c(1) False by (cases bs) auto
    qed
    then show ?thesis using r False g c(1) split_lines_append [of "buf @ bs" "content f'"] by (simp add: print_lines_def)
  qed
qed simp

section \<open>Properties\<close>

text \<open>C12: \<open>match\<close> decides the language of the pattern. For a pattern and a text that end in NUL it always returns, and it returns 1 exactly
  when the text contains a word of the pattern's language: a sequence of characters, \<open>.\<close> for any character, \<open>c*\<close> for any
  number of repetitions, at the start of the text if the pattern begins with \<open>^\<close>, and at its end if it ends in \<open>$\<close>.\<close>

theorem match_decides_language:
  assumes "0 \<in> set re" "0 \<in> set text"
  shows "match re text = Inr (contains (cstr re) (cstr text))"
  using assms by (rule match_value)

theorem match_decides_language_witness:
  "match [94, 97, 46, 42, 36, 0] [97, 98, 99, 0] = Inr True \<and> contains [94, 97, 46, 42, 36] [97, 98, 99]"
proof -
  have "match [94, 97, 46, 42, 36, 0] [97, 98, 99, 0] = Inr (contains [94, 97, 46, 42, 36] [97, 98, 99])"
    using match_decides_language [of "[94, 97, 46, 42, 36, 0]" "[97, 98, 99, 0]"] by simp
  moreover have "contains [94, 97, 46, 42, 36] [97, 98, 99]"
    by (simp add: contains_def begins_simps begins_Many fits_def)
  ultimately show ?thesis by simp
qed



end
