(* ===== verification/Uprintf.thy ===== *)
theory Uprintf
  imports Ulib
begin

text \<open>
  Formatted output of user programs, \<open>user/printf.c\<close>: the bytes a call writes to its file descriptor, one \<open>write\<close>
  each. It differs from the kernel's: the digits above 9 are capitals, \<open>%x\<close> is unsigned, and \<open>%l\<close> and \<open>%c\<close> exist.
\<close>

section \<open>Definitions\<close>

definition udigits :: "uint8 list" where
  "udigits = [48, 49, 50, 51, 52, 53, 54, 55, 56, 57, 65, 66, 67, 68, 69, 70]"

text \<open>The digits in the order they are stored in \<open>buf\<close>. The calls pass base 10 or 16; for a base below 2 the source would not stop,
  and the model stores one digit only.\<close>

function udigit_loop :: "uint \<Rightarrow> uint \<Rightarrow> uint8 list" where
  "udigit_loop x base =
     udigits ! unat (x mod base) # (if x div base = 0 \<or> base < 2 then [] else udigit_loop (x div base) base)"
  by pat_completeness auto
termination
proof (relation "measure (\<lambda>(x, base). unat x)", goal_cases)
  case (2 x base)
  then have "0 < unat x" "2 \<le> unat base" by (auto simp: unat_gt_0 word_less_nat_alt not_less)
  then show ?case by (simp add: unat_div)
qed simp

declare udigit_loop.simps [simp del]

definition uprintint :: "uint \<Rightarrow> uint \<Rightarrow> bool \<Rightarrow> uint8 list" where
  "uprintint xx base sg =
     (let neg = sg \<and> sint xx < 0;
          x = (if neg then - xx else xx);
          buf = udigit_loop x base @ (if neg then [45] else [])
      in rev buf)"

fun uprintptr_loop :: "nat \<Rightarrow> uint64 \<Rightarrow> uint8 list" where
  "uprintptr_loop 0 x = []"
| "uprintptr_loop (Suc n) x = udigits ! unat (drop_bit 60 x) # uprintptr_loop n (push_bit 4 x)"

definition uprintptr :: "uint64 \<Rightarrow> uint8 list" where
  "uprintptr x = [48, 120] @ uprintptr_loop 16 x"

datatype uarg = UInt uint | ULong uint64 | UStr "uint8 list option"

text \<open>The bytes \<open>%s\<close> writes: the string up to its NUL, \<open>(null)\<close> for the null pointer.\<close>

fun put_str :: "uint8 list \<Rightarrow> uint8 list res" where
  "put_str [] = Inl OutOfBounds"
| "put_str (c # s) = (if c \<noteq> 0 then bind_res (put_str s) (\<lambda>bs. Inr (c # bs)) else Inr [])"

text \<open>One conversion: the bytes written and the arguments left.\<close>

definition convert :: "uint8 \<Rightarrow> uarg list \<Rightarrow> (uint8 list \<times> uarg list) res" where
  "convert c ap =
     (if c = 100 then (case ap of UInt x # ap \<Rightarrow> Inr (uprintint x 10 True, ap) | _ \<Rightarrow> Inl OutOfBounds)
      else if c = 108 then (case ap of ULong x # ap \<Rightarrow> Inr (uprintint (ucast x) 10 False, ap) | _ \<Rightarrow> Inl OutOfBounds)
      else if c = 120 then (case ap of UInt x # ap \<Rightarrow> Inr (uprintint x 16 False, ap) | _ \<Rightarrow> Inl OutOfBounds)
      else if c = 112 then (case ap of ULong x # ap \<Rightarrow> Inr (uprintptr x, ap) | _ \<Rightarrow> Inl OutOfBounds)
      else if c = 115 then
        (case ap of
           UStr s # ap \<Rightarrow>
             bind_res (put_str (case s of None \<Rightarrow> [40, 110, 117, 108, 108, 41, 0] | Some s \<Rightarrow> s)) (\<lambda>bs. Inr (bs, ap))
         | _ \<Rightarrow> Inl OutOfBounds)
      else if c = 99 then (case ap of UInt x # ap \<Rightarrow> Inr ([ucast x], ap) | _ \<Rightarrow> Inl OutOfBounds)
      else if c = 37 then Inr ([c], ap)
      else Inr ([37, c], ap))"

text \<open>\<open>vprintf\<close>; \<open>pct\<close> is the state \<open>'%'\<close> of the loop.\<close>

fun vprintf :: "bool \<Rightarrow> uint8 list \<Rightarrow> uarg list \<Rightarrow> uint8 list res" where
  "vprintf pct [] ap = Inl OutOfBounds"
| "vprintf pct (c # fmt) ap =
     (if c = 0 then Inr []
      else if \<not> pct then
        if c = 37 then vprintf True fmt ap
        else bind_res (vprintf False fmt ap) (\<lambda>bs. Inr (c # bs))
      else
        bind_res (convert c ap) (\<lambda>(out, ap).
        bind_res (vprintf False fmt ap) (\<lambda>bs. Inr (out @ bs))))"

definition fprintf :: "uint8 list \<Rightarrow> uarg list \<Rightarrow> uint8 list res" where
  "fprintf fmt ap = vprintf False fmt ap"


section \<open>Numbers\<close>

lemma udigit_10:
  fixes x :: uint
  shows "48 \<le> udigits ! unat (x mod 10)" "udigits ! unat (x mod 10) \<le> 57" "ucast (udigits ! unat (x mod 10)) - 48 = x mod 10"
proof -
  have "unat (x mod 10) < 10" by (simp add: unat_mod)
  then have "unat (x mod 10) \<in> {0, 1, 2, 3, 4, 5, 6, 7, 8, 9}" by auto
  moreover have "x mod 10 = of_nat (unat (x mod 10))" by simp
  ultimately have "48 \<le> udigits ! unat (x mod 10) \<and> udigits ! unat (x mod 10) \<le> 57 \<and> ucast (udigits ! unat (x mod 10)) - 48 = (of_nat (unat (x mod 10)) :: uint)"
    by (elim insertE) (auto simp: udigits_def)
  then show "48 \<le> udigits ! unat (x mod 10)" "udigits ! unat (x mod 10) \<le> 57" "ucast (udigits ! unat (x mod 10)) - 48 = x mod 10" by simp_all
qed

lemma atoi_loop_digits:
  "atoi_loop (rev (udigit_loop x 10) @ rest) n = atoi_loop rest (n * 10 ^ length (udigit_loop x 10) + x)"
proof (induction x "10 :: uint" arbitrary: n rest rule: udigit_loop.induct)
  case (1 x)
  let ?d = "udigits ! unat (x mod 10)" let ?ds = "udigit_loop (x div 10) 10"
  have step: "atoi_loop (?d # rest) m = atoi_loop rest (m * 10 + x mod 10)" for m
    using udigit_10 [of x] by (simp add: algebra_simps)
  show ?case
  proof (cases "x div 10 = 0")
    case True
    then have "x mod 10 = x" using div_mult_mod_eq [of x 10] by simp
    then show ?thesis using True step by (subst (1 2) udigit_loop.simps) simp
  next
    case False
    then have e: "udigit_loop x 10 = ?d # ?ds" by (subst udigit_loop.simps) simp
    have "atoi_loop (rev (udigit_loop x 10) @ rest) n = atoi_loop (?d # rest) (n * 10 ^ length ?ds + x div 10)"
      using "1"(1) [of "?d # rest" n] False e by simp
    also have "\<dots> = atoi_loop rest ((n * 10 ^ length ?ds + x div 10) * 10 + x mod 10)" by (rule step)
    also have "(n * 10 ^ length ?ds + x div 10) * 10 + x mod 10 = n * 10 ^ length (udigit_loop x 10) + x"
      using div_mult_mod_eq [of x 10] by (simp add: e algebra_simps)
    finally show ?thesis .
  qed
qed

text \<open>A number takes at most as many digits as the base allows: the array \<open>buf[16]\<close> of \<open>printint\<close> is large enough.\<close>

lemma length_udigit_loop: "2 \<le> base \<Longrightarrow> unat x < unat base ^ k \<Longrightarrow> 1 \<le> k \<Longrightarrow> length (udigit_loop x base) \<le> k"
proof (induction k arbitrary: x)
  case (Suc k)
  have b: "0 < unat base" using Suc.prems(1) by (auto simp: word_le_nat_alt)
  have x: "unat (x div base) < unat base ^ k" using Suc.prems(2) b by (simp add: unat_div less_mult_imp_div_less mult.commute)
  show ?case
  proof (cases "k = 0")
    case True
    then have "x div base = 0" using x by (simp add: unat_eq_0)
    then show ?thesis using True by (subst udigit_loop.simps) simp
  next
    case False
    then show ?thesis using Suc.IH [OF Suc.prems(1) x] by (subst udigit_loop.simps) simp
  qed
qed simp

section \<open>Properties\<close>

text \<open>What \<open>printf\<close> writes with \<open>%d\<close>, \<open>atoi\<close> reads back. For every \<open>int\<close> that is not negative, \<open>atoi\<close> of the digits written (up to a byte that
  is not a digit) is the number; and for every number, also negative ones, and for \<open>%x\<close>, the digits and the sign fit in the array of 16 bytes they are collected in.\<close>

theorem printint_atoi_roundtrip:
  assumes "0 \<le> sint x" "c < 48"
  shows "fprintf [37, 100, 0] [UInt x] = Inr (uprintint x 10 True) \<and> atoi (uprintint x 10 True @ c # rest) = Inr (sint x) \<and>
    length (uprintint y 10 True) \<le> 16 \<and> length (uprintint y 16 False) \<le> 16"
proof -
  have "uprintint x 10 True = rev (udigit_loop x 10)" using assms(1) by (simp add: uprintint_def)
  moreover have "\<not> 48 \<le> c" using assms(2) by simp
  ultimately have "atoi (uprintint x 10 True @ c # rest) = Inr (sint x)" by (simp add: atoi_def atoi_loop_digits)
  moreover have "length (udigit_loop z 10) \<le> 10" "length (udigit_loop z 16) \<le> 8" for z
  proof -
    have "unat z < 2 ^ 32" using unsigned_less [of z] by simp
    then show "length (udigit_loop z 10) \<le> 10" "length (udigit_loop z 16) \<le> 8"
      by (intro length_udigit_loop; simp)+
  qed
  then have "length (uprintint y 10 True) \<le> 16" "length (uprintint y 16 False) \<le> 16"
    using le_trans [of "length (udigit_loop (- y) 10)" 10 15] le_trans [of "length (udigit_loop y 10)" 10 16] le_trans [of "length (udigit_loop y 16)" 8 16]
    by (simp_all add: uprintint_def Let_def)
  ultimately show ?thesis by (simp add: fprintf_def convert_def)
qed

theorem printint_atoi_roundtrip_witness:
  "atoi (uprintint 407 10 True @ [10, 0]) = Inr 407"
  using printint_atoi_roundtrip [of 407 10 "[0]"] by simp

end
