(* ===== verification/Spec2Isabelle.thy ===== *)
theory Spec2Isabelle
  imports Trap Mkfs Vdriver Grep Uprintf
begin

text \<open>
  Verification of the enhanced xv6 kernel (plan and map of the development).
\<close>

end
